(* ===== verification/Prelude.thy ===== *)
theory Prelude
  imports Main "HOL-Library.Word"
begin

text \<open>
  Shared vocabulary of the development.

  \<^item> Machine types: \<open>u64\<close> is \<^verbatim>\<open>uint64_t\<close> / \<^verbatim>\<open>size_t\<close> and the type
    \<^verbatim>\<open>husky::constants::Key\<close> (\<^verbatim>\<open>core/constants.hpp\<close>).
  \<^item> Errors: every \<^verbatim>\<open>assert\<close>, \<^verbatim>\<open>throw\<close>, out-of-range access and ill-formed message of
    the code is a value of \<open>error\<close>; a fallible operation returns \<open>error + 'a\<close>, and \<open>bindE\<close> and
    \<open>foldE\<close> are sequencing and the for-loop on that type.
  \<^item> Vectors: \<open>resize\<close>, \<open>vec_get\<close>, \<open>vec_set\<close> are \<^verbatim>\<open>std::vector\<close>'s \<^verbatim>\<open>resize\<close> and
    indexing, \<open>lower_bound\<close> is \<^verbatim>\<open>std::lower_bound\<close> on a sorted range.

  The lemmas below are the ones the component theories share.
\<close>

section \<open>Types\<close>

type_synonym u64 = "64 word"
type_synonym u32 = "32 word"
type_synonym Key = u64

datatype error =
    AssertFailed            \<comment> \<open>a failed \<^verbatim>\<open>assert\<close>\<close>
  | OutOfRange              \<comment> \<open>an index past the end of a \<^verbatim>\<open>std::vector\<close>\<close>
  | DivideByZero
  | UnknownCmd int          \<comment> \<open>\<^verbatim>\<open>HuskyException("Unknown cmd ...")\<close>\<close>
  | BadMessage              \<comment> \<open>the stream does not hold what the reader asks for\<close>
  | HuskyException string   \<comment> \<open>any other \<^verbatim>\<open>throw HuskyException\<close>\<close>
  | InvalidArgument         \<comment> \<open>\<^verbatim>\<open>std::invalid_argument\<close> of \<^verbatim>\<open>std::stoi\<close>\<close>
  | ThreadsOverflow int     \<comment> \<open>\<^verbatim>\<open>HuskyException("... max num of threads overflow ...")\<close> for a task\<close>
  | UndefinedBehaviour      \<comment> \<open>a null or dangling reference, a downcast to the wrong class\<close>

text \<open>What the code asks of Husky's \<^verbatim>\<open>WorkerInfo\<close>.\<close>

record WorkerInfo =
  wi_num_workers :: nat
  wi_num_processes :: nat
  wi_process_id :: nat
  wi_proc_of :: "nat \<Rightarrow> nat"     \<comment> \<open>\<^verbatim>\<open>get_process_id(i)\<close>\<close>

named_theorems res_simps \<open>evaluation of the result type\<close>
named_theorems vec_simps \<open>vectors\<close>

section \<open>Results\<close>

fun bindE :: "'e + 'a \<Rightarrow> ('a \<Rightarrow> 'e + 'b) \<Rightarrow> 'e + 'b" where
  "bindE (Inl e) f = Inl e"
| "bindE (Inr x) f = f x"

definition assertE :: "bool \<Rightarrow> error + unit" where
  "assertE b = (if b then Inr () else Inl AssertFailed)"

fun foldE :: "('x \<Rightarrow> 's \<Rightarrow> 'e + 's) \<Rightarrow> 'x list \<Rightarrow> 's \<Rightarrow> 'e + 's" where
  "foldE f [] s = Inr s"
| "foldE f (x # xs) s = bindE (f x s) (foldE f xs)"

fun mapE :: "('x \<Rightarrow> 'e + 'y) \<Rightarrow> 'x list \<Rightarrow> 'e + 'y list" where
  "mapE f [] = Inr []"
| "mapE f (x # xs) = bindE (f x) (\<lambda>y. bindE (mapE f xs) (\<lambda>ys. Inr (y # ys)))"

text \<open>Results of code that may run forever: \<open>None\<close> is no result at all.\<close>

fun bindO :: "('e + 'a) option \<Rightarrow> ('a \<Rightarrow> ('e + 'b) option) \<Rightarrow> ('e + 'b) option" where
  "bindO None f = None"
| "bindO (Some (Inl e)) f = Some (Inl e)"
| "bindO (Some (Inr x)) f = f x"

fun foldO :: "('x \<Rightarrow> 's \<Rightarrow> ('e + 's) option) \<Rightarrow> 'x list \<Rightarrow> 's \<Rightarrow> ('e + 's) option" where
  "foldO f [] s = Some (Inr s)"
| "foldO f (x # xs) s = bindO (f x s) (foldO f xs)"

lemma bindE_eq_Inr [res_simps]: "bindE m f = Inr y \<longleftrightarrow> (\<exists>x. m = Inr x \<and> f x = Inr y)"
  by (cases m) auto

lemma bindE_eq_Inl [res_simps]:
  "bindE m f = Inl e \<longleftrightarrow> m = Inl e \<or> (\<exists>x. m = Inr x \<and> f x = Inl e)"
  by (cases m) auto

lemma bindO_eq_Inr [res_simps]: "bindO m f = Some (Inr y) \<longleftrightarrow> (\<exists>x. m = Some (Inr x) \<and> f x = Some (Inr y))"
  by (cases "(m, f)" rule: bindO.cases) auto

lemma bindE_assoc: "bindE (bindE m f) g = bindE m (\<lambda>x. bindE (f x) g)"
  by (cases m) auto

lemma bindE_Inr [simp]: "bindE m Inr = m"
  by (cases m) auto

lemma assertE_eq_Inr [res_simps]: "assertE b = Inr u \<longleftrightarrow> b"
  by (auto simp: assertE_def)

lemma assertE_True [simp]: "assertE True = Inr ()" and assertE_False [simp]: "assertE False = Inl AssertFailed"
  by (simp_all add: assertE_def)

lemma foldE_Nil_fun [simp]: "foldE f [] = Inr"
  by (rule ext) simp

lemma foldE_append: "foldE f (xs @ ys) s = bindE (foldE f xs s) (foldE f ys)"
proof (induction xs arbitrary: s)
  case Nil
  then show ?case by simp
next
  case (Cons x xs)
  then show ?case by (cases "f x s") auto
qed

lemma foldE_total:
  assumes "\<And>x s. x \<in> set xs \<Longrightarrow> I s \<Longrightarrow> \<exists>s'. f x s = Inr s' \<and> I s'" and "I s"
  shows "\<exists>s'. foldE f xs s = Inr s' \<and> I s'"
  using assms
proof (induction xs arbitrary: s)
  case Nil
  then show ?case by simp
next
  case (Cons x xs)
  from Cons.prems obtain s1 where "f x s = Inr s1" "I s1" by (metis list.set_intros(1))
  moreover have "\<exists>s'. foldE f xs s1 = Inr s' \<and> I s'"
    using Cons.prems(1) \<open>I s1\<close> by (intro Cons.IH) auto
  ultimately show ?case by simp
qed

lemma foldE_invariant:
  assumes "foldE f xs s = Inr s'" and "I s"
    and "\<And>x s s'. x \<in> set xs \<Longrightarrow> I s \<Longrightarrow> f x s = Inr s' \<Longrightarrow> I s'"
  shows "I s'"
  using assms
proof (induction xs arbitrary: s)
  case Nil
  then show ?case by simp
next
  case (Cons x xs)
  then obtain s1 where "f x s = Inr s1" "foldE f xs s1 = Inr s'" by (auto simp: res_simps)
  moreover have "I s1" using Cons.prems(2,3) \<open>f x s = Inr s1\<close> by (metis list.set_intros(1))
  ultimately show ?case using Cons.IH Cons.prems(3) by (meson list.set_intros(2))
qed

lemma foldE_cong:
  "(\<And>x s. x \<in> set xs \<Longrightarrow> f x s = g x s) \<Longrightarrow> foldE f xs s = foldE g xs s"
proof (induction xs arbitrary: s)
  case (Cons x xs)
  then show ?case by (cases "g x s") auto
qed simp

lemma foldE_map: "foldE f (map g xs) s = foldE (\<lambda>x. f (g x)) xs s"
proof (induction xs arbitrary: s)
  case (Cons x xs)
  then show ?case by (cases "f (g x) s") auto
qed simp

lemma foldE_nth: "foldE (\<lambda>i. f (xs ! i)) [0..<length xs] s = foldE f xs s"
  using foldE_map [of f "\<lambda>i. xs ! i" "[0..<length xs]" s] by (simp add: map_nth)

lemma foldE_Inr_each: "foldE f xs s = Inr s' \<Longrightarrow> x \<in> set xs \<Longrightarrow> \<exists>s1 s2. f x s1 = Inr s2"
  by (induction xs arbitrary: s) (auto simp: res_simps)

lemma mapE_Inr_map: "(\<And>x. x \<in> set xs \<Longrightarrow> f x = Inr (g x)) \<Longrightarrow> mapE f xs = Inr (map g xs)"
  by (induction xs) auto

lemma mapE_length: "mapE f xs = Inr ys \<Longrightarrow> length ys = length xs"
  by (induction xs arbitrary: ys) (auto simp: res_simps)

lemma foldO_append: "foldO f (xs @ ys) s = bindO (foldO f xs s) (foldO f ys)"
proof (induction xs arbitrary: s)
  case (Cons x xs)
  then show ?case by (cases "(f x s, foldO f xs)" rule: bindO.cases) auto
qed simp

lemma foldO_invariant:
  assumes "foldO f xs s = Some (Inr s')" and "I s"
    and "\<And>x s s'. x \<in> set xs \<Longrightarrow> I s \<Longrightarrow> f x s = Some (Inr s') \<Longrightarrow> I s'"
  shows "I s'"
  using assms
proof (induction xs arbitrary: s)
  case (Cons x xs)
  then obtain s1 where "f x s = Some (Inr s1)" "foldO f xs s1 = Some (Inr s')" by (auto simp: res_simps)
  then show ?case using Cons.IH [of s1] Cons.prems(2) Cons.prems(3) [of x s s1] Cons.prems(3) by (meson list.set_intros)
qed simp

section \<open>Vectors\<close>

definition resize :: "nat \<Rightarrow> 'a \<Rightarrow> 'a list \<Rightarrow> 'a list" where
  "resize n d xs = take n xs @ replicate (n - length xs) d"

text \<open>The idiom \<^verbatim>\<open>if (i >= v.size()) v.resize(i + 1)\<close>.\<close>

definition grow_to :: "nat \<Rightarrow> 'a \<Rightarrow> 'a list \<Rightarrow> 'a list" where
  "grow_to i d xs = (if i \<ge> length xs then resize (i + 1) d xs else xs)"

definition vec_get :: "'a list \<Rightarrow> nat \<Rightarrow> error + 'a" where
  "vec_get xs i = (if i < length xs then Inr (xs ! i) else Inl OutOfRange)"

definition vec_set :: "'a list \<Rightarrow> nat \<Rightarrow> 'a \<Rightarrow> error + 'a list" where
  "vec_set xs i x = (if i < length xs then Inr (xs[i := x]) else Inl OutOfRange)"

lemma length_resize [simp]: "length (resize n d xs) = n"
  by (simp add: resize_def)

lemma nth_resize: "i < n \<Longrightarrow> resize n d xs ! i = (if i < length xs then xs ! i else d)"
  by (simp add: resize_def nth_append)

lemma length_grow_to [simp]: "length (grow_to i d xs) = max (length xs) (i + 1)"
  by (auto simp: grow_to_def)

lemma nth_grow_to:
  "j < length (grow_to i d xs) \<Longrightarrow> grow_to i d xs ! j = (if j < length xs then xs ! j else d)"
  by (auto simp: grow_to_def nth_resize split: if_splits)

text \<open>
  Reading a vector of counters past its end as the value that \<^verbatim>\<open>resize\<close> would put there: the
  meaning of the vectors the servers grow on demand.
\<close>

definition nth_or :: "'a \<Rightarrow> 'a list \<Rightarrow> nat \<Rightarrow> 'a" where
  "nth_or d xs i = (if i < length xs then xs ! i else d)"

lemma nth_or_grow_to [vec_simps, simp]: "nth_or d (grow_to i d xs) j = nth_or d xs j"
  by (auto simp: nth_or_def nth_grow_to simp del: length_grow_to)
     (auto simp: grow_to_def split: if_splits)

lemma grow_to_nth [vec_simps, simp]: "grow_to i d xs ! i = nth_or d xs i"
  by (auto simp: nth_or_def nth_grow_to)

lemma nth_or_Nil [vec_simps, simp]: "nth_or d [] i = d"
  by (simp add: nth_or_def)

lemma nth_or_update [vec_simps]:
  "i < length xs \<Longrightarrow> nth_or d (xs[i := x]) j = (if j = i then x else nth_or d xs j)"
  by (auto simp: nth_or_def)

lemma nth_or_grow_update [vec_simps, simp]:
  "nth_or d ((grow_to i d xs)[i := x]) j = (if j = i then x else nth_or d xs j)"
  by (subst nth_or_update) auto

lemma nth_or_nth: "i < length xs \<Longrightarrow> nth_or d xs i = xs ! i"
  by (simp add: nth_or_def)

section \<open>Sorted ranges\<close>

text \<open>
  \<^verbatim>\<open>std::lower_bound(first, last, v) - first\<close>: the number of elements before the first one that is not
  less than \<open>v\<close>. The library requires the range to be partitioned by that test.
\<close>

definition lower_bound :: "'a::linorder list \<Rightarrow> 'a \<Rightarrow> nat" where
  "lower_bound xs v = length (takeWhile (\<lambda>x. x < v) xs)"

lemma lower_bound_le [simp]: "lower_bound xs v \<le> length xs"
  by (simp add: lower_bound_def length_takeWhile_le)

lemma take_lower_bound: "take (lower_bound xs v) xs = takeWhile (\<lambda>x. x < v) xs"
  unfolding lower_bound_def by (rule takeWhile_eq_take [symmetric])

lemma drop_lower_bound: "drop (lower_bound xs v) xs = dropWhile (\<lambda>x. x < v) xs"
  unfolding lower_bound_def by (rule dropWhile_eq_drop [symmetric])

lemma sorted_takeWhile_less: "sorted xs \<Longrightarrow> takeWhile (\<lambda>x. x < v) xs = filter (\<lambda>x. x < v) xs"
proof (induction xs)
  case (Cons a xs)
  then have "v \<le> a \<Longrightarrow> filter (\<lambda>x. x < v) xs = []" by (fastforce simp: filter_empty_conv)
  with Cons show ?case by auto
qed simp

lemma sorted_dropWhile_less: "sorted xs \<Longrightarrow> dropWhile (\<lambda>x. x < v) xs = filter (\<lambda>x. \<not> x < v) xs"
proof (induction xs)
  case (Cons a xs)
  then have "v \<le> a \<Longrightarrow> filter (\<lambda>x. \<not> x < v) xs = xs" by (fastforce simp: filter_id_conv)
  with Cons show ?case by auto
qed simp

section \<open>Words\<close>

lemma unat_of_nat_u64: "n < 2 ^ 64 \<Longrightarrow> unat (of_nat n :: u64) = n"
  by (simp add: unat_of_nat take_bit_nat_eq_self)

lemma of_nat_mult_u64:
  "a * b < 2 ^ 64 \<Longrightarrow> unat (of_nat a * of_nat b :: u64) = a * b"
  by (metis of_nat_mult unat_of_nat_u64)

lemma u64_less_iff: "(a :: u64) < b \<longleftrightarrow> unat a < unat b"
  by (rule word_less_nat_alt)

lemma u64_le_iff: "(a :: u64) \<le> b \<longleftrightarrow> unat a \<le> unat b"
  by (rule word_le_nat_alt)

lemma unat_u64_bound: "unat (a :: u64) < 2 ^ 64"
proof -
  have "unat a < 2 ^ LENGTH(64)" by (rule unsigned_less)
  then show ?thesis by simp
qed

end
