(* ===== verification/Range_Manager.thy ===== *)
theory Range_Manager
  imports Prelude
begin

text \<open>
  The key-range table of the parameter server: \<^verbatim>\<open>kvstore/ps_lite/range.h\<close>,
  \<^verbatim>\<open>kvstore/range_manager.hpp\<close> and \<^verbatim>\<open>kvstore/range_manager.cpp\<close>.

  A \<open>Range\<close> is a half-open interval of \<^verbatim>\<open>uint64_t\<close> keys. The singleton \<open>RangeManager\<close> keeps, for
  every store id, the key interval and the chunk interval of each server. All arithmetic is on 64-bit
  words, so the products that the source comments as ``may overflow'' wrap here as they do there;
  \<^verbatim>\<open>int\<close> parameters are converted to \<^verbatim>\<open>uint64_t\<close> where the source mixes the two types.

  The main lemma is \<open>SetMaxKeyAndChunkSize_closed\<close>: the table computed by the code is, for every
  maximal key of 64 bits, the clipped partition \<open>key_bound\<close>.
\<close>

section \<open>Model\<close>

record Range =
  range_begin :: u64
  range_end :: u64

definition mk_Range :: "u64 \<Rightarrow> u64 \<Rightarrow> Range" where
  "mk_Range b e = \<lparr>range_begin = b, range_end = e\<rparr>"

definition range_size :: "Range \<Rightarrow> u64" where
  "range_size r = range_end r - range_begin r"

record RangeManager =
  rm_num_servers :: int
  rm_key_ranges :: "Range list list"
  rm_chunk_ranges :: "Range list list"
  rm_max_keys :: "u64 list"
  rm_chunk_sizes :: "u64 list"
  rm_chunk_nums :: "u64 list"

definition init_RangeManager :: RangeManager where
  "init_RangeManager = \<lparr>rm_num_servers = -1, rm_key_ranges = [], rm_chunk_ranges = [],
     rm_max_keys = [], rm_chunk_sizes = [], rm_chunk_nums = []\<rparr>"

definition default_chunk_size :: int where
  "default_chunk_size = 100"

definition SetNumServers :: "int \<Rightarrow> RangeManager \<Rightarrow> RangeManager" where
  "SetNumServers n rm = rm\<lparr>rm_num_servers := n\<rparr>"

definition Clear :: "RangeManager \<Rightarrow> RangeManager" where
  "Clear rm = rm\<lparr>rm_num_servers := -1, rm_key_ranges := [], rm_chunk_ranges := [],
     rm_max_keys := [], rm_chunk_sizes := [], rm_chunk_nums := []\<rparr>"

definition ensure_slot :: "nat \<Rightarrow> RangeManager \<Rightarrow> RangeManager" where
  "ensure_slot kv_id rm =
     (if kv_id \<ge> length (rm_key_ranges rm)
      then rm\<lparr>rm_key_ranges := resize (kv_id + 1) [] (rm_key_ranges rm),
              rm_chunk_ranges := resize (kv_id + 1) [] (rm_chunk_ranges rm),
              rm_max_keys := resize (kv_id + 1) 0 (rm_max_keys rm),
              rm_chunk_sizes := resize (kv_id + 1) 0 (rm_chunk_sizes rm),
              rm_chunk_nums := resize (kv_id + 1) 0 (rm_chunk_nums rm)\<rparr>
      else rm)"

text \<open>The three pushes of \<^verbatim>\<open>rm_chunk_ranges\<close>: \<open>[0, remain)\<close>, \<open>[remain, num_servers - 1)\<close>, the last.\<close>

definition assign_chunks :: "u64 \<Rightarrow> u64 \<Rightarrow> Range list" where
  "assign_chunks chunk_num num_servers =
     (let base = chunk_num div num_servers;
          remain = chunk_num mod num_servers;
          e = remain * (base + 1)
      in map (\<lambda>i. mk_Range (of_nat i * (base + 1)) ((of_nat i + 1) * (base + 1))) [0..<unat remain]
         @ map (\<lambda>i. mk_Range (e + of_nat i * base) (e + (of_nat i + 1) * base))
             [0..<unat (num_servers - remain - 1)]
         @ [mk_Range (e + (num_servers - remain - 1) * base) chunk_num])"

text \<open>The loop ``go from the last one'': \<open>clip_from (Suc i)\<close> treats index \<open>i\<close> and goes down until it breaks.\<close>

fun clip_from :: "nat \<Rightarrow> Range list \<Rightarrow> Range list" where
  "clip_from 0 rs = rs"
| "clip_from (Suc i) rs =
     (let this_one = rs ! i; next_one = rs ! (i + 1) in
      if range_end this_one > range_begin next_one then
        let this_one = mk_Range (range_begin this_one) (range_begin next_one);
            this_one = (if range_begin this_one > range_end this_one
                        then mk_Range (range_end this_one) (range_end this_one) else this_one)
        in clip_from i (rs[i := this_one])
      else rs)"

definition assign_keys :: "u64 \<Rightarrow> u64 \<Rightarrow> Range list \<Rightarrow> Range list" where
  "assign_keys max_key chunk_size chunks =
     (let rs = map (\<lambda>r. mk_Range (range_begin r * chunk_size) (range_end r * chunk_size)) chunks;
          last_one = mk_Range (range_begin (last rs)) max_key;
          last_one = (if range_begin last_one > range_end last_one
                      then mk_Range max_key max_key else last_one);
          rs = rs[length rs - 1 := last_one]
      in clip_from (length rs - 1) rs)"

definition SetMaxKeyAndChunkSize ::
    "nat \<Rightarrow> u64 \<Rightarrow> int \<Rightarrow> RangeManager \<Rightarrow> error + RangeManager" where
  "SetMaxKeyAndChunkSize kv_id max_key chunk_size rm =
     bindE (assertE (rm_num_servers rm > 0)) (\<lambda>_.
       if word_of_int chunk_size = (0 :: u64) then Inl DivideByZero else
       let rm = ensure_slot kv_id rm;
           chunk_num = (max_key - 1) div word_of_int chunk_size + 1;
           chunks = assign_chunks chunk_num (word_of_int (rm_num_servers rm));
           keys = assign_keys max_key (word_of_int chunk_size) chunks
       in Inr (rm\<lparr>rm_max_keys := (rm_max_keys rm)[kv_id := max_key],
                  rm_chunk_sizes := (rm_chunk_sizes rm)[kv_id := word_of_int chunk_size],
                  rm_chunk_nums := (rm_chunk_nums rm)[kv_id := chunk_num],
                  rm_chunk_ranges := (rm_chunk_ranges rm)[kv_id := chunks],
                  rm_key_ranges := (rm_key_ranges rm)[kv_id := keys]\<rparr>))"

definition CustomizeRanges ::
    "nat \<Rightarrow> u64 \<Rightarrow> int \<Rightarrow> int \<Rightarrow> Range list \<Rightarrow> Range list \<Rightarrow> RangeManager \<Rightarrow> error + RangeManager" where
  "CustomizeRanges kv_id max_key chunk_size chunk_num key_ranges chunk_ranges rm =
     bindE (assertE (rm_num_servers rm > 0)) (\<lambda>_.
     bindE (assertE (int (length key_ranges) = rm_num_servers rm)) (\<lambda>_.
     bindE (assertE (int (length chunk_ranges) = rm_num_servers rm)) (\<lambda>_.
       let rm = ensure_slot kv_id rm
       in Inr (rm\<lparr>rm_key_ranges := (rm_key_ranges rm)[kv_id := key_ranges],
                  rm_chunk_ranges := (rm_chunk_ranges rm)[kv_id := chunk_ranges],
                  rm_chunk_sizes := (rm_chunk_sizes rm)[kv_id := word_of_int chunk_size],
                  rm_chunk_nums := (rm_chunk_nums rm)[kv_id := word_of_int chunk_num],
                  rm_max_keys := (rm_max_keys rm)[kv_id := max_key]\<rparr>))))"

definition GetServerKeyRanges :: "nat \<Rightarrow> RangeManager \<Rightarrow> error + Range list" where
  "GetServerKeyRanges kv_id rm =
     bindE (assertE (kv_id < length (rm_key_ranges rm)))
       (\<lambda>_. vec_get (rm_key_ranges rm) kv_id)"

definition GetServerChunkRanges :: "nat \<Rightarrow> RangeManager \<Rightarrow> error + Range list" where
  "GetServerChunkRanges kv_id rm =
     bindE (assertE (kv_id < length (rm_chunk_ranges rm)))
       (\<lambda>_. vec_get (rm_chunk_ranges rm) kv_id)"

definition GetChunkSize :: "nat \<Rightarrow> RangeManager \<Rightarrow> error + u64" where
  "GetChunkSize kv_id rm = vec_get (rm_chunk_sizes rm) kv_id"

definition GetChunkNum :: "nat \<Rightarrow> RangeManager \<Rightarrow> error + u64" where
  "GetChunkNum kv_id rm = vec_get (rm_chunk_nums rm) kv_id"

definition GetMaxKey :: "nat \<Rightarrow> RangeManager \<Rightarrow> error + u64" where
  "GetMaxKey kv_id rm = vec_get (rm_max_keys rm) kv_id"

definition GetNumRanges :: "RangeManager \<Rightarrow> nat" where
  "GetNumRanges rm = length (rm_key_ranges rm)"

definition GetNumServers :: "RangeManager \<Rightarrow> int" where
  "GetNumServers rm = rm_num_servers rm"

text \<open>The loop of \<^verbatim>\<open>GetServerFromKey\<close>, returning the final value of \<open>i\<close>.\<close>

function server_scan :: "u64 \<Rightarrow> Range list \<Rightarrow> int \<Rightarrow> nat \<Rightarrow> error + nat" where
  "server_scan key rs n i =
     (if i < length rs then
        (if key \<ge> range_begin (rs ! i)
         then (if int (i + 1) = n then Inr (i + 1) else server_scan key rs n (i + 1))
         else Inr i)
      else Inl OutOfRange)"
  by pat_completeness auto
termination
  by (relation "measure (\<lambda>(key, rs, n, i). length rs - i)") auto

declare server_scan.simps [simp del]

definition GetServerFromKey :: "nat \<Rightarrow> u64 \<Rightarrow> RangeManager \<Rightarrow> error + int" where
  "GetServerFromKey kv_id key rm =
     bindE (vec_get (rm_key_ranges rm) kv_id) (\<lambda>rs.
     bindE (server_scan key rs (rm_num_servers rm) 0) (\<lambda>i. Inr (int i - 1)))"

definition GetServerFromChunk :: "nat \<Rightarrow> u64 \<Rightarrow> RangeManager \<Rightarrow> error + int" where
  "GetServerFromChunk kv_id chunk_id rm =
     bindE (GetChunkSize kv_id rm) (\<lambda>cs. GetServerFromKey kv_id (chunk_id * cs) rm)"

text \<open>The result type of \<^verbatim>\<open>GetServerInterval\<close> is \<^verbatim>\<open>int\<close>: the 64-bit begin is narrowed to 32 bits.\<close>

definition GetServerInterval :: "nat \<Rightarrow> nat \<Rightarrow> RangeManager \<Rightarrow> error + int" where
  "GetServerInterval kv_id server_id rm =
     bindE (assertE (kv_id < length (rm_key_ranges rm))) (\<lambda>_.
     bindE (vec_get (rm_key_ranges rm) kv_id) (\<lambda>rs.
     bindE (vec_get rs server_id) (\<lambda>r. Inr (sint (ucast (range_begin r) :: u32)))))"

definition GetServerSize :: "nat \<Rightarrow> nat \<Rightarrow> RangeManager \<Rightarrow> error + u64" where
  "GetServerSize kv_id server_id rm =
     bindE (assertE (kv_id < length (rm_key_ranges rm))) (\<lambda>_.
     bindE (vec_get (rm_key_ranges rm) kv_id) (\<lambda>rs.
     bindE (vec_get rs server_id) (\<lambda>r. Inr (range_size r))))"

definition GetLastChunkSize :: "nat \<Rightarrow> RangeManager \<Rightarrow> error + u64" where
  "GetLastChunkSize kv_id rm =
     bindE (GetMaxKey kv_id rm) (\<lambda>mk. bindE (GetChunkSize kv_id rm) (\<lambda>cs.
       if cs = 0 then Inl DivideByZero
       else if mk mod cs \<noteq> 0 then Inr (mk mod cs) else Inr cs))"

definition GetLocation :: "nat \<Rightarrow> u64 \<Rightarrow> RangeManager \<Rightarrow> error + (u64 \<times> u64)" where
  "GetLocation kv_id key rm =
     bindE (GetMaxKey kv_id rm) (\<lambda>mk.
     bindE (assertE (key < mk)) (\<lambda>_.
     bindE (GetChunkSize kv_id rm) (\<lambda>cs.
       if cs = 0 then Inl DivideByZero else Inr (key div cs, key mod cs))))"

section \<open>The partition in natural numbers\<close>

text \<open>
  \<open>chunk_bound K s i\<close> is the first chunk of server \<open>i\<close> when \<open>K\<close> chunks go to \<open>s\<close> servers, and
  \<open>key_bound\<close> the first key, clipped at the maximal key \<open>N\<close>.
\<close>

definition chunk_bound :: "nat \<Rightarrow> nat \<Rightarrow> nat \<Rightarrow> nat" where
  "chunk_bound K s i = i * (K div s) + min i (K mod s)"

definition num_chunks :: "nat \<Rightarrow> nat \<Rightarrow> nat" where
  "num_chunks N c = (N - 1) div c + 1"

definition key_bound :: "nat \<Rightarrow> nat \<Rightarrow> nat \<Rightarrow> nat \<Rightarrow> nat" where
  "key_bound N c s i = min (chunk_bound (num_chunks N c) s i * c) N"

lemma chunk_bound_0 [simp]: "chunk_bound K s 0 = 0"
  by (simp add: chunk_bound_def)

lemma chunk_bound_top [simp]: "0 < s \<Longrightarrow> chunk_bound K s s = K"
  by (simp add: chunk_bound_def min_absorb2 less_imp_le)

lemma chunk_bound_mono: "i \<le> j \<Longrightarrow> chunk_bound K s i \<le> chunk_bound K s j"
  by (auto simp: chunk_bound_def intro!: add_mono)

lemma chunk_bound_le: "0 < s \<Longrightarrow> i \<le> s \<Longrightarrow> chunk_bound K s i \<le> K"
  using chunk_bound_mono [of i s K s] by simp

lemma chunk_bound_less:
  assumes "0 < s" "i < s" "s \<le> K"
  shows "chunk_bound K s i < K"
proof -
  have "1 \<le> K div s" using assms by (simp add: div_greater_zero_iff Suc_le_eq)
  have "i * (K div s) + 1 \<le> Suc i * (K div s)" using \<open>1 \<le> K div s\<close> by simp
  also have "\<dots> \<le> s * (K div s)" using assms by (intro mult_le_mono1) simp
  finally have "i * (K div s) + min i (K mod s) < s * (K div s) + K mod s"
    using min.cobounded2 [of i "K mod s"] by linarith
  then show ?thesis by (simp add: chunk_bound_def)
qed

lemma num_chunks_pos [simp]: "0 < num_chunks N c"
  by (simp add: num_chunks_def)

lemma num_chunks_cover: "0 < c \<Longrightarrow> N \<le> num_chunks N c * c"
proof -
  assume "0 < c"
  have "N - 1 < ((N - 1) div c + 1) * c"
    using \<open>0 < c\<close> dividend_less_div_times [of c "N - 1"] by (simp add: add.commute)
  then show ?thesis by (simp add: num_chunks_def)
qed

lemma num_chunks_minus: "0 < N \<Longrightarrow> (num_chunks N c - 1) * c < N"
  by (simp add: num_chunks_def) (metis Suc_pred div_times_less_eq_dividend le_imp_less_Suc mult.commute)

lemma key_bound_0 [simp]: "key_bound N c s 0 = 0"
  by (simp add: key_bound_def)

lemma key_bound_top [simp]: "0 < s \<Longrightarrow> 0 < c \<Longrightarrow> key_bound N c s s = N"
  using num_chunks_cover [of c N] by (simp add: key_bound_def)

lemma key_bound_mono: "i \<le> j \<Longrightarrow> key_bound N c s i \<le> key_bound N c s j"
  using chunk_bound_mono [of i j "num_chunks N c" s] by (auto simp: key_bound_def min_le_iff_disj)

lemma key_bound_le [simp]: "key_bound N c s i \<le> N"
  by (simp add: key_bound_def)

section \<open>The code computes the partition\<close>

lemma u64_of_nat_div: "a < 2 ^ 64 \<Longrightarrow> b < 2 ^ 64 \<Longrightarrow> (of_nat a :: u64) div of_nat b = of_nat (a div b)"
  by (simp add: word_arith_nat_div unat_of_nat_u64)

lemma u64_of_nat_mod: "a < 2 ^ 64 \<Longrightarrow> b < 2 ^ 64 \<Longrightarrow> (of_nat a :: u64) mod of_nat b = of_nat (a mod b)"
  by (simp add: word_arith_nat_mod unat_of_nat_u64)

lemma upt_split3: "[0..<r + t + 1] = [0..<r] @ map (\<lambda>i. r + i) [0..<t] @ [r + t]"
proof -
  have "[0..<r + t + 1] = [0..<r] @ [r..<r + t] @ [r + t]"
    using upt_add_eq_append [of 0 r t] by simp
  moreover have "[r..<r + t] = map (\<lambda>i. r + i) [0..<t]"
    by (rule nth_equalityI) auto
  ultimately show ?thesis by simp
qed

lemma assign_chunks_closed:
  assumes "0 < s" "s < 2 ^ 64" "K < 2 ^ 64"
  shows "assign_chunks (of_nat K) (of_nat s) =
    map (\<lambda>i. mk_Range (of_nat (chunk_bound K s i)) (of_nat (chunk_bound K s (Suc i)))) [0..<s]"
proof -
  define b r t where "b = K div s" and "r = K mod s" and "t = s - r - 1"
  have "r < s" using assms by (simp add: r_def)
  then have s: "s = r + t + 1" by (simp add: t_def)
  have base: "(of_nat K :: u64) div of_nat s = of_nat b" "(of_nat K :: u64) mod of_nat s = of_nat r"
    using assms by (simp_all add: b_def r_def u64_of_nat_div u64_of_nat_mod)
  have rest: "(of_nat s :: u64) - of_nat r - 1 = of_nat t"
    by (simp add: s)
  have unats: "unat (of_nat r :: u64) = r" "unat (of_nat t :: u64) = t"
    using assms s by (simp_all add: unat_of_nat_u64)
  have top: "chunk_bound K s s = K" using assms by simp
  have B: "chunk_bound K s i = i * b + min i r" for i
    by (simp add: chunk_bound_def b_def r_def)
  have idx: "[0..<s] = [0..<r] @ map (\<lambda>i. r + i) [0..<t] @ [r + t]"
    using upt_split3 [of r t] s by simp
  have "assign_chunks (of_nat K) (of_nat s) =
    map (\<lambda>i. mk_Range (of_nat i * (of_nat b + 1)) ((of_nat i + 1) * (of_nat b + 1))) [0..<r]
    @ map (\<lambda>i. mk_Range (of_nat r * (of_nat b + 1) + of_nat i * of_nat b)
                     (of_nat r * (of_nat b + 1) + (of_nat i + 1) * of_nat b)) [0..<t]
    @ [mk_Range (of_nat r * (of_nat b + 1) + of_nat t * of_nat b) (of_nat K)]"
    by (simp only: assign_chunks_def Let_def base rest unats)
  also have "\<dots> = map (\<lambda>i. mk_Range (of_nat (chunk_bound K s i)) (of_nat (chunk_bound K s (Suc i)))) [0..<s]"
    unfolding idx B using s top B [of s] by (auto simp: algebra_simps)
  finally show ?thesis .
qed

text \<open>The raw ranges before clipping and the clipped ones, as lists over the server index.\<close>

definition raw_range :: "nat \<Rightarrow> nat \<Rightarrow> nat \<Rightarrow> nat \<Rightarrow> Range" where
  "raw_range N c s i = mk_Range (of_nat (chunk_bound (num_chunks N c) s i * c))
     (of_nat (chunk_bound (num_chunks N c) s (Suc i) * c))"

definition key_range :: "nat \<Rightarrow> nat \<Rightarrow> nat \<Rightarrow> nat \<Rightarrow> Range" where
  "key_range N c s i = mk_Range (of_nat (key_bound N c s i)) (of_nat (key_bound N c s (Suc i)))"

text \<open>No begin of a range overflows, for any 64-bit maximal key.\<close>

lemma chunk_bound_no_overflow:
  assumes "0 < N" "N < 2 ^ 64" "0 < c" "c < 2 ^ 31" "0 < s" "s < 2 ^ 31" "i < s"
  shows "chunk_bound (num_chunks N c) s i * c < 2 ^ 64"
proof (cases "s \<le> num_chunks N c")
  case True
  then have "chunk_bound (num_chunks N c) s i \<le> num_chunks N c - 1"
    using chunk_bound_less [of s i "num_chunks N c"] assms by simp
  then have "chunk_bound (num_chunks N c) s i * c \<le> (num_chunks N c - 1) * c" by simp
  also have "\<dots> < N" using assms by (intro num_chunks_minus) simp
  finally show ?thesis using assms by simp
next
  case False
  then have "chunk_bound (num_chunks N c) s i \<le> 2 ^ 31"
    using chunk_bound_le [of s i "num_chunks N c"] assms by simp
  then have "chunk_bound (num_chunks N c) s i * c \<le> 2 ^ 31 * 2 ^ 31"
    using assms by (intro mult_le_mono) auto
  then show ?thesis by simp
qed

lemma mk_Range_simps [simp]:
  "range_begin (mk_Range b e) = b" "range_end (mk_Range b e) = e"
  by (simp_all add: mk_Range_def)

lemma mk_Range_eq [simp]: "mk_Range b e = mk_Range b' e' \<longleftrightarrow> b = b' \<and> e = e'"
  by (simp add: mk_Range_def)

lemma u64_of_nat_less: "a < 2 ^ 64 \<Longrightarrow> b < 2 ^ 64 \<Longrightarrow> (of_nat a :: u64) < of_nat b \<longleftrightarrow> a < b"
  by (simp add: u64_less_iff unat_of_nat_u64)

lemma clip_from_closed:
  assumes "\<And>i. i < s \<Longrightarrow> B i < 2 ^ 64" "N < 2 ^ 64" "mono B" "n < s"
  shows "clip_from n (map (\<lambda>i. mk_Range (of_nat (B i)) (of_nat (B (Suc i)))) [0..<n]
             @ map (\<lambda>i. mk_Range (of_nat (min (B i) N)) (E i)) [n..<s])
    = map (\<lambda>i. mk_Range (of_nat (min (B i) N)) (if i < n then of_nat (min (B (Suc i)) N) else E i)) [0..<s]"
    (is "clip_from n (?raw n @ ?fin n E) = ?res n E")
  using \<open>n < s\<close>
proof (induction n arbitrary: E)
  case 0
  then show ?case by simp
next
  case (Suc n)
  have bnd: "B n < 2 ^ 64" "B (Suc n) < 2 ^ 64" using assms(1) Suc.prems by auto
  have nth_n: "(?raw (Suc n) @ ?fin (Suc n) E) ! n = mk_Range (of_nat (B n)) (of_nat (B (Suc n)))"
    by (simp add: nth_append)
  have nth_Sn: "range_begin ((?raw (Suc n) @ ?fin (Suc n) E) ! (n + 1)) = of_nat (min (B (Suc n)) N)"
    using Suc.prems by (simp add: nth_append)
  show ?case
  proof (cases "B (Suc n) > N")
    case True
    have upd: "(?raw (Suc n) @ ?fin (Suc n) E)[n := mk_Range (of_nat (min (B n) N)) (of_nat N)]
        = ?raw n @ ?fin n (E(n := of_nat N))"
      using Suc.prems by (simp add: upt_conv_Cons [of n s] list_update_append)
    have this_one: "(if of_nat N < (of_nat (B n) :: u64) then mk_Range (of_nat N) (of_nat N)
         else mk_Range (of_nat (B n)) (of_nat N)) = mk_Range (of_nat (min (B n) N)) (of_nat N)"
      using bnd assms(2) by (simp add: u64_of_nat_less)
    have minN: "min (B (Suc n)) N = N" using True by simp
    have cond: "((of_nat N :: u64) < of_nat (B (Suc n))) = True"
      using True bnd assms(2) by (simp add: u64_of_nat_less)
    have "clip_from (Suc n) (?raw (Suc n) @ ?fin (Suc n) E) = clip_from n (?raw n @ ?fin n (E(n := of_nat N)))"
      unfolding clip_from.simps Let_def nth_n nth_Sn mk_Range_simps
      by (simp only: minN cond this_one upd if_True)
    also have "\<dots> = ?res n (E(n := of_nat N))" using Suc.prems by (intro Suc.IH) simp
    also have "\<dots> = ?res (Suc n) E" using True by (auto simp: less_Suc_eq)
    finally show ?thesis .
  next
    case False
    have "min (B i) N = B i" if "i \<le> Suc n" for i
      using monoD [OF assms(3) that] False by simp
    then have low: "?raw (Suc n) = map (\<lambda>i. mk_Range (of_nat (min (B i) N)) (of_nat (min (B (Suc i)) N))) [0..<Suc n]"
      by auto
    have split: "[0..<s] = [0..<Suc n] @ [Suc n..<s]"
      using Suc.prems upt_add_eq_append [of 0 "Suc n" "s - Suc n"] by simp
    have "clip_from (Suc n) (?raw (Suc n) @ ?fin (Suc n) E) = ?raw (Suc n) @ ?fin (Suc n) E"
      unfolding clip_from.simps Let_def nth_n nth_Sn mk_Range_simps
      using False by (simp only: min_absorb1 not_less) simp
    also have "\<dots> = ?res (Suc n) E" unfolding low split by simp
    finally show ?thesis .
  qed
qed

lemma mono_chunk_bound_times: "mono (\<lambda>i. chunk_bound K s i * c)"
  by (intro monoI mult_le_mono1 chunk_bound_mono)

lemma assign_keys_closed:
  assumes "0 < N" "N < 2 ^ 64" "0 < c" "c < 2 ^ 31" "0 < s" "s < 2 ^ 31"
  shows "assign_keys (of_nat N) (of_nat c)
      (map (\<lambda>i. mk_Range (of_nat (chunk_bound (num_chunks N c) s i))
                      (of_nat (chunk_bound (num_chunks N c) s (Suc i)))) [0..<s])
    = map (key_range N c s) [0..<s]"
proof -
  define B where "B i = chunk_bound (num_chunks N c) s i * c" for i
  define n where "n = s - 1"
  have s: "s = Suc n" using assms by (simp add: n_def)
  have B_less: "i < s \<Longrightarrow> B i < 2 ^ 64" for i
    unfolding B_def using chunk_bound_no_overflow assms by simp
  have raw: "map (\<lambda>r. mk_Range (range_begin r * of_nat c) (range_end r * of_nat c))
      (map (\<lambda>i. mk_Range (of_nat (chunk_bound (num_chunks N c) s i))
                      (of_nat (chunk_bound (num_chunks N c) s (Suc i)))) [0..<s])
    = map (\<lambda>i. mk_Range (of_nat (B i)) (of_nat (B (Suc i)))) [0..<n]
      @ [mk_Range (of_nat (B n)) (of_nat (B (Suc n)))]"
    by (simp add: B_def s)
  have last_one: "(if of_nat N < (of_nat (B n) :: u64) then mk_Range (of_nat N) (of_nat N)
       else mk_Range (of_nat (B n)) (of_nat N)) = mk_Range (of_nat (min (B n) N)) (of_nat N)"
    using B_less [of n] s assms by (simp add: u64_of_nat_less)
  have "assign_keys (of_nat N) (of_nat c)
      (map (\<lambda>i. mk_Range (of_nat (chunk_bound (num_chunks N c) s i))
                      (of_nat (chunk_bound (num_chunks N c) s (Suc i)))) [0..<s])
    = clip_from n (map (\<lambda>i. mk_Range (of_nat (B i)) (of_nat (B (Suc i)))) [0..<n]
        @ map (\<lambda>i. mk_Range (of_nat (min (B i) N)) (of_nat N)) [n..<s])"
    unfolding assign_keys_def raw Let_def using last_one by (auto simp: s list_update_append split: if_splits)
  also have "\<dots> = map (\<lambda>i. mk_Range (of_nat (min (B i) N))
      (if i < n then of_nat (min (B (Suc i)) N) else of_nat N)) [0..<s]"
    using B_less assms s mono_chunk_bound_times
    by (intro clip_from_closed) (auto simp: B_def [abs_def])
  also have "\<dots> = map (key_range N c s) [0..<s]"
    using key_bound_top [of s c N] assms
    by (auto simp: key_range_def key_bound_def B_def s less_Suc_eq)
  finally show ?thesis .
qed

section \<open>The table of one store\<close>

text \<open>The vectors of the manager grow together.\<close>

definition rm_wf :: "RangeManager \<Rightarrow> bool" where
  "rm_wf rm \<longleftrightarrow> length (rm_chunk_ranges rm) = length (rm_key_ranges rm)
     \<and> length (rm_max_keys rm) = length (rm_key_ranges rm)
     \<and> length (rm_chunk_sizes rm) = length (rm_key_ranges rm)
     \<and> length (rm_chunk_nums rm) = length (rm_key_ranges rm)"

definition chunk_range :: "nat \<Rightarrow> nat \<Rightarrow> nat \<Rightarrow> nat \<Rightarrow> Range" where
  "chunk_range N c s i = mk_Range (of_nat (chunk_bound (num_chunks N c) s i))
     (of_nat (chunk_bound (num_chunks N c) s (Suc i)))"

text \<open>\<open>table_for rm kv_id N c s\<close>: store \<open>kv_id\<close> has the partition of \<open>N\<close> keys into chunks of \<open>c\<close> over \<open>s\<close> servers.\<close>

definition table_for :: "RangeManager \<Rightarrow> nat \<Rightarrow> nat \<Rightarrow> nat \<Rightarrow> nat \<Rightarrow> bool" where
  "table_for rm kv_id N c s \<longleftrightarrow> rm_wf rm \<and> kv_id < length (rm_key_ranges rm)
     \<and> rm_num_servers rm = int s
     \<and> rm_key_ranges rm ! kv_id = map (key_range N c s) [0..<s]
     \<and> rm_chunk_ranges rm ! kv_id = map (chunk_range N c s) [0..<s]
     \<and> rm_max_keys rm ! kv_id = of_nat N \<and> rm_chunk_sizes rm ! kv_id = of_nat c
     \<and> rm_chunk_nums rm ! kv_id = of_nat (num_chunks N c)"

definition params_ok :: "nat \<Rightarrow> nat \<Rightarrow> nat \<Rightarrow> bool" where
  "params_ok N c s \<longleftrightarrow> 0 < N \<and> N < 2 ^ 64 \<and> 0 < c \<and> c < 2 ^ 31 \<and> 0 < s \<and> s < 2 ^ 31"

lemma rm_wf_init: "rm_wf init_RangeManager"
  by (simp add: rm_wf_def init_RangeManager_def)

lemma rm_wf_SetNumServers: "rm_wf (SetNumServers n rm) \<longleftrightarrow> rm_wf rm"
  by (simp add: rm_wf_def SetNumServers_def)

lemma rm_wf_Clear: "rm_wf (Clear rm)"
  by (simp add: rm_wf_def Clear_def)

lemma rm_wf_ensure_slot: "rm_wf rm \<Longrightarrow> rm_wf (ensure_slot kv_id rm)"
  by (simp add: rm_wf_def ensure_slot_def)

lemma ensure_slot_length [simp]: "kv_id < length (rm_key_ranges (ensure_slot kv_id rm))"
  by (simp add: ensure_slot_def)

lemma ensure_slot_num_servers [simp]: "rm_num_servers (ensure_slot kv_id rm) = rm_num_servers rm"
  by (simp add: ensure_slot_def)

lemma rm_wf_SetMaxKeyAndChunkSize:
  "rm_wf rm \<Longrightarrow> SetMaxKeyAndChunkSize kv_id N c rm = Inr rm' \<Longrightarrow> rm_wf rm'"
  using rm_wf_ensure_slot [of rm kv_id]
  by (auto simp: SetMaxKeyAndChunkSize_def res_simps Let_def rm_wf_def split: if_splits)

lemma rm_wf_CustomizeRanges:
  "rm_wf rm \<Longrightarrow> CustomizeRanges kv_id N c k krs crs rm = Inr rm' \<Longrightarrow> rm_wf rm'"
  using rm_wf_ensure_slot [of rm kv_id]
  by (auto simp: CustomizeRanges_def res_simps Let_def rm_wf_def)

lemma num_chunks_le: "0 < N \<Longrightarrow> num_chunks N c \<le> N"
  by (simp add: num_chunks_def) (metis Suc_pred div_le_dividend Suc_le_mono)

lemma num_chunks_u64:
  assumes "params_ok N c s"
  shows "((of_nat N :: u64) - 1) div of_nat c + 1 = of_nat (num_chunks N c)"
proof -
  have "(of_nat N :: u64) - 1 = of_nat (N - 1)" using assms by (simp add: params_ok_def of_nat_diff)
  moreover have "(of_nat (N - 1) :: u64) div of_nat c = of_nat ((N - 1) div c)"
    using assms by (intro u64_of_nat_div) (auto simp: params_ok_def)
  ultimately show ?thesis by (simp add: num_chunks_def)
qed

lemma SetMaxKeyAndChunkSize_closed:
  assumes "rm_wf rm" "rm_num_servers rm = int s" "params_ok N c s"
  shows "\<exists>rm'. SetMaxKeyAndChunkSize kv_id (of_nat N) (int c) rm = Inr rm' \<and> table_for rm' kv_id N c s"
proof -
  have c: "(of_nat c :: u64) \<noteq> 0"
    using assms unat_of_nat_u64 [of c] by (auto simp: params_ok_def)
  have K: "num_chunks N c < 2 ^ 64"
    using num_chunks_le [of N c] assms by (simp add: params_ok_def)
  have chunks: "assign_chunks (of_nat (num_chunks N c)) (of_nat s) = map (chunk_range N c s) [0..<s]"
    using assign_chunks_closed [of s "num_chunks N c"] K assms
    by (simp add: chunk_range_def [abs_def] params_ok_def)
  have keys: "assign_keys (of_nat N) (of_nat c) (map (chunk_range N c s) [0..<s]) = map (key_range N c s) [0..<s]"
    using assign_keys_closed [of N c s] assms by (simp add: chunk_range_def [abs_def] params_ok_def)
  show ?thesis
    using c assms rm_wf_ensure_slot [OF assms(1), of kv_id] ensure_slot_length [of kv_id rm]
    by (simp add: SetMaxKeyAndChunkSize_def Let_def num_chunks_u64 [OF assms(3)] chunks keys table_for_def rm_wf_def
             params_ok_def)
qed

section \<open>Lookups in the table\<close>

lemma table_for_nth:
  assumes "table_for rm kv_id N c s" "i < s"
  shows "rm_key_ranges rm ! kv_id ! i = key_range N c s i"
    and "rm_chunk_ranges rm ! kv_id ! i = chunk_range N c s i"
  using assms by (simp_all add: table_for_def)

lemma unat_key_bound: "N < 2 ^ 64 \<Longrightarrow> unat (of_nat (key_bound N c s i) :: u64) = key_bound N c s i"
  using key_bound_le [of N c s i] by (intro unat_of_nat_u64) (rule le_less_trans)

lemma unat_key_range:
  assumes "N < 2 ^ 64"
  shows "unat (range_begin (key_range N c s i)) = key_bound N c s i"
    and "unat (range_end (key_range N c s i)) = key_bound N c s (Suc i)"
  using unat_key_bound [OF assms] by (simp_all add: key_range_def)

lemma unat_chunk_range:
  assumes "params_ok N c s" "i < s"
  shows "unat (range_begin (chunk_range N c s i)) = chunk_bound (num_chunks N c) s i"
    and "unat (range_end (chunk_range N c s i)) = chunk_bound (num_chunks N c) s (Suc i)"
proof -
  have "chunk_bound (num_chunks N c) s j < 2 ^ 64" if "j \<le> s" for j
    using chunk_bound_le [of s j "num_chunks N c"] num_chunks_le [of N c] that assms(1)
    by (simp add: params_ok_def)
  then show "unat (range_begin (chunk_range N c s i)) = chunk_bound (num_chunks N c) s i"
    and "unat (range_end (chunk_range N c s i)) = chunk_bound (num_chunks N c) s (Suc i)"
    using assms(2) by (simp_all add: chunk_range_def unat_of_nat_u64)
qed

text \<open>The intervals between the values of a bound function tile \<open>[0, f s)\<close>.\<close>

lemma tile_unique:
  fixes f :: "nat \<Rightarrow> nat"
  assumes "\<And>i j. i \<le> j \<Longrightarrow> f i \<le> f j" "f i \<le> k" "k < f (Suc i)" "f j \<le> k" "k < f (Suc j)"
  shows "i = j"
  using assms by (metis Suc_leI leD le_less_trans linorder_neqE_nat)

lemma server_scan_takeWhile:
  "i < length rs \<Longrightarrow> server_scan key rs (int (length rs)) i
     = Inr (i + length (takeWhile (\<lambda>r. range_begin r \<le> key) (drop i rs)))"
proof (induction "length rs - i" arbitrary: i rule: less_induct)
  case less
  have d: "drop i rs = rs ! i # drop (Suc i) rs" using less.prems by (simp add: Cons_nth_drop_Suc)
  show ?case
  proof (cases "Suc i < length rs")
    case True
    then show ?thesis
      using less.hyps [of "Suc i"] less.prems by (subst server_scan.simps) (simp add: d)
  next
    case False
    then have "Suc i = length rs" using less.prems by simp
    then show ?thesis using less.prems by (subst server_scan.simps) (simp add: d)
  qed
qed

lemma GetServerFromKey_bounds:
  assumes t: "table_for rm kv_id N c s" and p: "params_ok N c s" and key: "unat key < N"
  shows "\<exists>j < s. GetServerFromKey kv_id key rm = Inr (int j)
           \<and> key_bound N c s j \<le> unat key \<and> unat key < key_bound N c s (Suc j)"
proof -
  let ?rs = "map (key_range N c s) [0..<s]"
  let ?P = "\<lambda>r. range_begin r \<le> key"
  define m where "m = length (takeWhile ?P ?rs)"
  have P: "?P (key_range N c s i) \<longleftrightarrow> key_bound N c s i \<le> unat key" for i
    using p by (simp add: u64_le_iff unat_key_range params_ok_def)
  have s: "0 < s" "0 < c" "N < 2 ^ 64" using p by (simp_all add: params_ok_def)
  have "m \<le> s" unfolding m_def using length_takeWhile_le [of ?P ?rs] by simp
  have "m \<noteq> 0"
    using s P [of 0] by (auto simp: m_def takeWhile_eq_Nil_iff upt_conv_Cons)
  then obtain j where j: "m = Suc j" by (cases m) auto
  have low: "key_bound N c s j \<le> unat key"
    using nth_mem [of j "takeWhile ?P ?rs"] takeWhile_nth [of j ?P ?rs] j \<open>m \<le> s\<close> P [of j]
    by (auto simp: m_def dest: set_takeWhileD)
  have high: "unat key < key_bound N c s (Suc j)"
  proof (cases "Suc j < s")
    case True
    then have "\<not> ?P (key_range N c s (Suc j))"
      using nth_length_takeWhile [of ?P ?rs] j by (simp add: m_def)
    then show ?thesis unfolding P by simp
  next
    case False
    then have "Suc j = s" using \<open>m \<le> s\<close> j by simp
    then show ?thesis using key s by simp
  qed
  have "GetServerFromKey kv_id key rm = Inr (int m - 1)"
    using t s server_scan_takeWhile [of 0 ?rs key] by (simp add: GetServerFromKey_def vec_get_def table_for_def m_def)
  then show ?thesis using j \<open>m \<le> s\<close> low high by (intro exI [of _ j]) auto
qed

lemma SetMaxKeyAndChunkSize_table:
  assumes "rm_wf rm" "rm_num_servers rm = int s" "params_ok (unat max_key) c s"
    and "SetMaxKeyAndChunkSize kv_id max_key (int c) rm = Inr rm'"
  shows "table_for rm' kv_id (unat max_key) c s"
  using SetMaxKeyAndChunkSize_closed [OF assms(1-3), of kv_id] assms(4) by simp

lemma key_bound_Suc_less_iff:
  assumes "k < N"
  shows "k < key_bound N c s i \<longleftrightarrow> k < chunk_bound (num_chunks N c) s i * c"
    and "key_bound N c s i \<le> k \<longleftrightarrow> chunk_bound (num_chunks N c) s i * c \<le> k"
  using assms by (auto simp: key_bound_def)

lemma key_bound_chunk:
  assumes "0 < c" "k < N"
  shows "key_bound N c s i \<le> k \<longleftrightarrow> chunk_bound (num_chunks N c) s i \<le> k div c"
    and "k < key_bound N c s i \<longleftrightarrow> k div c < chunk_bound (num_chunks N c) s i"
  using key_bound_Suc_less_iff [OF assms(2), of c s i] assms(1)
  by (simp_all add: less_eq_div_iff_mult_less_eq div_less_iff_less_mult)

lemma last_chunk_offset:
  assumes "0 < c" "k < N" "k div c = num_chunks N c - 1"
  shows "k mod c < (if N mod c \<noteq> 0 then N mod c else c)"
proof (cases "N mod c = 0")
  case False
  have "(N - 1) div c = (N div c * c + (N mod c - 1)) div c"
    using False div_mult_mod_eq [of N c] by simp
  also have "\<dots> = N div c"
    using assms(1) mod_less_divisor [of c N] by (simp del: mod_less_divisor add: div_less)
  finally have "k div c = N div c" using assms(3) by (simp add: num_chunks_def)
  then have "N div c * c + k mod c = k" using div_mult_mod_eq [of k c] by simp
  then have "k mod c < N mod c" using assms(2) div_mult_mod_eq [of N c] by linarith
  then show ?thesis using False by simp
qed (use assms in simp)

lemma sint_ucast_u32: "sint (ucast (x :: u64) :: u32) = uint x \<longleftrightarrow> uint x < 2 ^ 31"
proof
  assume "sint (ucast x :: u32) = uint x"
  then show "uint x < 2 ^ 31" using sint_lt [of "ucast x :: u32"] by simp
next
  assume x: "uint x < 2 ^ 31"
  have "uint (ucast x :: u32) = uint x"
    using x by (simp add: unsigned_ucast_eq take_bit_int_eq_self)
  then show "sint (ucast x :: u32) = uint x"
    using x order_trans [OF _ uint_ge_0 [of x], of "- (2 ^ 31)"]
    by (simp add: sint_uint signed_take_bit_int_eq_self_iff)
qed

lemma u64_chunk_offset:
  assumes "unat (ch :: u64) * c + unat off < 2 ^ 64" "0 < c" "c < 2 ^ 64" "unat off < c"
  shows "unat (ch * of_nat c + off) = unat ch * c + unat off" "(ch * of_nat c + off) div of_nat c = ch" "(ch * of_nat c + off) mod of_nat c = off"
proof -
  have c: "unat (of_nat c :: u64) = c" using assms(3) by (intro unat_of_nat_u64) simp
  have "unat (ch * of_nat c + off) = (unat ch * c + unat off) mod 2 ^ 64" by (simp add: unat_word_ariths c mod_simps)
  then show key: "unat (ch * of_nat c + off) = unat ch * c + unat off" using assms(1) by simp
  have "unat ((ch * of_nat c + off) div of_nat c) = unat ch" "unat ((ch * of_nat c + off) mod of_nat c) = unat off"
    using assms(2,4) by (simp_all add: unat_div_distrib unat_mod_distrib key c)
  then show "(ch * of_nat c + off) div of_nat c = ch" "(ch * of_nat c + off) mod of_nat c = off" by (simp_all add: word_unat_eq_iff)
qed

lemma last_chunk_end:
  assumes "0 < c" "0 < N"
  shows "(num_chunks N c - 1) * c + (if N mod c \<noteq> 0 then N mod c else c) = N"
proof (cases "N mod c = 0")
  case True
  then obtain d where "N = c * d" by (auto simp: mod_eq_0_iff_dvd)
  moreover have "0 < d" using assms(2) calculation by (cases d) auto
  ultimately have "(N - 1) div c = d - 1" using assms(1) by (cases d) (simp_all add: div_nat_eqI algebra_simps)
  then show ?thesis using \<open>N = c * d\<close> \<open>0 < d\<close> by (cases d) (simp_all add: num_chunks_def)
next
  case False
  have split: "N = c * (N div c) + N mod c" and rest: "N mod c < c" using assms(1) by simp_all
  have "(N - 1) div c = N div c"
  proof (rule div_nat_eqI)
    show "c * (N div c) \<le> N - 1" using split False by linarith
    show "N - 1 < c * Suc (N div c)" using split rest assms(2) by (simp only: mult_Suc_right)
  qed
  then show ?thesis using False by (simp add: num_chunks_def)
qed

lemma chunk_offset_below:
  assumes "0 < c" "0 < N" "ch < num_chunks N c" "off < (if ch = num_chunks N c - 1 then if N mod c \<noteq> 0 then N mod c else c else c)"
  shows "ch * c + off < N"
proof (cases "ch = num_chunks N c - 1")
  case True
  then show ?thesis using assms(4) last_chunk_end [OF assms(1,2)] True by simp
next
  case False
  then have "Suc ch \<le> num_chunks N c - 1" using assms(3) by simp
  then have "Suc ch * c \<le> (num_chunks N c - 1) * c" by (rule mult_le_mono1)
  then show ?thesis using num_chunks_minus [OF assms(2), of c] assms(4) False by (simp add: add.commute)
qed

section \<open>Properties\<close>

text \<open>The manager after \<^verbatim>\<open>SetNumServers(2)\<close>, and the example of the header: 13 keys in chunks of 5.\<close>

definition two_servers :: RangeManager where
  "two_servers = SetNumServers 2 init_RangeManager"

lemma two_servers_ok: "rm_wf two_servers" "rm_num_servers two_servers = int 2" "params_ok (unat (13 :: u64)) 5 2"
  by (simp_all add: two_servers_def rm_wf_def init_RangeManager_def SetNumServers_def params_ok_def)

lemma two_servers_set: "\<exists>rm'. SetMaxKeyAndChunkSize 0 13 (int 5) two_servers = Inr rm'"
  using SetMaxKeyAndChunkSize_closed [OF two_servers_ok, of 0] by auto

text \<open>
  C4. The key ranges computed by \<^verbatim>\<open>SetMaxKeyAndChunkSize\<close> tile the key space \<open>[0, max_key)\<close>, for every
  64-bit maximal key and every positive \<^verbatim>\<open>int\<close> chunk size and number of servers, in spite of the
  wrapping multiplications: one range per server, the first starts at 0, each starts where the previous
  one ends, none is inverted, and the last one ends at \<open>max_key\<close>. The call never fails.
\<close>

theorem key_ranges_tile:
  assumes "rm_wf rm" "rm_num_servers rm = int s" "params_ok (unat max_key) c s"
  shows "\<exists>rm' rs. SetMaxKeyAndChunkSize kv_id max_key (int c) rm = Inr rm'
           \<and> GetServerKeyRanges kv_id rm' = Inr rs \<and> length rs = s
           \<and> range_begin (rs ! 0) = 0 \<and> range_end (rs ! (s - 1)) = max_key
           \<and> (\<forall>i < s - 1. range_end (rs ! i) = range_begin (rs ! Suc i))
           \<and> (\<forall>i < s. range_begin (rs ! i) \<le> range_end (rs ! i))"
proof -
  obtain rm' where ok: "SetMaxKeyAndChunkSize kv_id max_key (int c) rm = Inr rm'"
    and t: "table_for rm' kv_id (unat max_key) c s"
    using SetMaxKeyAndChunkSize_closed [OF assms, of kv_id] by auto
  have p: "0 < s" "0 < c" using assms(3) by (simp_all add: params_ok_def)
  have ends: "range_begin (key_range (unat max_key) c s 0) = 0"
    "range_end (key_range (unat max_key) c s (s - 1)) = max_key"
    using p by (simp_all add: key_range_def)
  have "range_begin (key_range (unat max_key) c s i) \<le> range_end (key_range (unat max_key) c s i)" for i
    using unat_u64_bound [of max_key] by (simp add: u64_le_iff unat_key_range key_bound_mono)
  moreover have "range_end (key_range (unat max_key) c s i) = range_begin (key_range (unat max_key) c s (Suc i))" for i
    by (simp add: key_range_def)
  ultimately show ?thesis
    using ok t p ends by (auto simp: table_for_def GetServerKeyRanges_def vec_get_def)
qed

theorem key_ranges_tile_witness:
  "\<exists>rm' rs. SetMaxKeyAndChunkSize 0 13 (int 5) two_servers = Inr rm'
     \<and> GetServerKeyRanges 0 rm' = Inr rs \<and> length rs = 2
     \<and> range_begin (rs ! 0) = 0 \<and> range_end (rs ! (2 - 1)) = 13"
  using key_ranges_tile [OF two_servers_ok, of 0] by blast

text \<open>
  C5. \<^verbatim>\<open>GetServerFromKey\<close> finds the owner: for every key below \<open>max_key\<close> the scan ends inside the vector
  and returns the one server whose key range holds the key.
\<close>

theorem GetServerFromKey_owner:
  assumes "rm_wf rm" "rm_num_servers rm = int s" "params_ok (unat max_key) c s"
    and "SetMaxKeyAndChunkSize kv_id max_key (int c) rm = Inr rm'" and "key < max_key"
  shows "\<exists>j < s. GetServerFromKey kv_id key rm' = Inr (int j)
     \<and> (\<forall>i < s. range_begin (rm_key_ranges rm' ! kv_id ! i) \<le> key
               \<and> key < range_end (rm_key_ranges rm' ! kv_id ! i) \<longleftrightarrow> i = j)"
proof -
  let ?N = "unat max_key"
  have t: "table_for rm' kv_id ?N c s" using SetMaxKeyAndChunkSize_table [OF assms(1-4)] .
  obtain j where j: "j < s" "GetServerFromKey kv_id key rm' = Inr (int j)"
    "key_bound ?N c s j \<le> unat key" "unat key < key_bound ?N c s (Suc j)"
    using GetServerFromKey_bounds [OF t assms(3), of key] assms(5) by (auto simp: u64_less_iff)
  have "range_begin (rm_key_ranges rm' ! kv_id ! i) \<le> key \<and> key < range_end (rm_key_ranges rm' ! kv_id ! i)
      \<longleftrightarrow> i = j" if "i < s" for i
    using j tile_unique [of "key_bound ?N c s" i "unat key" j] unat_u64_bound [of max_key] that
    by (auto simp: table_for_nth [OF t] u64_le_iff u64_less_iff unat_key_range key_bound_mono)
  with j(1,2) show ?thesis by blast
qed

theorem GetServerFromKey_owner_witness:
  "\<exists>j < 2. \<exists>rm'. SetMaxKeyAndChunkSize 0 13 (int 5) two_servers = Inr rm' \<and> GetServerFromKey 0 11 rm' = Inr (int j)"
proof -
  obtain rm' where "SetMaxKeyAndChunkSize 0 13 (int 5) two_servers = Inr rm'" using two_servers_set by blast
  with GetServerFromKey_owner [OF two_servers_ok this, of 11] show ?thesis by auto
qed

text \<open>
  C6. A chunk is never split between servers, and the two tables agree: the server that
  \<^verbatim>\<open>GetServerFromKey\<close> gives for a key is the one whose \<^emph>\<open>chunk\<close> range holds the chunk that
  \<^verbatim>\<open>GetLocation\<close> gives for the key, and \<^verbatim>\<open>GetServerFromChunk\<close> of that chunk returns the same server.
\<close>

theorem chunk_and_key_servers_agree:
  assumes "rm_wf rm" "rm_num_servers rm = int s" "params_ok (unat max_key) c s"
    and "SetMaxKeyAndChunkSize kv_id max_key (int c) rm = Inr rm'" and "key < max_key"
  shows "\<exists>j < s. \<exists>ch off. GetLocation kv_id key rm' = Inr (ch, off)
     \<and> GetServerFromKey kv_id key rm' = Inr (int j) \<and> GetServerFromChunk kv_id ch rm' = Inr (int j)
     \<and> range_begin (rm_chunk_ranges rm' ! kv_id ! j) \<le> ch \<and> ch < range_end (rm_chunk_ranges rm' ! kv_id ! j)"
proof -
  let ?N = "unat max_key" and ?k = "unat key" and ?ch = "key div of_nat c"
  have t: "table_for rm' kv_id ?N c s" using SetMaxKeyAndChunkSize_table [OF assms(1-4)] .
  have c: "0 < c" "unat (of_nat c :: u64) = c" "c \<noteq> 0" "0 < s"
    using assms(3) by (simp_all add: params_ok_def unat_of_nat_u64)
  have ch: "unat ?ch = ?k div c" using c by (simp add: unat_div_distrib)
  have "?k div c * c \<le> ?k" by simp
  then have "?k div c * c < 2 ^ 64" using unat_u64_bound [of key] by linarith
  then have ch_key: "unat (?ch * of_nat c) = ?k div c * c"
    using c(2) ch unat_mult_lem [of ?ch "of_nat c"] by simp
  have kN: "?k < ?N" using assms(5) by (simp add: u64_less_iff)
  obtain j where j: "j < s" "GetServerFromKey kv_id key rm' = Inr (int j)"
    "key_bound ?N c s j \<le> ?k" "?k < key_bound ?N c s (Suc j)"
    using GetServerFromKey_bounds [OF t assms(3), of key] kN by auto
  have cN: "unat (?ch * of_nat c) < ?N" using ch_key \<open>?k div c * c \<le> ?k\<close> kN by linarith
  obtain j' where j': "GetServerFromKey kv_id (?ch * of_nat c) rm' = Inr (int j')"
    "key_bound ?N c s j' \<le> unat (?ch * of_nat c)" "unat (?ch * of_nat c) < key_bound ?N c s (Suc j')"
    using GetServerFromKey_bounds [OF t assms(3) cN] by auto
  have chunk_j: "chunk_bound (num_chunks ?N c) s j \<le> ?k div c" "?k div c < chunk_bound (num_chunks ?N c) s (Suc j)"
    using j(3,4) kN c by (simp_all add: key_bound_chunk)
  have "chunk_bound (num_chunks ?N c) s j' \<le> ?k div c" "?k div c < chunk_bound (num_chunks ?N c) s (Suc j')"
    using j'(2,3) cN c unfolding ch_key by (simp_all add: key_bound_chunk)
  then have "j' = j" using chunk_j by (metis tile_unique chunk_bound_mono)
  moreover have "GetLocation kv_id key rm' = Inr (?ch, key mod of_nat c)"
    using t assms(5) c by (auto simp: GetLocation_def GetMaxKey_def GetChunkSize_def vec_get_def table_for_def rm_wf_def)
  moreover have "GetServerFromChunk kv_id ?ch rm' = GetServerFromKey kv_id (?ch * of_nat c) rm'"
    using t by (simp add: GetServerFromChunk_def GetChunkSize_def vec_get_def table_for_def rm_wf_def)
  ultimately show ?thesis
    using j(1,2) j'(1) chunk_j ch unat_chunk_range [OF assms(3) j(1)]
    by (intro exI [of _ j]) (auto simp: table_for_nth [OF t] u64_le_iff u64_less_iff)
qed

theorem chunk_and_key_servers_agree_witness:
  "\<exists>j < 2. \<exists>rm' ch off. SetMaxKeyAndChunkSize 0 13 (int 5) two_servers = Inr rm'
     \<and> GetLocation 0 11 rm' = Inr (ch, off) \<and> GetServerFromKey 0 11 rm' = Inr (int j)
     \<and> GetServerFromChunk 0 ch rm' = Inr (int j)"
proof -
  obtain rm' where "SetMaxKeyAndChunkSize 0 13 (int 5) two_servers = Inr rm'" using two_servers_set by blast
  with chunk_and_key_servers_agree [OF two_servers_ok this, of 11] show ?thesis by auto
qed

text \<open>
  C7. \<^verbatim>\<open>GetLocation\<close> is a bijection between the keys below \<open>max_key\<close> and the pairs of a chunk id below \<^verbatim>\<open>GetChunkNum\<close> and an offset below
  the size of the chunk, which is \<^verbatim>\<open>GetLastChunkSize\<close> for the last chunk and the chunk size for every other: every key is \<open>chunk * chunk_size + offset\<close> of its location, and every such pair is the location of
  the key \<open>chunk * chunk_size + offset\<close>, computed with 64 bits and without wrapping. So \<^verbatim>\<open>GetLastChunkSize\<close> is exact. Keys at or past \<open>max_key\<close> fail the assertion.
\<close>

theorem GetLocation_roundtrip:
  assumes "rm_wf rm" "rm_num_servers rm = int s" "params_ok (unat max_key) c s"
    and "SetMaxKeyAndChunkSize kv_id max_key (int c) rm = Inr rm'"
  shows "\<exists>num last. GetChunkNum kv_id rm' = Inr num \<and> GetLastChunkSize kv_id rm' = Inr last
     \<and> (\<forall>key. key < max_key \<longrightarrow> (\<exists>ch off. GetLocation kv_id key rm' = Inr (ch, off) \<and> unat ch * c + unat off = unat key
            \<and> ch < num \<and> off < (if ch = num - 1 then last else of_nat c)))
     \<and> (\<forall>ch off. ch < num \<and> off < (if ch = num - 1 then last else of_nat c) \<longrightarrow>
            unat ch * c + unat off < unat max_key \<and> GetLocation kv_id (ch * of_nat c + off) rm' = Inr (ch, off))
     \<and> (\<forall>key. \<not> key < max_key \<longrightarrow> GetLocation kv_id key rm' = Inl AssertFailed)"
proof -
  let ?N = "unat max_key"
  define l where "l = (if max_key mod of_nat c \<noteq> 0 then max_key mod of_nat c else of_nat c)"
  have t: "table_for rm' kv_id ?N c s" using SetMaxKeyAndChunkSize_table [OF assms] .
  have c: "0 < c" "c < 2 ^ 64" "unat (of_nat c :: u64) = c" "c \<noteq> 0" "(of_nat c :: u64) \<noteq> 0" "0 < ?N"
    using assms(3) unat_of_nat_u64 [of c] by (auto simp: params_ok_def simp flip: unat_eq_0)
  have num: "unat (of_nat (num_chunks ?N c) :: u64) = num_chunks ?N c"
    using num_chunks_le [of ?N c] unat_u64_bound [of max_key] c by (intro unat_of_nat_u64) linarith
  have get: "GetChunkNum kv_id rm' = Inr (of_nat (num_chunks ?N c))" "GetLastChunkSize kv_id rm' = Inr l"
    "GetLocation kv_id key rm' = (if key < max_key then Inr (key div of_nat c, key mod of_nat c) else Inl AssertFailed)" for key
    using t c by (simp_all add: GetChunkNum_def GetLastChunkSize_def GetMaxKey_def GetLocation_def GetChunkSize_def
       vec_get_def table_for_def rm_wf_def l_def)
  have l: "unat l = (if ?N mod c \<noteq> 0 then ?N mod c else c)" using c by (simp add: unat_mod_distrib l_def flip: unat_eq_0)
  have last: "unat (of_nat (num_chunks ?N c) - 1 :: u64) = num_chunks ?N c - 1"
    using num num_chunks_pos [of ?N c] by (simp add: unat_sub_if' del: num_chunks_pos)
  have size: "off < (if ch = of_nat (num_chunks ?N c) - 1 then l else of_nat c)
      \<longleftrightarrow> unat off < (if unat ch = num_chunks ?N c - 1 then if ?N mod c \<noteq> 0 then ?N mod c else c else c)" for ch off :: u64
    by (simp add: u64_less_iff word_unat_eq_iff [of ch] last l c(3))
  have to: "unat (key div of_nat c) * c + unat (key mod of_nat c) = unat key \<and> key div of_nat c < of_nat (num_chunks ?N c)
      \<and> key mod of_nat c < (if key div of_nat c = of_nat (num_chunks ?N c) - 1 then l else of_nat c)" if "key < max_key" for key
  proof -
    have parts: "unat (key div of_nat c) = unat key div c" "unat (key mod of_nat c) = unat key mod c" and k: "unat key < ?N"
      using c that by (simp_all add: unat_div_distrib unat_mod_distrib u64_less_iff)
    have "unat key div c < num_chunks ?N c" using k c num_chunks_cover [of c ?N] by (simp add: div_less_iff_less_mult)
    then show ?thesis using last_chunk_offset [OF c(1) k] c(1) unfolding size by (simp add: parts u64_less_iff num)
  qed
  have inside: "unat ch * c + unat off < ?N \<and> GetLocation kv_id (ch * of_nat c + off) rm' = Inr (ch, off)"
    if "ch < of_nat (num_chunks ?N c)" "off < (if ch = of_nat (num_chunks ?N c) - 1 then l else of_nat c)" for ch off
  proof -
    have off: "unat off < (if unat ch = num_chunks ?N c - 1 then if ?N mod c \<noteq> 0 then ?N mod c else c else c)" using that(2) by (simp only: size)
    have below: "unat ch * c + unat off < ?N" using chunk_offset_below [OF c(1,6) _ off] that(1) by (simp add: u64_less_iff num)
    have "unat off < c" using off c(1) by (simp split: if_splits) (meson less_trans mod_less_divisor)
    then show ?thesis using u64_chunk_offset [OF _ c(1,2)] below unat_u64_bound [of max_key] by (simp add: get u64_less_iff)
  qed
  show ?thesis using to inside by (simp add: get)
qed

theorem GetLocation_roundtrip_witness:
  "\<exists>rm'. SetMaxKeyAndChunkSize 0 13 (int 5) two_servers = Inr rm'
     \<and> (\<exists>ch off. GetLocation 0 11 rm' = Inr (ch, off) \<and> unat ch * 5 + unat off = 11) \<and> GetLocation 0 (2 * 5 + 2) rm' = Inr (2, 2)
     \<and> GetLocation 0 13 rm' = Inl AssertFailed \<and> GetLastChunkSize 0 rm' = Inr 3"
proof -
  obtain rm' where rm': "SetMaxKeyAndChunkSize 0 13 (int 5) two_servers = Inr rm'" using two_servers_set by blast
  have t: "table_for rm' 0 13 5 2" using SetMaxKeyAndChunkSize_table [OF two_servers_ok rm'] by simp
  then have get: "GetChunkNum 0 rm' = Inr 3" "GetLastChunkSize 0 rm' = Inr 3"
    by (simp_all add: GetChunkNum_def GetLastChunkSize_def GetMaxKey_def GetChunkSize_def vec_get_def table_for_def rm_wf_def num_chunks_def)
  obtain num last where r: "GetChunkNum 0 rm' = Inr num" "GetLastChunkSize 0 rm' = Inr last"
    "\<And>key. key < 13 \<Longrightarrow> \<exists>ch off. GetLocation 0 key rm' = Inr (ch, off) \<and> unat ch * 5 + unat off = unat key"
    "\<And>ch off. ch < num \<Longrightarrow> off < (if ch = num - 1 then last else of_nat 5) \<Longrightarrow> GetLocation 0 (ch * of_nat 5 + off) rm' = Inr (ch, off)"
    "\<And>key. \<not> key < 13 \<Longrightarrow> GetLocation 0 key rm' = Inl AssertFailed"
    using GetLocation_roundtrip [OF two_servers_ok rm'] by blast
  have "num = 3" "last = 3" using r(1,2) get by simp_all
  then show ?thesis using rm' get r(3) [of 11] r(4) [of 2 2] r(5) [of 13] by simp
qed

text \<open>
  C16. \<^verbatim>\<open>GetServerInterval\<close>, the offset that a vector store subtracts from its keys, is the begin of the
  server's key range exactly when that begin is below \<open>2^31\<close>: its \<^verbatim>\<open>int\<close> result narrows the 64-bit value.
\<close>

theorem GetServerInterval_exact:
  assumes "rm_wf rm" "rm_num_servers rm = int s" "params_ok (unat max_key) c s"
    and "SetMaxKeyAndChunkSize kv_id max_key (int c) rm = Inr rm'" and "j < s"
  shows "GetServerInterval kv_id j rm' = Inr (uint (range_begin (rm_key_ranges rm' ! kv_id ! j)))
     \<longleftrightarrow> range_begin (rm_key_ranges rm' ! kv_id ! j) < 2 ^ 31"
proof -
  have t: "table_for rm' kv_id (unat max_key) c s" using SetMaxKeyAndChunkSize_table [OF assms(1-4)] .
  have "GetServerInterval kv_id j rm' = Inr (sint (ucast (range_begin (rm_key_ranges rm' ! kv_id ! j)) :: u32))"
    using t assms(5) by (simp add: GetServerInterval_def vec_get_def table_for_def)
  then show ?thesis using sint_ucast_u32 by (simp add: word_less_def)
qed

theorem GetServerInterval_exact_witness:
  "\<exists>rm'. SetMaxKeyAndChunkSize 0 13 (int 5) two_servers = Inr rm'
     \<and> (GetServerInterval 0 1 rm' = Inr (uint (range_begin (rm_key_ranges rm' ! 0 ! 1)))
         \<longleftrightarrow> range_begin (rm_key_ranges rm' ! 0 ! 1) < 2 ^ 31)"
proof -
  obtain rm' where rm': "SetMaxKeyAndChunkSize 0 13 (int 5) two_servers = Inr rm'" using two_servers_set by blast
  show ?thesis using GetServerInterval_exact [OF two_servers_ok rm', of 1] rm' by simp
qed

end
