(* ===== verification/Message.thy ===== *)
theory Message
  imports Prelude
begin

text \<open>
  Messages between workers and servers.

  A message is the sequence of values that the code writes to a \<^verbatim>\<open>BinStream\<close> with \<^verbatim>\<open><<\<close>, and \<^verbatim>\<open>>>\<close> takes
  them back in that order; the byte layout and the transport belong to Husky and are not part of this
  repository. A container is written as its size followed by its elements, as \<^verbatim>\<open>SArray\<close>'s stream operators
  (\<^verbatim>\<open>kvstore/ps_lite/sarray.h\<close>) and \<^verbatim>\<open>KVWorker::SendChunks_\<close> do. A pointer that is passed through a
  message for a local zero-copy transfer carries the object that it points to.

  \<open>KVPairs\<close> and \<open>PSInfo\<close> are the records of \<^verbatim>\<open>kvstore/kvpairs.hpp\<close>.
\<close>

section \<open>Model\<close>

record 'v KVPairs =
  kv_keys :: "Key list"
  kv_vals :: "'v list"

definition empty_KVPairs :: "'v KVPairs" where
  "empty_KVPairs = \<lparr>kv_keys = [], kv_vals = []\<rparr>"

record PSInfo =
  ps_channel_id :: int
  ps_global_id :: int
  ps_num_ps_servers :: int
  ps_local_server_ids :: "nat set"
  ps_server_id_to_global_id :: "nat \<rightharpoonup> int"

text \<open>\<^verbatim>\<open>operator[]\<close> of an \<^verbatim>\<open>unordered_map\<close>: an absent id reads as 0.\<close>

definition get_tid :: "PSInfo \<Rightarrow> nat \<Rightarrow> int" where
  "get_tid info server_id =
     (case ps_server_id_to_global_id info server_id of None \<Rightarrow> 0 | Some t \<Rightarrow> t)"

datatype 'v field =
    FInt int
  | FBool bool
  | FSize nat
  | FKey u64
  | FVal 'v
  | FKVPtr "'v KVPairs"                        \<comment> \<open>\<^verbatim>\<open>KVPairs<Val>*\<close> as \<^verbatim>\<open>uintptr_t\<close>\<close>
  | FChunksPtr "u64 list \<times> 'v list list"      \<comment> \<open>\<^verbatim>\<open>pair<vector<size_t>, vector<vector<Val>>>*\<close>\<close>

type_synonym 'v bin = "'v field list"

definition put_keys :: "u64 list \<Rightarrow> 'v bin" where
  "put_keys ks = FSize (length ks) # map FKey ks"

definition put_vals :: "'v list \<Rightarrow> 'v bin" where
  "put_vals vs = FSize (length vs) # map FVal vs"

fun get_int :: "'v bin \<Rightarrow> error + (int \<times> 'v bin)" where
  "get_int (FInt i # b) = Inr (i, b)"
| "get_int _ = Inl BadMessage"

fun get_bool :: "'v bin \<Rightarrow> error + (bool \<times> 'v bin)" where
  "get_bool (FBool x # b) = Inr (x, b)"
| "get_bool _ = Inl BadMessage"

fun get_key_items :: "nat \<Rightarrow> 'v bin \<Rightarrow> error + (u64 list \<times> 'v bin)" where
  "get_key_items 0 b = Inr ([], b)"
| "get_key_items (Suc n) (FKey k # b) = bindE (get_key_items n b) (\<lambda>(ks, b). Inr (k # ks, b))"
| "get_key_items (Suc n) _ = Inl BadMessage"

fun get_keys :: "'v bin \<Rightarrow> error + (u64 list \<times> 'v bin)" where
  "get_keys (FSize n # b) = get_key_items n b"
| "get_keys _ = Inl BadMessage"

fun get_val_items :: "nat \<Rightarrow> 'v bin \<Rightarrow> error + ('v list \<times> 'v bin)" where
  "get_val_items 0 b = Inr ([], b)"
| "get_val_items (Suc n) (FVal v # b) = bindE (get_val_items n b) (\<lambda>(vs, b). Inr (v # vs, b))"
| "get_val_items (Suc n) _ = Inl BadMessage"

fun get_vals :: "'v bin \<Rightarrow> error + ('v list \<times> 'v bin)" where
  "get_vals (FSize n # b) = get_val_items n b"
| "get_vals _ = Inl BadMessage"

fun get_kv_ptr :: "'v bin \<Rightarrow> error + ('v KVPairs \<times> 'v bin)" where
  "get_kv_ptr (FKVPtr p # b) = Inr (p, b)"
| "get_kv_ptr _ = Inl BadMessage"

fun get_chunks_ptr :: "'v bin \<Rightarrow> error + ((u64 list \<times> 'v list list) \<times> 'v bin)" where
  "get_chunks_ptr (FChunksPtr p # b) = Inr (p, b)"
| "get_chunks_ptr _ = Inl BadMessage"

section \<open>What is written is what is read\<close>

lemma KVPairs_eta [simp]: "\<lparr>kv_keys = kv_keys p, kv_vals = kv_vals p\<rparr> = (p :: 'v KVPairs)"
  by simp

lemma get_key_items_map [simp]: "get_key_items (length ks) (map FKey ks @ b) = Inr (ks, b)"
  by (induction ks) auto

lemma get_val_items_map [simp]: "get_val_items (length vs) (map FVal vs @ b) = Inr (vs, b)"
  by (induction vs) auto

lemma get_put_keys [simp]: "get_keys (put_keys ks @ b) = Inr (ks, b)"
  by (simp add: put_keys_def)

lemma get_put_vals [simp]: "get_vals (put_vals vs @ b) = Inr (vs, b)"
  by (simp add: put_vals_def)

lemma get_put_keys_Nil [simp]: "get_keys (put_keys ks) = Inr (ks, [])"
  using get_put_keys [of ks "[]"] by simp

lemma get_put_vals_Nil [simp]: "get_vals (put_vals vs) = Inr (vs, [])"
  using get_put_vals [of vs "[]"] by simp

lemma put_keys_not_Nil [simp]: "put_keys ks \<noteq> []"
  by (simp add: put_keys_def)

end
