(* ===== verification/KV_Storage.thy ===== *)
theory KV_Storage
  imports Range_Manager Message "HOL-Library.Multiset"
begin

text \<open>
  The storage of a server and the two routines every server is built on: \<^verbatim>\<open>update\<close> and \<^verbatim>\<open>retrieve\<close> of
  \<^verbatim>\<open>kvstore/handles/basic.hpp\<close>.

  \<open>store\<close> is the template parameter \<^verbatim>\<open>StorageT\<close>: an \<^verbatim>\<open>unordered_map\<close>, whose \<^verbatim>\<open>operator[]\<close> creates a missing
  entry (also when it is only read), or a \<^verbatim>\<open>vector\<close> indexed from the first key of the server. Values are of
  any type with zero and plus; the laws of addition are assumed only in lemmas, so they speak of exact
  arithmetic and not of floating-point rounding.

  The reference description of a push is \<open>writes\<close>, the list of (slot, value) pairs that a message
  denotes; \<open>update_writes\<close> says that the four branches of \<^verbatim>\<open>update\<close> apply exactly that list. The locale
  \<open>additive_store\<close> is what the consistency servers rely on.
\<close>

section \<open>Model\<close>

datatype 'v store = MapStore "u64 \<rightharpoonup> 'v" | VecStore "'v list"

fun store_index :: "'v::zero store \<Rightarrow> u64 \<Rightarrow> error + ('v \<times> 'v store)" where
  "store_index (MapStore m) k =
     (case m k of None \<Rightarrow> Inr (0, MapStore (m(k \<mapsto> 0))) | Some v \<Rightarrow> Inr (v, MapStore m))"
| "store_index (VecStore xs) k = bindE (vec_get xs (unat k)) (\<lambda>v. Inr (v, VecStore xs))"

fun store_write :: "u64 \<Rightarrow> 'v \<Rightarrow> 'v store \<Rightarrow> error + 'v store" where
  "store_write k v (MapStore m) = Inr (MapStore (m(k \<mapsto> v)))"
| "store_write k v (VecStore xs) = bindE (vec_set xs (unat k) v) (\<lambda>xs. Inr (VecStore xs))"

text \<open>\<^verbatim>\<open>store[k] = v\<close> and \<^verbatim>\<open>store[k] += v\<close>.\<close>

definition store_put :: "bool \<Rightarrow> u64 \<Rightarrow> 'v::{zero,plus} \<Rightarrow> 'v store \<Rightarrow> error + 'v store" where
  "store_put is_assign k v st =
     (if is_assign then store_write k v st
      else bindE (store_index st k) (\<lambda>(old, st). store_write k (old + v) st))"

definition interval_of :: "RangeManager \<Rightarrow> nat \<Rightarrow> nat \<Rightarrow> bool \<Rightarrow> error + u64" where
  "interval_of rm kv_id server_id is_vector =
     (if is_vector then bindE (GetServerInterval kv_id server_id rm) (\<lambda>i. Inr (word_of_int i)) else Inr 0)"

definition put_pairs ::
    "bool \<Rightarrow> u64 \<Rightarrow> u64 list \<Rightarrow> 'v::{zero,plus} list \<Rightarrow> 'v store \<Rightarrow> error + 'v store" where
  "put_pairs is_assign interval keys vals =
     foldE (\<lambda>i st. bindE (vec_get vals i) (\<lambda>v. store_put is_assign (keys ! i - interval) v st)) [0..<length keys]"

definition put_chunk ::
    "bool \<Rightarrow> u64 \<Rightarrow> u64 \<Rightarrow> 'v::{zero,plus} list \<Rightarrow> 'v store \<Rightarrow> error + 'v store" where
  "put_chunk is_assign interval start_id chunk =
     foldE (\<lambda>i. store_put is_assign (start_id + of_nat i - interval) (chunk ! i)) [0..<length chunk]"

fun put_stream_chunks ::
    "bool \<Rightarrow> u64 \<Rightarrow> u64 \<Rightarrow> u64 list \<Rightarrow> 'v::{zero,plus} bin \<Rightarrow> 'v store \<Rightarrow> error + 'v store" where
  "put_stream_chunks is_assign interval chunk_size [] bin st = Inr st"
| "put_stream_chunks is_assign interval chunk_size (chunk_id # chunk_ids) bin st =
     bindE (get_vals bin) (\<lambda>(chunk, bin).
     bindE (put_chunk is_assign interval (chunk_id * chunk_size) chunk st) (\<lambda>st.
     put_stream_chunks is_assign interval chunk_size chunk_ids bin st))"

definition put_ptr_chunks ::
    "bool \<Rightarrow> u64 \<Rightarrow> u64 \<Rightarrow> u64 list \<Rightarrow> 'v::{zero,plus} list list \<Rightarrow> 'v store \<Rightarrow> error + 'v store" where
  "put_ptr_chunks is_assign interval chunk_size chunk_ids chunks =
     foldE (\<lambda>i st. bindE (vec_get chunks i) (\<lambda>chunk.
              put_chunk is_assign interval (chunk_ids ! i * chunk_size) chunk st)) [0..<length chunk_ids]"

definition update :: "RangeManager \<Rightarrow> nat \<Rightarrow> nat \<Rightarrow> 'v::{zero,plus} bin \<Rightarrow> 'v store \<Rightarrow> int \<Rightarrow> bool \<Rightarrow> bool
    \<Rightarrow> error + 'v store" where
  "update rm kv_id server_id bin store cmd is_vector is_assign =
     (if cmd = 0 then
        bindE (get_keys bin) (\<lambda>(keys, bin). bindE (get_vals bin) (\<lambda>(vals, bin).
        bindE (interval_of rm kv_id server_id is_vector) (\<lambda>interval.
        put_pairs is_assign interval keys vals store)))
      else if cmd = 1 then
        bindE (GetChunkSize kv_id rm) (\<lambda>chunk_size. bindE (get_keys bin) (\<lambda>(chunk_ids, bin).
        bindE (interval_of rm kv_id server_id is_vector) (\<lambda>interval.
        put_stream_chunks is_assign interval chunk_size chunk_ids bin store)))
      else if cmd = 2 then
        bindE (get_kv_ptr bin) (\<lambda>(p_recv, bin).
        bindE (interval_of rm kv_id server_id is_vector) (\<lambda>interval.
        put_pairs is_assign interval (kv_keys p_recv) (kv_vals p_recv) store))
      else if cmd = 3 then
        bindE (GetChunkSize kv_id rm) (\<lambda>chunk_size. bindE (get_chunks_ptr bin) (\<lambda>((chunk_ids, chunks), bin).
        bindE (interval_of rm kv_id server_id is_vector) (\<lambda>interval.
        put_ptr_chunks is_assign interval chunk_size chunk_ids chunks store)))
      else Inl (UnknownCmd cmd))"

text \<open>Reading a list of slots one after the other, threading the store.\<close>

fun index_all :: "u64 list \<Rightarrow> 'v::zero store \<Rightarrow> error + ('v list \<times> 'v store)" where
  "index_all [] st = Inr ([], st)"
| "index_all (k # ks) st =
     bindE (store_index st k) (\<lambda>(v, st). bindE (index_all ks st) (\<lambda>(vs, st). Inr (v # vs, st)))"

definition real_chunk_size :: "RangeManager \<Rightarrow> nat \<Rightarrow> u64 \<Rightarrow> u64 \<Rightarrow> u64 \<Rightarrow> error + int" where
  "real_chunk_size rm kv_id chunk_size chunk_num chunk_id =
     (if chunk_id = chunk_num - 1
      then bindE (GetLastChunkSize kv_id rm) (\<lambda>n. Inr (sint (ucast n :: u32)))
      else Inr (sint (ucast chunk_size :: u32)))"

definition retrieve_pairs :: "u64 \<Rightarrow> u64 list \<Rightarrow> 'v::zero store \<Rightarrow> error + ('v KVPairs \<times> 'v store)" where
  "retrieve_pairs interval keys store =
     bindE (index_all (map (\<lambda>k. k - interval) keys) store) (\<lambda>(vals, store).
     Inr (\<lparr>kv_keys = keys, kv_vals = vals\<rparr>, store))"

fun retrieve_chunks ::
    "RangeManager \<Rightarrow> nat \<Rightarrow> u64 \<Rightarrow> u64 \<Rightarrow> u64 \<Rightarrow> u64 list \<Rightarrow> 'v::zero store \<Rightarrow> error + ('v KVPairs \<times> 'v store)" where
  "retrieve_chunks rm kv_id interval chunk_size chunk_num [] store = Inr (empty_KVPairs, store)"
| "retrieve_chunks rm kv_id interval chunk_size chunk_num (chunk_id # chunk_ids) store =
     bindE (real_chunk_size rm kv_id chunk_size chunk_num chunk_id) (\<lambda>n.
     bindE (index_all (map (\<lambda>i. chunk_id * chunk_size + of_nat i - interval) [0..<nat n]) store) (\<lambda>(vals, store).
     bindE (retrieve_chunks rm kv_id interval chunk_size chunk_num chunk_ids store) (\<lambda>(send, store).
     Inr (\<lparr>kv_keys = chunk_id # kv_keys send, kv_vals = vals @ kv_vals send\<rparr>, store))))"

definition retrieve :: "RangeManager \<Rightarrow> nat \<Rightarrow> nat \<Rightarrow> 'v::zero bin \<Rightarrow> 'v store \<Rightarrow> int \<Rightarrow> bool
    \<Rightarrow> error + ('v KVPairs \<times> 'v store)" where
  "retrieve rm kv_id server_id bin store cmd is_vector =
     (if cmd = 0 then
        bindE (get_keys bin) (\<lambda>(keys, bin).
        bindE (interval_of rm kv_id server_id is_vector) (\<lambda>interval. retrieve_pairs interval keys store))
      else if cmd = 1 then
        bindE (GetChunkSize kv_id rm) (\<lambda>chunk_size. bindE (GetChunkNum kv_id rm) (\<lambda>chunk_num.
        bindE (get_keys bin) (\<lambda>(chunk_ids, bin).
        bindE (interval_of rm kv_id server_id is_vector) (\<lambda>interval.
        retrieve_chunks rm kv_id interval chunk_size chunk_num chunk_ids store))))
      else if cmd = 2 then
        bindE (get_kv_ptr bin) (\<lambda>(p_recv, bin).
        bindE (interval_of rm kv_id server_id is_vector) (\<lambda>interval. retrieve_pairs interval (kv_keys p_recv) store))
      else if cmd = 3 then
        bindE (GetChunkSize kv_id rm) (\<lambda>chunk_size. bindE (GetChunkNum kv_id rm) (\<lambda>chunk_num.
        bindE (get_chunks_ptr bin) (\<lambda>((chunk_ids, chunks), bin).
        bindE (interval_of rm kv_id server_id is_vector) (\<lambda>interval.
        retrieve_chunks rm kv_id interval chunk_size chunk_num chunk_ids store))))
      else Inl (UnknownCmd cmd))"

section \<open>Reference: the writes of a push, the slots of a pull\<close>

definition put_all :: "bool \<Rightarrow> (u64 \<times> 'v::{zero,plus}) list \<Rightarrow> 'v store \<Rightarrow> error + 'v store" where
  "put_all is_assign = foldE (\<lambda>(k, v). store_put is_assign k v)"

definition pair_writes :: "u64 \<Rightarrow> u64 list \<Rightarrow> 'v list \<Rightarrow> error + (u64 \<times> 'v) list" where
  "pair_writes interval keys vals =
     (if length keys \<le> length vals then Inr (zip (map (\<lambda>k. k - interval) keys) vals) else Inl OutOfRange)"

definition chunk_writes :: "u64 \<Rightarrow> u64 \<Rightarrow> u64 \<Rightarrow> 'v list \<Rightarrow> (u64 \<times> 'v) list" where
  "chunk_writes interval chunk_size chunk_id chunk =
     map (\<lambda>i. (chunk_id * chunk_size + of_nat i - interval, chunk ! i)) [0..<length chunk]"

fun stream_writes :: "u64 \<Rightarrow> u64 \<Rightarrow> u64 list \<Rightarrow> 'v bin \<Rightarrow> error + (u64 \<times> 'v) list" where
  "stream_writes interval chunk_size [] bin = Inr []"
| "stream_writes interval chunk_size (c # cs) bin =
     bindE (get_vals bin) (\<lambda>(chunk, bin). bindE (stream_writes interval chunk_size cs bin) (\<lambda>ws.
     Inr (chunk_writes interval chunk_size c chunk @ ws)))"

definition ptr_writes :: "u64 \<Rightarrow> u64 \<Rightarrow> u64 list \<Rightarrow> 'v list list \<Rightarrow> error + (u64 \<times> 'v) list" where
  "ptr_writes interval chunk_size chunk_ids chunks =
     (if length chunk_ids \<le> length chunks
      then Inr (concat (map (\<lambda>(c, chunk). chunk_writes interval chunk_size c chunk) (zip chunk_ids chunks)))
      else Inl OutOfRange)"

definition writes :: "RangeManager \<Rightarrow> nat \<Rightarrow> nat \<Rightarrow> bool \<Rightarrow> int \<Rightarrow> 'v bin \<Rightarrow> error + (u64 \<times> 'v) list" where
  "writes rm kv_id server_id is_vector cmd bin =
     bindE (interval_of rm kv_id server_id is_vector) (\<lambda>interval.
     if cmd = 0 then bindE (get_keys bin) (\<lambda>(keys, bin). bindE (get_vals bin) (\<lambda>(vals, bin).
                       pair_writes interval keys vals))
     else if cmd = 1 then bindE (GetChunkSize kv_id rm) (\<lambda>cs. bindE (get_keys bin) (\<lambda>(ids, bin).
                       stream_writes interval cs ids bin))
     else if cmd = 2 then bindE (get_kv_ptr bin) (\<lambda>(p, bin). pair_writes interval (kv_keys p) (kv_vals p))
     else if cmd = 3 then bindE (GetChunkSize kv_id rm) (\<lambda>cs. bindE (get_chunks_ptr bin) (\<lambda>((ids, chunks), bin).
                       ptr_writes interval cs ids chunks))
     else Inl (UnknownCmd cmd))"

lemma put_all_append: "put_all a (xs @ ys) st = bindE (put_all a xs st) (put_all a ys)"
  by (simp add: put_all_def foldE_append)

lemma put_all_Nil [simp]: "put_all a [] st = Inr st"
  by (simp add: put_all_def)

lemma put_all_Cons [simp]: "put_all a ((k, v) # ws) st = bindE (store_put a k v st) (put_all a ws)"
  by (simp add: put_all_def)

lemma put_all_concat: "foldE (\<lambda>p. put_all a (f p)) ps st = put_all a (concat (map f ps)) st"
proof (induction ps arbitrary: st)
  case (Cons p ps)
  then show ?case by (cases "put_all a (f p) st") (simp_all add: put_all_append)
qed simp

lemma put_pairs_writes:
  "put_pairs a iv keys vals st = Inr st' \<longleftrightarrow> (\<exists>ws. pair_writes iv keys vals = Inr ws \<and> put_all a ws st = Inr st')"
proof (cases "length keys \<le> length vals")
  case True
  let ?z = "zip (map (\<lambda>k. k - iv) keys) vals"
  have len: "length ?z = length keys" using True by simp
  have "put_pairs a iv keys vals st = foldE (\<lambda>i. (\<lambda>(k, v). store_put a k v) (?z ! i)) [0..<length ?z] st"
    unfolding put_pairs_def len by (rule foldE_cong) (use True in \<open>simp add: vec_get_def\<close>)
  also have "\<dots> = put_all a ?z st" unfolding put_all_def by (rule foldE_nth)
  finally show ?thesis using True by (simp add: pair_writes_def)
next
  case False
  then have "length vals \<in> set [0..<length keys]" by simp
  then have "put_pairs a iv keys vals st \<noteq> Inr st'"
    unfolding put_pairs_def by (auto dest!: foldE_Inr_each simp: vec_get_def)
  with False show ?thesis by (simp add: pair_writes_def)
qed

lemma put_chunk_writes: "put_chunk a iv (c * cs) chunk st = put_all a (chunk_writes iv cs c chunk) st"
  by (simp add: put_chunk_def chunk_writes_def put_all_def foldE_map)

lemma put_stream_writes:
  "put_stream_chunks a iv cs ids bin st = Inr st'
     \<longleftrightarrow> (\<exists>ws. stream_writes iv cs ids bin = Inr ws \<and> put_all a ws st = Inr st')"
  by (induction ids arbitrary: bin st)
     (fastforce simp: res_simps put_chunk_writes put_all_append)+

lemma put_ptr_zip:
  assumes "length ids \<le> length chunks"
  shows "put_ptr_chunks a iv cs ids chunks st
    = foldE (\<lambda>p. put_chunk a iv (fst p * cs) (snd p)) (zip ids chunks) st"
proof -
  have len: "length (zip ids chunks) = length ids" using assms by simp
  have "put_ptr_chunks a iv cs ids chunks st
      = foldE (\<lambda>i. (\<lambda>p. put_chunk a iv (fst p * cs) (snd p)) (zip ids chunks ! i)) [0..<length (zip ids chunks)] st"
    unfolding put_ptr_chunks_def len by (rule foldE_cong) (use assms in \<open>simp add: vec_get_def\<close>)
  then show ?thesis using foldE_nth [of "\<lambda>p. put_chunk a iv (fst p * cs) (snd p)" "zip ids chunks" st] by simp
qed

lemma put_ptr_writes:
  "put_ptr_chunks a iv cs ids chunks st = Inr st'
     \<longleftrightarrow> (\<exists>ws. ptr_writes iv cs ids chunks = Inr ws \<and> put_all a ws st = Inr st')"
proof (cases "length ids \<le> length chunks")
  case True
  let ?f = "\<lambda>(c, chunk). chunk_writes iv cs c chunk"
  have "put_ptr_chunks a iv cs ids chunks st = foldE (\<lambda>p. put_all a (?f p)) (zip ids chunks) st"
    unfolding put_ptr_zip [OF True] by (rule foldE_cong) (simp add: put_chunk_writes split_beta)
  also have "\<dots> = put_all a (concat (map ?f (zip ids chunks))) st"
    by (rule put_all_concat)
  finally show ?thesis using True by (simp add: ptr_writes_def)
next
  case False
  then have "length chunks \<in> set [0..<length ids]" by simp
  then have "put_ptr_chunks a iv cs ids chunks st \<noteq> Inr st'"
    unfolding put_ptr_chunks_def by (auto dest!: foldE_Inr_each simp: vec_get_def)
  with False show ?thesis by (simp add: ptr_writes_def)
qed

lemma update_writes:
  "update rm kv_id server_id bin st cmd is_vector a = Inr st'
     \<longleftrightarrow> (\<exists>ws. writes rm kv_id server_id is_vector cmd bin = Inr ws \<and> put_all a ws st = Inr st')"
  by (simp add: update_def writes_def res_simps put_pairs_writes put_stream_writes put_ptr_writes) 
     (auto; blast)

section \<open>Observing a store\<close>

fun store_obs :: "'v::zero store \<Rightarrow> u64 \<Rightarrow> 'v" where
  "store_obs (MapStore m) k = (case m k of None \<Rightarrow> 0 | Some v \<Rightarrow> v)"
| "store_obs (VecStore xs) k = nth_or 0 xs (unat k)"

text \<open>The slots that \<^verbatim>\<open>operator[]\<close> may touch.\<close>

fun store_valid :: "'v store \<Rightarrow> u64 \<Rightarrow> bool" where
  "store_valid (MapStore m) k = True"
| "store_valid (VecStore xs) k = (unat k < length xs)"

lemma store_index_ok:
  "store_valid st k \<Longrightarrow> \<exists>st'. store_index st k = Inr (store_obs st k, st') \<and> store_obs st' = store_obs st
     \<and> store_valid st' = store_valid st"
  by (cases st) (auto simp: vec_get_def nth_or_def fun_eq_iff split: option.splits)

lemma store_index_error: "\<not> store_valid st k \<Longrightarrow> store_index st k = Inl OutOfRange"
  by (cases st) (auto simp: vec_get_def)

definition put_val :: "bool \<Rightarrow> 'v::{zero,plus} \<Rightarrow> 'v \<Rightarrow> 'v" where
  "put_val is_assign old v = (if is_assign then v else old + v)"

lemma unat_neq: "x \<noteq> k \<longleftrightarrow> unat (x :: u64) \<noteq> unat k"
  by (simp add: word_unat_eq_iff)

lemma store_put_valid: "store_put a k v st = Inr st' \<Longrightarrow> store_valid st k \<and> store_valid st' = store_valid st"
  by (cases st) (auto simp: store_put_def vec_get_def vec_set_def fun_eq_iff split: option.splits if_splits)

lemma store_put_obs:
  "store_put a k v st = Inr st' \<Longrightarrow> store_obs st' = (store_obs st)(k := put_val a (store_obs st k) v)"
  by (cases st) (auto simp: store_put_def put_val_def vec_get_def vec_set_def nth_or_def fun_eq_iff unat_neq
      split: option.splits if_splits)

lemma store_put_total: "store_valid st k \<Longrightarrow> \<exists>st'. store_put a k v st = Inr st'"
  by (cases st) (auto simp: store_put_def vec_get_def vec_set_def split: option.splits if_splits)

lemma put_all_valid:
  "put_all a ws st = Inr st' \<Longrightarrow> store_valid st' = store_valid st \<and> (\<forall>w \<in> set ws. store_valid st (fst w))"
proof (induction ws arbitrary: st)
  case (Cons w ws)
  obtain k v where w: "w = (k, v)" by fastforce
  then show ?case using Cons by (auto simp: res_simps dest!: store_put_valid Cons.IH)
qed simp

lemma put_all_total: "\<forall>w \<in> set ws. store_valid st (fst w) \<Longrightarrow> \<exists>st'. put_all a ws st = Inr st'"
proof (induction ws arbitrary: st)
  case (Cons w ws)
  obtain k v where w: "w = (k, v)" by fastforce
  with Cons.prems obtain st1 where st1: "store_put a k v st = Inr st1"
    using store_put_total [of st k a v] by auto
  then show ?case using Cons store_put_valid [OF st1] w by simp
qed simp

definition delta :: "(u64 \<times> 'v::comm_monoid_add) list \<Rightarrow> u64 \<Rightarrow> 'v" where
  "delta ws k = sum_list (map snd (filter (\<lambda>w. fst w = k) ws))"

lemma delta_Nil [simp]: "delta [] k = 0"
  by (simp add: delta_def)

lemma delta_append: "delta (xs @ ys) k = delta xs k + delta ys k"
  by (simp add: delta_def)

lemma put_all_add_obs:
  "put_all False ws st = Inr st' \<Longrightarrow> store_obs st' k = store_obs st k + delta ws k"
proof (induction ws arbitrary: st)
  case (Cons w ws)
  obtain j v where w: "w = (j, v)" by fastforce
  with Cons obtain st1 where st1: "store_put False j v st = Inr st1" "put_all False ws st1 = Inr st'"
    by (auto simp: res_simps)
  then show ?case using Cons.IH [of st1] store_put_obs [OF st1(1)] w
    by (auto simp: delta_def put_val_def ac_simps)
qed simp

text \<open>What a pull answers: the keys (or chunk ids) that it names and the slots that it reads.\<close>

definition chunk_slots :: "RangeManager \<Rightarrow> nat \<Rightarrow> u64 \<Rightarrow> u64 \<Rightarrow> u64 \<Rightarrow> u64 list \<Rightarrow> error + u64 list" where
  "chunk_slots rm kv_id interval cs cn ids =
     bindE (mapE (\<lambda>c. bindE (real_chunk_size rm kv_id cs cn c) (\<lambda>n.
              Inr (map (\<lambda>i. c * cs + of_nat i - interval) [0..<nat n]))) ids) (\<lambda>ss. Inr (concat ss))"

definition reads :: "RangeManager \<Rightarrow> nat \<Rightarrow> nat \<Rightarrow> bool \<Rightarrow> int \<Rightarrow> 'v bin \<Rightarrow> error + (u64 list \<times> u64 list)" where
  "reads rm kv_id server_id is_vector cmd bin =
     bindE (interval_of rm kv_id server_id is_vector) (\<lambda>interval.
     if cmd = 0 then bindE (get_keys bin) (\<lambda>(keys, bin). Inr (keys, map (\<lambda>k. k - interval) keys))
     else if cmd = 2 then bindE (get_kv_ptr bin) (\<lambda>(p, bin). Inr (kv_keys p, map (\<lambda>k. k - interval) (kv_keys p)))
     else if cmd = 1 \<or> cmd = 3 then
       bindE (GetChunkSize kv_id rm) (\<lambda>cs. bindE (GetChunkNum kv_id rm) (\<lambda>cn.
       bindE (if cmd = 1 then get_keys bin else bindE (get_chunks_ptr bin) (\<lambda>((ids, chunks), bin). Inr (ids, bin)))
         (\<lambda>(ids, bin). bindE (chunk_slots rm kv_id interval cs cn ids) (\<lambda>slots. Inr (ids, slots)))))
     else Inl (UnknownCmd cmd))"

lemma index_all_ok:
  "\<forall>k \<in> set ks. store_valid st k \<Longrightarrow> \<exists>st'. index_all ks st = Inr (map (store_obs st) ks, st')
     \<and> store_obs st' = store_obs st \<and> store_valid st' = store_valid st"
proof (induction ks arbitrary: st)
  case (Cons k ks)
  then obtain st1 where st1: "store_index st k = Inr (store_obs st k, st1)" "store_obs st1 = store_obs st"
    "store_valid st1 = store_valid st" using store_index_ok [of st k] by auto
  then show ?case using Cons.IH [of st1] Cons.prems by auto
qed simp

lemma index_all_valid: "index_all ks st = Inr r \<Longrightarrow> \<forall>k \<in> set ks. store_valid st k"
proof (induction ks arbitrary: st r)
  case (Cons k ks)
  then have v: "store_valid st k" using store_index_error [of st k] by (fastforce simp: res_simps)
  then obtain st1 where "store_index st k = Inr (store_obs st k, st1)" "store_valid st1 = store_valid st"
    using store_index_ok [of st k] by auto
  then show ?case using Cons.IH [of st1] Cons.prems v by (fastforce simp: res_simps)
qed simp

lemma index_all_Inr:
  "index_all ks st = Inr (vs, st') \<longleftrightarrow> (\<forall>k \<in> set ks. store_valid st k) \<and> vs = map (store_obs st) ks
     \<and> index_all ks st = Inr (map (store_obs st) ks, st')"
  using index_all_ok [of ks st] index_all_valid [of ks st] by force

lemma index_all_append:
  "index_all (xs @ ys) st = bindE (index_all xs st) (\<lambda>(us, st). bindE (index_all ys st) (\<lambda>(vs, st). Inr (us @ vs, st)))"
proof (induction xs arbitrary: st)
  case Nil
  then show ?case by (cases "index_all ys st") auto
next
  case (Cons x xs)
  show ?case
  proof (cases "store_index st x")
    case (Inr p)
    then obtain v st1 where p: "store_index st x = Inr (v, st1)" by (cases p) auto
    show ?thesis by (cases "index_all xs st1") (auto simp: p Cons.IH bindE_assoc split_beta)
  qed simp
qed

lemma retrieve_chunks_slots:
  "retrieve_chunks rm kv_id iv cs cn ids st = Inr (res, st')
     \<longleftrightarrow> (\<exists>slots vals. chunk_slots rm kv_id iv cs cn ids = Inr slots \<and> index_all slots st = Inr (vals, st')
           \<and> res = \<lparr>kv_keys = ids, kv_vals = vals\<rparr>)"
proof (induction ids arbitrary: st res st')
  case Nil
  then show ?case by (auto simp: chunk_slots_def empty_KVPairs_def)
next
  case (Cons c ids)
  show ?case
    by (auto simp: Cons.IH res_simps chunk_slots_def index_all_append)
qed

lemma retrieve_reads:
  "retrieve rm kv_id server_id bin st cmd is_vector = Inr (res, st')
     \<longleftrightarrow> (\<exists>keys slots vals. reads rm kv_id server_id is_vector cmd bin = Inr (keys, slots)
           \<and> index_all slots st = Inr (vals, st') \<and> res = \<lparr>kv_keys = keys, kv_vals = vals\<rparr>)"
  by (auto simp: retrieve_def reads_def retrieve_pairs_def res_simps retrieve_chunks_slots split: if_splits)

lemma retrieve_obs:
  assumes "retrieve rm kv_id server_id bin st cmd is_vector = Inr (res, st')"
  shows "\<exists>keys slots. reads rm kv_id server_id is_vector cmd bin = Inr (keys, slots)
           \<and> res = \<lparr>kv_keys = keys, kv_vals = map (store_obs st) slots\<rparr>"
    and "store_obs st' = store_obs st" and "store_valid st' = store_valid st"
proof -
  obtain keys slots vals where *: "reads rm kv_id server_id is_vector cmd bin = Inr (keys, slots)"
    "index_all slots st = Inr (vals, st')" "res = \<lparr>kv_keys = keys, kv_vals = vals\<rparr>"
    using assms by (auto simp: retrieve_reads)
  from *(2) have "\<forall>k \<in> set slots. store_valid st k" by (rule index_all_valid)
  with index_all_ok [of slots st] * show "\<exists>keys slots. reads rm kv_id server_id is_vector cmd bin = Inr (keys, slots)
           \<and> res = \<lparr>kv_keys = keys, kv_vals = map (store_obs st) slots\<rparr>"
    and "store_obs st' = store_obs st" and "store_valid st' = store_valid st"
    by auto
qed

lemma retrieve_total:
  assumes "reads rm kv_id server_id is_vector cmd bin = Inr (keys, slots)" "\<forall>k \<in> set slots. store_valid st k"
  shows "\<exists>st'. retrieve rm kv_id server_id bin st cmd is_vector
      = Inr (\<lparr>kv_keys = keys, kv_vals = map (store_obs st) slots\<rparr>, st')"
  using assms index_all_ok [of slots st] by (force simp: retrieve_reads)

lemma update_total:
  assumes "writes rm kv_id server_id is_vector cmd bin = Inr ws" "\<forall>w \<in> set ws. store_valid st (fst w)"
  shows "\<exists>st'. update rm kv_id server_id bin st cmd is_vector a = Inr st'"
  using assms put_all_total [of ws st a] by (auto simp: update_writes)

lemma update_valid: "update rm kv_id server_id bin st cmd is_vector a = Inr st' \<Longrightarrow> store_valid st' = store_valid st"
  by (auto simp: update_writes dest: put_all_valid)

text \<open>The effect of a push message as a function of the slot; 0 for a message that \<^verbatim>\<open>update\<close> refuses.\<close>

definition push_delta ::
    "RangeManager \<Rightarrow> nat \<Rightarrow> nat \<Rightarrow> bool \<Rightarrow> int \<times> 'v::comm_monoid_add bin \<Rightarrow> u64 \<Rightarrow> 'v" where
  "push_delta rm kv_id server_id is_vector m k =
     (case writes rm kv_id server_id is_vector (fst m) (snd m) of Inl e \<Rightarrow> 0 | Inr ws \<Rightarrow> delta ws k)"

lemma update_obs:
  "update rm kv_id server_id bin st cmd is_vector False = Inr st'
     \<Longrightarrow> store_obs st' k = store_obs st k + push_delta rm kv_id server_id is_vector (cmd, bin) k"
  by (auto simp: update_writes push_delta_def dest: put_all_add_obs)

section \<open>The interface of an additive store\<close>

locale additive_store =
  fixes apply_push :: "'m \<Rightarrow> 's \<Rightarrow> error + 's"
    and obs :: "'s \<Rightarrow> 'k \<Rightarrow> 'v::comm_monoid_add"
    and change :: "'m \<Rightarrow> 'k \<Rightarrow> 'v"
  assumes apply_obs: "apply_push m s = Inr s' \<Longrightarrow> obs s' k = obs s k + change m k"
begin

lemma fold_obs:
  "foldE apply_push ms s = Inr s' \<Longrightarrow> obs s' k = obs s k + (\<Sum>m\<leftarrow>ms. change m k)"
  by (induction ms arbitrary: s) (auto simp: res_simps apply_obs ac_simps)

lemma fold_order_irrelevant:
  assumes "mset ms = mset ms'" "foldE apply_push ms s = Inr s1" "foldE apply_push ms' s = Inr s2"
  shows "obs s1 k = obs s2 k"
proof -
  have "(\<Sum>m\<leftarrow>ms. change m k) = (\<Sum>m\<leftarrow>ms'. change m k)"
    using assms(1) by (metis mset_map sum_mset_sum_list)
  then show ?thesis using fold_obs assms(2,3) by metis
qed

end

interpretation add_update: additive_store
  "\<lambda>m st. update rm kv_id server_id (snd m) st (fst m) is_vector False" store_obs
  "push_delta rm kv_id server_id is_vector"
  for rm kv_id server_id is_vector
  by unfold_locales (auto dest: update_obs)

section \<open>Pushes and pulls as messages\<close>

text \<open>
  The messages that a worker sends for a push, one constructor for every command: single keys (0, and 2 by pointer) and chunks (1, and 3 by pointer), with the stream that \<^verbatim>\<open>update\<close> reads; and the keys
  and values that a message means, given the chunk size \<open>c\<close>. These and the following are the reference for \<^verbatim>\<open>update\<close> and \<^verbatim>\<open>retrieve\<close>; they speak of keys, which are numbers, and know nothing of slots, words and offsets.
\<close>

datatype 'v push_message =
    MPairs "u64 list" "'v list"
  | MChunks "u64 list" "'v list list"
  | MPairsPtr "u64 list" "'v list"
  | MChunksPtr "u64 list" "'v list list"

fun push_cmd :: "'v push_message \<Rightarrow> int" where
  "push_cmd (MPairs ks vs) = 0" | "push_cmd (MChunks ids chunks) = 1" | "push_cmd (MPairsPtr ks vs) = 2" | "push_cmd (MChunksPtr ids chunks) = 3"

fun push_bin :: "'v push_message \<Rightarrow> 'v bin" where
  "push_bin (MPairs ks vs) = put_keys ks @ put_vals vs"
| "push_bin (MChunks ids chunks) = put_keys ids @ concat (map put_vals chunks)"
| "push_bin (MPairsPtr ks vs) = [FKVPtr \<lparr>kv_keys = ks, kv_vals = vs\<rparr>]"
| "push_bin (MChunksPtr ids chunks) = [FChunksPtr (ids, chunks)]"

definition chunk_pairs :: "nat \<Rightarrow> u64 \<Rightarrow> 'v list \<Rightarrow> (nat \<times> 'v) list" where
  "chunk_pairs c ch vals = zip [unat ch * c..<unat ch * c + length vals] vals"

fun pushed_pairs :: "nat \<Rightarrow> 'v push_message \<Rightarrow> (nat \<times> 'v) list" where
  "pushed_pairs c (MPairs ks vs) = zip (map unat ks) vs"
| "pushed_pairs c (MChunks ids chunks) = concat (map2 (chunk_pairs c) ids chunks)"
| "pushed_pairs c (MPairsPtr ks vs) = zip (map unat ks) vs"
| "pushed_pairs c (MChunksPtr ids chunks) = concat (map2 (chunk_pairs c) ids chunks)"

fun push_fits :: "'v push_message \<Rightarrow> bool" where
  "push_fits (MPairs ks vs) \<longleftrightarrow> length ks \<le> length vs"
| "push_fits (MChunks ids chunks) \<longleftrightarrow> length ids = length chunks"
| "push_fits (MPairsPtr ks vs) \<longleftrightarrow> length ks \<le> length vs"
| "push_fits (MChunksPtr ids chunks) \<longleftrightarrow> length ids = length chunks"

datatype 'v pull_message = RKeys "u64 list" | RChunks "u64 list" | RKeysPtr "u64 list" "'v list" | RChunksPtr "u64 list" "'v list list"

fun pull_cmd :: "'v pull_message \<Rightarrow> int" where
  "pull_cmd (RKeys ks) = 0" | "pull_cmd (RChunks ids) = 1" | "pull_cmd (RKeysPtr ks vs) = 2" | "pull_cmd (RChunksPtr ids chunks) = 3"

fun pull_bin :: "'v pull_message \<Rightarrow> 'v bin" where
  "pull_bin (RKeys ks) = put_keys ks"
| "pull_bin (RChunks ids) = put_keys ids"
| "pull_bin (RKeysPtr ks vs) = [FKVPtr \<lparr>kv_keys = ks, kv_vals = vs\<rparr>]"
| "pull_bin (RChunksPtr ids chunks) = [FChunksPtr (ids, chunks)]"

fun pull_ids :: "'v pull_message \<Rightarrow> u64 list" where
  "pull_ids (RKeys ks) = ks" | "pull_ids (RChunks ids) = ids" | "pull_ids (RKeysPtr ks vs) = ks" | "pull_ids (RChunksPtr ids chunks) = ids"

definition chunk_keys :: "nat \<Rightarrow> nat \<Rightarrow> u64 \<Rightarrow> nat list" where
  "chunk_keys N c ch = [unat ch * c..<min (Suc (unat ch) * c) N]"

fun pulled_keys :: "nat \<Rightarrow> nat \<Rightarrow> 'v pull_message \<Rightarrow> nat list" where
  "pulled_keys N c (RKeys ks) = map unat ks" | "pulled_keys N c (RChunks ids) = concat (map (chunk_keys N c) ids)"
| "pulled_keys N c (RKeysPtr ks vs) = map unat ks" | "pulled_keys N c (RChunksPtr ids chunks) = concat (map (chunk_keys N c) ids)"

fun pull_fits :: "nat \<Rightarrow> nat \<Rightarrow> 'v pull_message \<Rightarrow> bool" where
  "pull_fits N c (RChunks ids) \<longleftrightarrow> (\<forall>ch \<in> set ids. unat ch < num_chunks N c)"
| "pull_fits N c (RChunksPtr ids chunks) \<longleftrightarrow> (\<forall>ch \<in> set ids. unat ch < num_chunks N c)"
| "pull_fits N c q \<longleftrightarrow> True"

text \<open>What is in a slot after the values \<open>vs\<close> have been written to it, one after the other. Nothing is assumed of the addition, so this holds for floating-point values too.\<close>

definition after_writes :: "bool \<Rightarrow> 'v::plus \<Rightarrow> 'v list \<Rightarrow> 'v" where
  "after_writes is_assign old vs = (if is_assign then last (old # vs) else foldl (+) old vs)"

definition values_of :: "nat \<Rightarrow> (nat \<times> 'v) list \<Rightarrow> 'v list" where
  "values_of k ps = map snd (filter (\<lambda>p. fst p = k) ps)"

lemma put_all_after:
  fixes st :: "'v::{zero,plus} store"
  shows "put_all a ws st = Inr st' \<Longrightarrow> store_obs st' k = after_writes a (store_obs st k) (map snd (filter (\<lambda>w. fst w = k) ws))"
proof (induction ws arbitrary: st)
  case Nil
  then show ?case by (simp add: after_writes_def)
next
  case (Cons w ws)
  obtain j v where w: "w = (j, v)" by fastforce
  with Cons.prems obtain st1 where st1: "store_put a j v st = Inr st1" "put_all a ws st1 = Inr st'" by (auto simp: res_simps)
  then show ?case using Cons.IH [OF st1(2)] store_put_obs [OF st1(1)] w by (auto simp: after_writes_def put_val_def)
qed

lemma chunk_writes_pairs: "chunk_writes iv (of_nat c) ch vals = map (\<lambda>(k, v). (of_nat k - iv, v)) (chunk_pairs c ch vals)"
  by (rule nth_equalityI) (simp_all add: chunk_writes_def chunk_pairs_def)

lemma stream_writes_pairs:
  "length ids = length chunks \<Longrightarrow> stream_writes iv (of_nat c) ids (concat (map put_vals chunks)) = Inr (map (\<lambda>(k, v). (of_nat k - iv, v)) (concat (map2 (chunk_pairs c) ids chunks)))"
  by (induction ids chunks rule: list_induct2) (simp_all add: chunk_writes_pairs)

lemma ptr_writes_pairs:
  "length ids = length chunks \<Longrightarrow> ptr_writes iv (of_nat c) ids chunks = Inr (map (\<lambda>(k, v). (of_nat k - iv, v)) (concat (map2 (chunk_pairs c) ids chunks)))"
  by (auto simp: ptr_writes_def map_concat chunk_writes_pairs intro!: arg_cong [of _ _ concat])

lemma pair_writes_pairs: "length ks \<le> length vs \<Longrightarrow> pair_writes iv ks vs = Inr (map (\<lambda>(k, v). (of_nat k - iv, v)) (zip (map unat ks) vs))"
  by (simp add: pair_writes_def) (rule nth_equalityI, simp_all)

lemma writes_pushed:
  assumes "interval_of rm kv_id server_id is_vector = Inr iv" "GetChunkSize kv_id rm = Inr (of_nat c)" "push_fits m"
  shows "writes rm kv_id server_id is_vector (push_cmd m) (push_bin m) = Inr (map (\<lambda>(k, v). (of_nat k - iv, v)) (pushed_pairs c m))"
  using assms by (cases m) (simp_all add: writes_def pair_writes_pairs stream_writes_pairs ptr_writes_pairs)

lemma narrow_u32: "n < 2 ^ 31 \<Longrightarrow> sint (ucast (of_nat n :: u64) :: u32) = int n"
  using sint_ucast_u32 [of "of_nat n"] unat_of_nat_u64 [of n] by (simp flip: unat_eq_nat_uint add: uint_nat)

lemma chunk_end:
  assumes "0 < c" "0 < N" "ch < num_chunks N c"
  shows "min (Suc ch * c) N = ch * c + (if ch = num_chunks N c - 1 then if N mod c \<noteq> 0 then N mod c else c else c)"
proof (cases "ch = num_chunks N c - 1")
  case True
  then show ?thesis using last_chunk_end [OF assms(1,2)] num_chunks_cover [OF assms(1), of N] num_chunks_pos [of N c] by simp
next
  case False
  then have "Suc ch \<le> num_chunks N c - 1" using assms(3) by simp
  then have "Suc ch * c \<le> (num_chunks N c - 1) * c" by (rule mult_le_mono1)
  then show ?thesis using num_chunks_minus [OF assms(2), of c] False by simp
qed

lemma chunk_slots_keys:
  assumes t: "table_for rm kv_id N c s" and p: "params_ok N c s" and ids: "\<forall>ch \<in> set ids. unat ch < num_chunks N c"
  shows "chunk_slots rm kv_id iv (of_nat c) (of_nat (num_chunks N c)) ids = Inr (map (\<lambda>k. of_nat k - iv) (concat (map (chunk_keys N c) ids)))"
proof -
  have c: "0 < c" "c < 2 ^ 31" "0 < N" "N < 2 ^ 64" using p by (simp_all add: params_ok_def)
  have num: "unat (of_nat (num_chunks N c) - 1 :: u64) = num_chunks N c - 1"
  proof -
    have "unat (of_nat (num_chunks N c) :: u64) = num_chunks N c" using num_chunks_le [of N c] c by (intro unat_of_nat_u64) linarith
    then show ?thesis using num_chunks_pos [of N c] by (simp add: unat_sub_if' del: num_chunks_pos)
  qed
  have one: "bindE (real_chunk_size rm kv_id (of_nat c) (of_nat (num_chunks N c)) ch) (\<lambda>n. Inr (map (\<lambda>i. ch * of_nat c + of_nat i - iv) [0..<nat n]))
      = Inr (map (\<lambda>k. of_nat k - iv) (chunk_keys N c ch))" if "unat ch < num_chunks N c" for ch
  proof -
    define size where "size = (if unat ch = num_chunks N c - 1 then if N mod c \<noteq> 0 then N mod c else c else c)"
    have u: "unat (of_nat c :: u64) = c" "unat (of_nat N :: u64) = N" using c by (simp_all add: unat_of_nat_u64)
    have m: "unat (of_nat (N mod c) :: u64) = N mod c" using c(4) mod_less_eq_dividend [of N c] by (intro unat_of_nat_u64) linarith
    have "unat ((of_nat N :: u64) mod of_nat c) = unat (of_nat (N mod c) :: u64)" unfolding m unat_mod_distrib u ..
    then have "(of_nat N :: u64) mod of_nat c = of_nat (N mod c)" by (rule word_unat_eq_iff [THEN iffD2])
    moreover have "of_nat (N mod c) \<noteq> (0 :: u64) \<longleftrightarrow> N mod c \<noteq> 0" unfolding unat_eq_0 [symmetric] m ..
    moreover have "(of_nat c :: u64) \<noteq> 0" unfolding unat_eq_0 [symmetric] u using c(1) by simp
    then have "GetLastChunkSize kv_id rm = Inr (if (of_nat N :: u64) mod of_nat c \<noteq> 0 then of_nat N mod of_nat c else of_nat c)"
      using t by (simp add: GetLastChunkSize_def GetMaxKey_def GetChunkSize_def vec_get_def table_for_def rm_wf_def)
    ultimately have last: "GetLastChunkSize kv_id rm = Inr (of_nat (if N mod c \<noteq> 0 then N mod c else c))" by presburger
    have narrow: "sint (ucast (of_nat n :: u64) :: u32) = int n" if "n < 2 ^ 31" for n using that by (simp add: narrow_u32)
    have "ch = of_nat (num_chunks N c) - 1 \<longleftrightarrow> unat ch = num_chunks N c - 1" by (simp only: word_unat_eq_iff num)
    then have "real_chunk_size rm kv_id (of_nat c) (of_nat (num_chunks N c)) ch = Inr (int size)" using narrow [of c] narrow [of "N mod c"] c(1,2) less_trans [OF mod_less_divisor c(2)]
      by (simp add: real_chunk_size_def last size_def)
    moreover have "min (Suc (unat ch) * c) N = unat ch * c + size" using chunk_end [OF c(1,3) that] by (simp add: size_def)
    then have "chunk_keys N c ch = [unat ch * c..<unat ch * c + size]" by (simp add: chunk_keys_def)
    ultimately show ?thesis by (auto intro!: nth_equalityI)
  qed
  then have "mapE (\<lambda>ch. bindE (real_chunk_size rm kv_id (of_nat c) (of_nat (num_chunks N c)) ch) (\<lambda>n. Inr (map (\<lambda>i. ch * of_nat c + of_nat i - iv) [0..<nat n]))) ids
    = Inr (map (\<lambda>ch. map (\<lambda>k. of_nat k - iv) (chunk_keys N c ch)) ids)" using ids by (induction ids) simp_all
  then show ?thesis by (simp add: chunk_slots_def map_concat o_def)
qed

lemma reads_pulled:
  assumes t: "table_for rm kv_id N c s" and p: "params_ok N c s" and iv: "interval_of rm kv_id server_id is_vector = Inr iv" and q: "pull_fits N c q"
  shows "reads rm kv_id server_id is_vector (pull_cmd q) (pull_bin q) = Inr (pull_ids q, map (\<lambda>k. of_nat k - iv) (pulled_keys N c q))"
proof -
  have get: "GetChunkSize kv_id rm = Inr (of_nat c)" "GetChunkNum kv_id rm = Inr (of_nat (num_chunks N c))"
    using t by (simp_all add: GetChunkSize_def GetChunkNum_def vec_get_def table_for_def rm_wf_def)
  show ?thesis using q by (cases q) (simp_all add: reads_def iv get chunk_slots_keys [OF t p])
qed

lemma after_append: "after_writes a (after_writes a old us) vs = after_writes a old (us @ vs)"
  by (cases vs rule: rev_cases) (auto simp: after_writes_def)

lemma values_of_append: "values_of k (ps @ qs) = values_of k ps @ values_of k qs"
  by (simp add: values_of_def)

lemma updates_after:
  assumes iv: "interval_of rm kv_id server_id is_vector = Inr iv" and cs: "GetChunkSize kv_id rm = Inr (of_nat c)" and N: "N < 2 ^ 64"
    and "\<forall>m \<in> set ms. push_fits m \<and> (\<forall>p \<in> set (pushed_pairs c m). fst p < N \<and> store_valid st (of_nat (fst p) - iv))"
  shows "\<exists>st'. foldE (\<lambda>m st. update rm kv_id server_id (push_bin m) st (push_cmd m) is_vector a) ms st = Inr st' \<and> store_valid st' = store_valid st
    \<and> (\<forall>k < N. store_obs st' (of_nat k - iv) = after_writes a (store_obs st (of_nat k - iv)) (values_of k (concat (map (pushed_pairs c) ms))))"
  using assms(4)
proof (induction ms arbitrary: st)
  case Nil
  then show ?case by (simp add: after_writes_def values_of_def)
next
  case (Cons m ms)
  let ?ws = "map (\<lambda>(k, v). (of_nat k - iv, v)) (pushed_pairs c m)"
  have ws: "writes rm kv_id server_id is_vector (push_cmd m) (push_bin m) = Inr ?ws" using Cons.prems by (intro writes_pushed [OF iv cs]) simp
  obtain st1 where st1: "update rm kv_id server_id (push_bin m) st (push_cmd m) is_vector a = Inr st1" using update_total [OF ws, of st a] Cons.prems by fastforce
  have put: "put_all a ?ws st = Inr st1" using st1 ws by (simp add: update_writes)
  have obs: "store_obs st1 (of_nat k - iv) = after_writes a (store_obs st (of_nat k - iv)) (values_of k (pushed_pairs c m))" if "k < N" for k
  proof -
    have "of_nat (fst p) - iv = (of_nat k - iv :: u64) \<longleftrightarrow> fst p = k" if "p \<in> set (pushed_pairs c m)" for p
    proof -
      have "fst p < 2 ^ 64" "k < 2 ^ 64" using Cons.prems that \<open>k < N\<close> N by fastforce+
      then have "unat (of_nat (fst p) :: u64) = fst p" "unat (of_nat k :: u64) = k" by (simp_all add: unat_of_nat_u64)
      then show ?thesis by (metis diff_add_cancel)
    qed
    then have "map snd (filter (\<lambda>w. fst w = of_nat k - iv) ?ws) = values_of k (pushed_pairs c m)" by (simp add: values_of_def filter_map o_def split_beta cong: filter_cong)
    then show ?thesis using put_all_after [OF put, of "of_nat k - iv"] by simp
  qed
  have val: "store_valid st1 = store_valid st" by (rule update_valid [OF st1])
  show ?case using Cons.IH [of st1] Cons.prems st1 obs val by (auto simp: values_of_append after_append)
qed

section \<open>Properties\<close>

text \<open>
  C8. What a server holds and answers, for all four commands of \<^verbatim>\<open>update\<close> and \<^verbatim>\<open>retrieve\<close>, both kinds of storage and both modes. After any sequence of pushes, of single keys or of chunks, through the stream or by pointer,
  with keys that may repeat within a message and between messages and chunks that may be short, a pull of keys or of chunks succeeds. For every key that it names, and for the keys \<open>ch * c\<close> to
  \<open>min (Suc ch * c) N - 1\<close> of every chunk that it names, it answers with the last value that was assigned to the key, or with the old value plus the pushed values, added one by one in the order in which the pushes were applied. No law of
  the addition is used, so this is true of floating-point values. The pull changes nothing that a later pull could see.
\<close>

theorem pull_after_pushes:
  fixes st :: "'v::{zero,plus} store"
  assumes rm: "rm_wf rm0" "rm_num_servers rm0 = int s" "params_ok (unat max_key) c s" "SetMaxKeyAndChunkSize kv_id max_key (int c) rm0 = Inr rm"
    and iv: "interval_of rm kv_id server_id is_vector = Inr iv"
    and fits: "\<forall>m \<in> set ms. push_fits m" "pull_fits (unat max_key) c q"
    and served: "\<forall>k \<in> fst ` set (concat (map (pushed_pairs c) ms)) \<union> set (pulled_keys (unat max_key) c q). k < unat max_key \<and> store_valid st (of_nat k - iv)"
  shows "\<exists>st1 st2. foldE (\<lambda>m st. update rm kv_id server_id (push_bin m) st (push_cmd m) is_vector is_assign) ms st = Inr st1
    \<and> retrieve rm kv_id server_id (pull_bin q) st1 (pull_cmd q) is_vector = Inr (\<lparr>kv_keys = pull_ids q,
        kv_vals = map (\<lambda>k. after_writes is_assign (store_obs st (of_nat k - iv)) (values_of k (concat (map (pushed_pairs c) ms)))) (pulled_keys (unat max_key) c q)\<rparr>, st2)
    \<and> store_obs st2 = store_obs st1"
proof -
  let ?N = "unat max_key"
  have t: "table_for rm kv_id ?N c s" using SetMaxKeyAndChunkSize_table [OF rm] .
  have cs: "GetChunkSize kv_id rm = Inr (of_nat c)" using t by (simp add: GetChunkSize_def vec_get_def table_for_def rm_wf_def)
  have "\<forall>m \<in> set ms. push_fits m \<and> (\<forall>p \<in> set (pushed_pairs c m). fst p < ?N \<and> store_valid st (of_nat (fst p) - iv))" using fits(1) served by fastforce
  then obtain st1 where st1: "foldE (\<lambda>m st. update rm kv_id server_id (push_bin m) st (push_cmd m) is_vector is_assign) ms st = Inr st1" "store_valid st1 = store_valid st"
    "\<And>k. k < ?N \<Longrightarrow> store_obs st1 (of_nat k - iv) = after_writes is_assign (store_obs st (of_nat k - iv)) (values_of k (concat (map (pushed_pairs c) ms)))"
    using updates_after [OF iv cs unat_u64_bound, of ms max_key st is_assign] by blast
  have reads: "reads rm kv_id server_id is_vector (pull_cmd q) (pull_bin q) = Inr (pull_ids q, map (\<lambda>k. of_nat k - iv) (pulled_keys ?N c q))" by (rule reads_pulled [OF t rm(3) iv fits(2)])
  have "\<forall>k \<in> set (map (\<lambda>k. of_nat k - iv) (pulled_keys ?N c q)). store_valid st1 k" using served st1(2) by auto
  then obtain st2 where st2: "retrieve rm kv_id server_id (pull_bin q) st1 (pull_cmd q) is_vector
      = Inr (\<lparr>kv_keys = pull_ids q, kv_vals = map (store_obs st1) (map (\<lambda>k. of_nat k - iv) (pulled_keys ?N c q))\<rparr>, st2)" using retrieve_total [OF reads] by blast
  have "map (store_obs st1) (map (\<lambda>k. of_nat k - iv) (pulled_keys ?N c q)) = map (\<lambda>k. after_writes is_assign (store_obs st (of_nat k - iv)) (values_of k (concat (map (pushed_pairs c) ms)))) (pulled_keys ?N c q)"
    using st1(3) served by simp
  note answer = st2 [unfolded this]
  show ?thesis by (intro exI conjI) (rule st1(1), rule answer, rule retrieve_obs(2) [OF st2])
qed

text \<open>A vector store of the second of two servers: it adds a chunk of three, which is the last and shortest one, and two pairs for the key 11, and answers with the chunk.\<close>

theorem pull_after_pushes_witness:
  "\<exists>rm st1 st2. SetMaxKeyAndChunkSize 0 13 (int 5) two_servers = Inr rm
    \<and> foldE (\<lambda>m st. update rm 0 1 (push_bin m) st (push_cmd m) True False) [MChunks [2] [[1, 2, 3]], MPairsPtr [11, 11] [10, 100]] (VecStore [0, 0, 7 :: int]) = Inr st1
    \<and> retrieve rm 0 1 (pull_bin (RChunks [2] :: int pull_message)) st1 1 True = Inr (\<lparr>kv_keys = [2], kv_vals = [1, 112, 10]\<rparr>, st2)"
proof -
  obtain rm where rm: "SetMaxKeyAndChunkSize 0 13 (int 5) two_servers = Inr rm" using two_servers_set by blast
  have t: "table_for rm 0 13 5 2" using SetMaxKeyAndChunkSize_table [OF two_servers_ok rm] by simp
  have iv: "interval_of rm 0 1 True = Inr 10" using t by (simp add: interval_of_def GetServerInterval_def vec_get_def table_for_def key_range_def key_bound_def chunk_bound_def num_chunks_def rm_wf_def)
  let ?ms = "[MChunks [2] [[1, 2, 3]], MPairsPtr [11, 11] [10, 100]] :: int push_message list" and ?q = "RChunks [2] :: int pull_message"
  have fits: "\<forall>m \<in> set ?ms. push_fits m" "pull_fits (unat (13 :: u64)) 5 ?q" by (simp_all add: num_chunks_def)
  have keys: "concat (map (pushed_pairs 5) ?ms) = [(10, 1), (11, 2), (12, 3), (11, 10), (11, 100)]" "pulled_keys (unat (13 :: u64)) 5 ?q = [10, 11, 12]"
    by (simp_all add: chunk_pairs_def chunk_keys_def upt_rec)
  have served: "\<forall>k \<in> fst ` set (concat (map (pushed_pairs 5) ?ms)) \<union> set (pulled_keys (unat (13 :: u64)) 5 ?q). k < unat (13 :: u64) \<and> store_valid (VecStore [0, 0, 7 :: int]) (of_nat k - 10)"
    unfolding keys by simp
  show ?thesis using pull_after_pushes [OF two_servers_ok rm iv fits served, of False] rm unfolding keys by (auto simp: values_of_def after_writes_def nth_or_def)
qed

end
