(* ===== verification/Server_Base.thy ===== *)
theory Server_Base
  imports KV_Storage
begin

text \<open>
  The code that all servers share and the server without consistency control:
  \<^verbatim>\<open>ServerBase::Response\<close> and \<^verbatim>\<open>DefaultUpdateServer\<close> of \<^verbatim>\<open>kvstore/handles/basic_server.hpp\<close>.

  A handler takes the state of the server and a message and returns the new state with the messages it sends,
  each with its destination. \<open>serve_push\<close> and \<open>serve_pull\<close> are the two statements ``if the stream is
  not empty, update / retrieve and respond'' that the handlers of all three servers repeat.

  The second half holds the bookkeeping that the proofs on the BSP and the SSP server share: \<open>acc\<close>, the sum
  over the first \<open>K\<close> requests of every worker, and the locale-free description \<open>chan\<close> of one
  progress/count/buffer triple.
\<close>

section \<open>Model\<close>

type_synonym 'v out = "(int \<times> 'v bin) list"

definition consistency_control_off_magic :: int where
  "consistency_control_off_magic = 100"

definition with_min_clock_magic :: int where
  "with_min_clock_magic = 10"

text \<open>\<^verbatim>\<open>%\<close> of C++: the sign of the dividend.\<close>

definition c_rem :: "int \<Rightarrow> int \<Rightarrow> int" where
  "c_rem a b = sgn a * (\<bar>a\<bar> mod \<bar>b\<bar>)"

definition Response :: "nat \<Rightarrow> int \<Rightarrow> int \<Rightarrow> bool \<Rightarrow> int \<Rightarrow> 'v KVPairs \<Rightarrow> int \<Rightarrow> int \<times> 'v bin" where
  "Response kv_id ts cmd push src res min_clock =
     (src, [FInt (int kv_id), FInt ts, FInt cmd, FBool push, FInt src]
        @ (if cmd = 2 \<and> \<not> push then [FKVPtr res] else put_keys (kv_keys res) @ put_vals (kv_vals res))
        @ (if min_clock \<noteq> -1 then [FInt min_clock] else []))"

definition serve_push :: "RangeManager \<Rightarrow> nat \<Rightarrow> nat \<Rightarrow> int \<Rightarrow> int \<Rightarrow> int \<Rightarrow> 'v::{zero,plus} bin \<Rightarrow> bool \<Rightarrow> bool
    \<Rightarrow> 'v store \<Rightarrow> error + ('v store \<times> 'v out)" where
  "serve_push rm kv_id server_id ts cmd src bin is_vector is_assign store =
     (if bin \<noteq> [] then
        bindE (update rm kv_id server_id bin store cmd is_vector is_assign) (\<lambda>store.
        Inr (store, [Response kv_id ts cmd True src empty_KVPairs (-1)]))
      else Inr (store, []))"

definition serve_pull :: "RangeManager \<Rightarrow> nat \<Rightarrow> nat \<Rightarrow> int \<Rightarrow> int \<Rightarrow> int \<Rightarrow> 'v::zero bin \<Rightarrow> bool
    \<Rightarrow> 'v store \<Rightarrow> error + ('v store \<times> 'v out)" where
  "serve_pull rm kv_id server_id ts cmd src bin is_vector store =
     (if bin \<noteq> [] then
        bindE (retrieve rm kv_id server_id bin store cmd is_vector) (\<lambda>(res, store).
        Inr (store, [Response kv_id ts cmd False src res (-1)]))
      else Inr (store, []))"

record 'v DefaultUpdateServer =
  ds_kv_id :: nat
  ds_server_id :: nat
  ds_store :: "'v store"
  ds_is_vector :: bool
  ds_is_assign :: bool

definition default_Process :: "RangeManager \<Rightarrow> nat \<Rightarrow> int \<Rightarrow> 'v::{zero,plus} bin \<Rightarrow> 'v DefaultUpdateServer
    \<Rightarrow> error + ('v DefaultUpdateServer \<times> 'v out)" where
  "default_Process rm kv_id ts bin s =
     bindE (get_int bin) (\<lambda>(cmd, bin). bindE (get_bool bin) (\<lambda>(push, bin). bindE (get_int bin) (\<lambda>(src, bin).
     let cmd = c_rem cmd consistency_control_off_magic in
     bindE (assertE (cmd \<noteq> 4)) (\<lambda>_.
     bindE (if push then serve_push rm kv_id (ds_server_id s) ts cmd src bin (ds_is_vector s) (ds_is_assign s) (ds_store s)
            else serve_pull rm kv_id (ds_server_id s) ts cmd src bin (ds_is_vector s) (ds_store s))
       (\<lambda>(store, out). Inr (s\<lparr>ds_store := store\<rparr>, out))))))"

section \<open>Sums over the first requests of every worker\<close>

text \<open>\<open>len w\<close> requests of worker \<open>w\<close> have arrived; \<open>acc\<close> sums \<open>F w j\<close> over those with number \<open>j < K\<close>.\<close>

definition acc :: "nat set \<Rightarrow> (nat \<Rightarrow> nat) \<Rightarrow> nat \<Rightarrow> (nat \<Rightarrow> nat \<Rightarrow> 'a::comm_monoid_add) \<Rightarrow> 'a" where
  "acc W len K F = (\<Sum>w\<in>W. \<Sum>j<min (len w) K. F w j)"

lemma acc_cong:
  "(\<And>w j. w \<in> W \<Longrightarrow> j < len w \<Longrightarrow> j < K \<Longrightarrow> F w j = G w j) \<Longrightarrow> acc W len K F = acc W len K G"
  by (auto simp: acc_def intro!: sum.cong)

lemma acc_Suc:
  assumes "finite W"
  shows "acc W len (Suc K) F = acc W len K F + (\<Sum>w\<in>{w\<in>W. K < len w}. F w K)"
proof -
  have "(\<Sum>j<min (len w) (Suc K). F w j) = (\<Sum>j<min (len w) K. F w j) + (if K < len w then F w K else 0)" for w
    by (cases "K < len w") (simp_all add: min_absorb1 min_absorb2 Suc_leI not_less)
  then have "acc W len (Suc K) F = acc W len K F + (\<Sum>w\<in>W. if K < len w then F w K else 0)"
    by (simp add: acc_def sum.distrib)
  then show ?thesis using assms by (simp add: sum.inter_filter)
qed

lemma acc_recv:
  assumes "finite W" "w \<in> W"
  shows "acc W (len(w := Suc (len w))) K F = acc W len K F + (if len w < K then F w (len w) else 0)"
proof -
  have w: "(\<Sum>j<min (Suc (len w)) K. F w j) = (\<Sum>j<min (len w) K. F w j) + (if len w < K then F w (len w) else 0)"
    by (auto simp: min_def not_le less_Suc_eq_le)
  have "acc W (len(w := Suc (len w))) K F = (\<Sum>j<min (Suc (len w)) K. F w j) + (\<Sum>v\<in>W-{w}. \<Sum>j<min (len v) K. F v j)"
    using assms by (auto simp: acc_def sum.remove [of W w])
  then show ?thesis using assms w by (simp add: acc_def sum.remove [of W w] ac_simps)
qed

lemma acc_full:
  assumes "\<And>w. w \<in> W \<Longrightarrow> K \<le> len w"
  shows "acc W len K F = (\<Sum>w\<in>W. \<Sum>j<K. F w j)"
  unfolding acc_def using assms by (intro sum.cong) (simp_all add: min_absorb2)

section \<open>One progress/count/buffer triple\<close>

text \<open>
  \<open>req w\<close> is the list of requests received from worker \<open>w\<close>, \<open>prog\<close> and \<open>cnt\<close> the vectors
  \<^verbatim>\<open>progress\<close> and \<^verbatim>\<open>count\<close>, and \<open>blk j\<close> the requests buffered for round \<open>j\<close>: from round
  \<open>lo\<close> on, every received request is in its buffer, once.
\<close>

type_synonym 'v entry = "int \<times> nat \<times> int \<times> 'v bin"     \<comment> \<open>cmd, src, ts, bin\<close>

definition e_src :: "'v entry \<Rightarrow> nat" where
  "e_src e = fst (snd e)"

definition chan :: "nat set \<Rightarrow> (nat \<Rightarrow> 'v entry list) \<Rightarrow> nat list \<Rightarrow> nat list \<Rightarrow> (nat \<Rightarrow> 'v entry list) \<Rightarrow> nat \<Rightarrow> bool" where
  "chan W req prog cnt blk lo \<longleftrightarrow>
     (\<forall>w. nth_or 0 prog w = length (req w)) \<and> (\<forall>w. w \<notin> W \<longrightarrow> req w = [])
   \<and> (\<forall>w. \<forall>e \<in> set (req w). e_src e = w)
   \<and> (\<forall>j. nth_or 0 cnt j = card {w\<in>W. j < length (req w)})
   \<and> (\<forall>j \<ge> lo. distinct (map e_src (blk j)) \<and> set (blk j) = (\<lambda>w. req w ! j) ` {w\<in>W. j < length (req w)})"

definition recv :: "'v entry \<Rightarrow> (nat \<Rightarrow> 'v entry list) \<Rightarrow> nat \<Rightarrow> 'v entry list" where
  "recv e req = req(e_src e := req (e_src e) @ [e])"

lemma e_src_Pair [simp]: "e_src (cmd, src, ts, bin) = src"
  by (simp add: e_src_def)

lemma recv_length: "length (recv e req w) = (if w = e_src e then Suc (length (req w)) else length (req w))"
  by (simp add: recv_def)

lemma recv_length_fun: "(\<lambda>w. length (recv e req w)) = (\<lambda>w. length (req w))(e_src e := Suc (length (req (e_src e))))"
  by (auto simp: recv_length fun_eq_iff)

lemma recv_length_mono: "length (req w) \<le> length (recv e req w)"
  by (simp add: recv_length)

lemma recv_nth: "j < length (req w) \<Longrightarrow> recv e req w ! j = req w ! j"
  by (auto simp: recv_def nth_append)

lemma recv_nth_new [simp]: "recv e req (e_src e) ! length (req (e_src e)) = e"
  by (simp add: recv_def)

lemma recv_past:
  "{w\<in>W. j < length (recv e req w)} =
     (if e_src e \<in> W \<and> j = length (req (e_src e)) then insert (e_src e) {w\<in>W. j < length (req w)}
      else {w\<in>W. j < length (req w)})"
  by (auto simp: recv_length split: if_splits)

definition bump :: "nat \<Rightarrow> nat list \<Rightarrow> nat list" where
  "bump i xs = (grow_to i 0 xs)[i := nth_or 0 xs i + 1]"

lemma nth_or_bump [simp]: "nth_or 0 (bump i xs) j = (if j = i then nth_or 0 xs i + 1 else nth_or 0 xs j)"
  by (simp add: bump_def)

lemma chan_recv_blocked:
  assumes "chan W req prog cnt blk lo" "finite W" "e_src e \<in> W" "j = length (req (e_src e))"
  shows "chan W (recv e req) (bump (e_src e) prog) (bump j cnt) (blk(j := blk j @ [e])) lo"
proof -
  let ?P = "\<lambda>i. {w\<in>W. i < length (req w)}"
  have notin: "e_src e \<notin> ?P j" using assms(4) by simp
  have src: "e_src (req w ! i) = w" if "i < length (req w)" for w i
    using assms(1) that by (auto simp: chan_def)
  have img: "(\<lambda>w. recv e req w ! i) ` ?P i = (\<lambda>w. req w ! i) ` ?P i" for i
    by (rule image_cong) (auto simp: recv_nth)
  have cnt: "nth_or 0 (bump j cnt) i = card {w\<in>W. i < length (recv e req w)}" for i
    using assms notin by (simp add: chan_def recv_past card_insert_disjoint)
  have blk: "distinct (map e_src ((blk(j := blk j @ [e])) i))
      \<and> set ((blk(j := blk j @ [e])) i) = (\<lambda>w. recv e req w ! i) ` {w\<in>W. i < length (recv e req w)}"
    if "lo \<le> i" for i
  proof (cases "i = j")
    case True
    have b: "distinct (map e_src (blk j))" "set (blk j) = (\<lambda>w. req w ! j) ` ?P j"
      using assms(1) that True by (simp_all add: chan_def)
    have "e_src e \<notin> e_src ` set (blk j)" unfolding b(2) using notin src by auto
    moreover have "(\<lambda>w. recv e req w ! j) ` insert (e_src e) (?P j) = insert e ((\<lambda>w. req w ! j) ` ?P j)"
      using img [of j] assms(4) by simp
    ultimately show ?thesis using True b assms(3,4) by (auto simp: recv_past)
  next
    case False
    have "distinct (map e_src (blk i)) \<and> set (blk i) = (\<lambda>w. req w ! i) ` ?P i"
      using assms(1) that by (simp add: chan_def)
    then show ?thesis using False img [of i] assms(4) by (simp add: recv_past)
  qed
  have "nth_or 0 (bump (e_src e) prog) w = length (recv e req w)" for w
    using assms(1) by (simp add: chan_def recv_length)
  moreover have "w \<notin> W \<Longrightarrow> recv e req w = []" for w
    using assms(1,3) by (auto simp: chan_def recv_def)
  moreover have "e' \<in> set (recv e req w) \<Longrightarrow> e_src e' = w" for e' w
    using assms(1) by (auto simp: chan_def recv_def split: if_splits)
  ultimately show ?thesis using cnt blk unfolding chan_def by simp
qed

lemma chan_blk_cong:
  assumes "chan W req prog cnt blk lo" "lo \<le> lo'" "\<And>j. lo' \<le> j \<Longrightarrow> blk' j = blk j"
  shows "chan W req prog cnt blk' lo'"
  using assms by (simp add: chan_def)

lemma chan_recv_direct:
  assumes "chan W req prog cnt blk lo" "finite W" "e_src e \<in> W" "j = length (req (e_src e))" "j < lo"
  shows "chan W (recv e req) (bump (e_src e) prog) (bump j cnt) blk lo"
  by (rule chan_blk_cong [OF chan_recv_blocked [OF assms(1-4)]]) (use assms(5) in auto)

lemma chan_cnt: "chan W req prog cnt blk lo \<Longrightarrow> nth_or 0 cnt j = card {w\<in>W. j < length (req w)}"
  by (simp add: chan_def)

lemma chan_prog: "chan W req prog cnt blk lo \<Longrightarrow> nth_or 0 prog w = length (req w)"
  by (simp add: chan_def)

lemma chan_cnt_full:
  assumes "chan W req prog cnt blk lo" "finite W"
  shows "nth_or 0 cnt j = card W \<longleftrightarrow> (\<forall>w\<in>W. j < length (req w))"
proof -
  have "card {w\<in>W. j < length (req w)} = card W \<longleftrightarrow> {w\<in>W. j < length (req w)} = W"
    using assms(2) card_subset_eq [of W "{w\<in>W. j < length (req w)}"] by auto
  then show ?thesis using assms(1) by (auto simp: chan_def)
qed

lemma chan_sum_blk:
  assumes "chan W req prog cnt blk lo" "lo \<le> j"
  shows "(\<Sum>e\<leftarrow>blk j. G e) = (\<Sum>w\<in>{w\<in>W. j < length (req w)}. G (req w ! j))"
proof -
  have b: "distinct (map e_src (blk j))" "set (blk j) = (\<lambda>w. req w ! j) ` {w\<in>W. j < length (req w)}"
    using assms by (simp_all add: chan_def)
  have "inj_on (\<lambda>w. req w ! j) {w\<in>W. j < length (req w)}"
    using assms(1) by (intro inj_on_inverseI [of _ e_src]) (auto simp: chan_def)
  then show ?thesis
    using b by (simp add: sum_list_distinct_conv_sum_set distinct_map sum.reindex o_def)
qed

lemma chan_blk_mem:
  assumes "chan W req prog cnt blk lo" "lo \<le> j" "e \<in> set (blk j)"
  shows "e_src e \<in> W \<and> j < length (req (e_src e)) \<and> req (e_src e) ! j = e"
proof -
  obtain w where "w \<in> W" "j < length (req w)" "e = req w ! j" using assms by (auto simp: chan_def)
  moreover have "e_src (req w ! j) = w" using assms(1) \<open>j < length (req w)\<close> by (simp add: chan_def)
  ultimately show ?thesis by simp
qed

lemma acc_recv_req:
  assumes "finite W" "e_src e \<in> W"
  shows "acc W (\<lambda>w. length (recv e req w)) K (\<lambda>w j. F w j (recv e req w ! j))
    = acc W (\<lambda>w. length (req w)) K (\<lambda>w j. F w j (req w ! j))
      + (if length (req (e_src e)) < K then F (e_src e) (length (req (e_src e))) e else 0)"
proof -
  have "acc W (\<lambda>w. length (recv e req w)) K (\<lambda>w j. F w j (recv e req w ! j))
    = acc W (\<lambda>w. length (req w)) K (\<lambda>w j. F w j (recv e req w ! j))
      + (if length (req (e_src e)) < K then F (e_src e) (length (req (e_src e))) e else 0)"
    using acc_recv [OF assms, of "\<lambda>w. length (req w)" K "\<lambda>w j. F w j (recv e req w ! j)"]
    by (simp add: recv_length_fun)
  also have "acc W (\<lambda>w. length (req w)) K (\<lambda>w j. F w j (recv e req w ! j))
    = acc W (\<lambda>w. length (req w)) K (\<lambda>w j. F w j (req w ! j))"
    by (rule acc_cong) (simp add: recv_nth)
  finally show ?thesis .
qed

section \<open>What serving a request does\<close>

text \<open>
  \<open>push_effect\<close> is what a push adds to a slot, \<open>push_answer\<close> and \<open>pull_answer\<close> the multiset of responses
  (empty when the request carries no data), the latter computed from the contents \<open>V\<close> of the store.
\<close>

definition push_effect :: "RangeManager \<Rightarrow> nat \<Rightarrow> nat \<Rightarrow> bool \<Rightarrow> 'v::comm_monoid_add entry \<Rightarrow> u64 \<Rightarrow> 'v" where
  "push_effect rm kv_id server_id is_vector = (\<lambda>(cmd, src, ts, bin). push_delta rm kv_id server_id is_vector (cmd, bin))"

definition push_answer :: "nat \<Rightarrow> 'v entry \<Rightarrow> (int \<times> 'v bin) multiset" where
  "push_answer kv_id = (\<lambda>(cmd, src, ts, bin).
     if bin = [] then {#} else {#Response kv_id ts cmd True (int src) empty_KVPairs (-1)#})"

definition pull_answer :: "RangeManager \<Rightarrow> nat \<Rightarrow> nat \<Rightarrow> bool \<Rightarrow> (u64 \<Rightarrow> 'v) \<Rightarrow> 'v entry \<Rightarrow> (int \<times> 'v bin) multiset" where
  "pull_answer rm kv_id server_id is_vector V = (\<lambda>(cmd, src, ts, bin).
     if bin = [] then {#} else
     case reads rm kv_id server_id is_vector cmd bin of
       Inl e \<Rightarrow> {#}
     | Inr (keys, slots) \<Rightarrow>
         {#Response kv_id ts cmd False (int src) \<lparr>kv_keys = keys, kv_vals = map V slots\<rparr> (-1)#})"

text \<open>A request that the store can serve: it carries no data, or it decodes and touches only slots that exist.\<close>

definition push_ok :: "RangeManager \<Rightarrow> nat \<Rightarrow> nat \<Rightarrow> bool \<Rightarrow> (u64 \<Rightarrow> bool) \<Rightarrow> 'v entry \<Rightarrow> bool" where
  "push_ok rm kv_id server_id is_vector valid = (\<lambda>(cmd, src, ts, bin). bin = [] \<or>
     (case writes rm kv_id server_id is_vector cmd bin of Inl e \<Rightarrow> False | Inr ws \<Rightarrow> \<forall>w \<in> set ws. valid (fst w)))"

definition pull_ok :: "RangeManager \<Rightarrow> nat \<Rightarrow> nat \<Rightarrow> bool \<Rightarrow> (u64 \<Rightarrow> bool) \<Rightarrow> 'v entry \<Rightarrow> bool" where
  "pull_ok rm kv_id server_id is_vector valid = (\<lambda>(cmd, src, ts, bin). bin = [] \<or>
     (case reads rm kv_id server_id is_vector cmd bin of Inl e \<Rightarrow> False | Inr (keys, slots) \<Rightarrow> \<forall>k \<in> set slots. valid k))"

lemma writes_Nil: "\<exists>e. writes rm kv_id server_id is_vector cmd [] = Inl e"
  by (cases "interval_of rm kv_id server_id is_vector"; cases "GetChunkSize kv_id rm") (auto simp: writes_def)

lemma push_effect_Nil [simp]: "push_effect rm kv_id server_id is_vector (cmd, src, ts, []) x = 0"
  by (simp add: push_effect_def push_delta_def split: sum.split) (metis writes_Nil Inl_Inr_False)

lemma serve_push_ok:
  assumes "push_ok rm kv_id server_id is_vector (store_valid st) (cmd, src, ts, bin)"
  shows "\<exists>st' o1. serve_push rm kv_id server_id ts cmd (int src) bin is_vector False st = Inr (st', o1)
     \<and> store_obs st' = (\<lambda>x. store_obs st x + push_effect rm kv_id server_id is_vector (cmd, src, ts, bin) x)
     \<and> store_valid st' = store_valid st \<and> mset o1 = push_answer kv_id (cmd, src, ts, bin)"
proof (cases "bin = []")
  case True
  then show ?thesis by (simp add: serve_push_def push_answer_def)
next
  case False
  then obtain ws where ws: "writes rm kv_id server_id is_vector cmd bin = Inr ws" "\<forall>w \<in> set ws. store_valid st (fst w)"
    using assms by (auto simp: push_ok_def split: sum.splits)
  obtain st' where up: "update rm kv_id server_id bin st cmd is_vector False = Inr st'"
    using update_total [OF ws] by blast
  show ?thesis
    using False up update_valid [OF up] update_obs [OF up]
    by (auto simp: serve_push_def push_answer_def push_effect_def fun_eq_iff)
qed

lemma serve_pull_ok:
  assumes "pull_ok rm kv_id server_id is_vector (store_valid st) (cmd, src, ts, bin)"
  shows "\<exists>st' o1. serve_pull rm kv_id server_id ts cmd (int src) bin is_vector st = Inr (st', o1)
     \<and> store_obs st' = store_obs st \<and> store_valid st' = store_valid st
     \<and> mset o1 = pull_answer rm kv_id server_id is_vector (store_obs st) (cmd, src, ts, bin)"
proof (cases "bin = []")
  case True
  then show ?thesis by (simp add: serve_pull_def pull_answer_def)
next
  case False
  then obtain keys slots where ks: "reads rm kv_id server_id is_vector cmd bin = Inr (keys, slots)"
    "\<forall>k \<in> set slots. store_valid st k"
    using assms by (auto simp: pull_ok_def split: sum.splits)
  obtain st' where up: "retrieve rm kv_id server_id bin st cmd is_vector
      = Inr (\<lparr>kv_keys = keys, kv_vals = map (store_obs st) slots\<rparr>, st')"
    using retrieve_total [OF ks] by blast
  show ?thesis
    using False up retrieve_obs(2,3) [OF up] ks(1)
    by (auto simp: serve_pull_def pull_answer_def)
qed

section \<open>Serving a buffer\<close>

text \<open>The two release loops of the servers.\<close>

definition release_pushes :: "RangeManager \<Rightarrow> nat \<Rightarrow> nat \<Rightarrow> bool \<Rightarrow> bool \<Rightarrow> 'v::{zero,plus} entry list \<Rightarrow> 'v store
    \<Rightarrow> error + ('v store \<times> 'v out)" where
  "release_pushes rm kv_id server_id is_vector is_assign es store =
     foldE (\<lambda>(cmd, src, ts, bin) (store, out).
         bindE (serve_push rm kv_id server_id ts cmd (int src) bin is_vector is_assign store)
           (\<lambda>(store, o1). Inr (store, out @ o1))) es (store, [])"

definition release_pulls :: "RangeManager \<Rightarrow> nat \<Rightarrow> nat \<Rightarrow> bool \<Rightarrow> 'v::zero entry list \<Rightarrow> 'v store
    \<Rightarrow> error + ('v store \<times> 'v out)" where
  "release_pulls rm kv_id server_id is_vector es store =
     foldE (\<lambda>(cmd, src, ts, bin) (store, out).
         bindE (serve_pull rm kv_id server_id ts cmd (int src) bin is_vector store)
           (\<lambda>(store, o1). Inr (store, out @ o1))) es (store, [])"

lemma release_pushes_ok:
  assumes "\<forall>e \<in> set es. push_ok rm kv_id server_id is_vector (store_valid st) e"
  shows "\<exists>st' o1. release_pushes rm kv_id server_id is_vector False es st = Inr (st', o1)
     \<and> store_obs st' = (\<lambda>x. store_obs st x + (\<Sum>e\<leftarrow>es. push_effect rm kv_id server_id is_vector e x))
     \<and> store_valid st' = store_valid st \<and> mset o1 = (\<Sum>e\<leftarrow>es. push_answer kv_id e)"
  unfolding release_pushes_def
  using assms
proof (induction es rule: rev_induct)
  case (snoc e es)
  obtain cmd src ts bin where e: "e = (cmd, src, ts, bin)" by (cases e)
  from snoc obtain st1 o1 where IH: "foldE (\<lambda>(cmd, src, ts, bin) (store, out).
         bindE (serve_push rm kv_id server_id ts cmd (int src) bin is_vector False store)
           (\<lambda>(store, o1). Inr (store, out @ o1))) es (st, []) = Inr (st1, o1)"
    "store_obs st1 = (\<lambda>x. store_obs st x + (\<Sum>e\<leftarrow>es. push_effect rm kv_id server_id is_vector e x))"
    "store_valid st1 = store_valid st" "mset o1 = (\<Sum>e\<leftarrow>es. push_answer kv_id e)" by auto
  from serve_push_ok [of rm kv_id server_id is_vector st1 cmd src ts bin] snoc.prems IH(3) e
  show ?case by (auto simp: foldE_append IH ac_simps fun_eq_iff)
qed simp

lemma release_pulls_ok:
  assumes "\<forall>e \<in> set es. pull_ok rm kv_id server_id is_vector (store_valid st) e"
  shows "\<exists>st' o1. release_pulls rm kv_id server_id is_vector es st = Inr (st', o1)
     \<and> store_obs st' = store_obs st \<and> store_valid st' = store_valid st
     \<and> mset o1 = (\<Sum>e\<leftarrow>es. pull_answer rm kv_id server_id is_vector (store_obs st) e)"
  unfolding release_pulls_def
  using assms
proof (induction es rule: rev_induct)
  case (snoc e es)
  obtain cmd src ts bin where e: "e = (cmd, src, ts, bin)" by (cases e)
  from snoc obtain st1 o1 where IH: "foldE (\<lambda>(cmd, src, ts, bin) (store, out).
         bindE (serve_pull rm kv_id server_id ts cmd (int src) bin is_vector store)
           (\<lambda>(store, o1). Inr (store, out @ o1))) es (st, []) = Inr (st1, o1)"
    "store_obs st1 = store_obs st"
    "store_valid st1 = store_valid st" "mset o1 = (\<Sum>e\<leftarrow>es. pull_answer rm kv_id server_id is_vector (store_obs st) e)" by auto
  from serve_pull_ok [of rm kv_id server_id is_vector st1 cmd src ts bin] snoc.prems IH(2,3) e
  show ?case by (auto simp: foldE_append IH)
qed simp

end
