(* ===== verification/BSP_Server.thy ===== *)
theory BSP_Server
  imports Server_Base
begin

text \<open>
  The bulk-synchronous server: \<^verbatim>\<open>BSPServer\<close> of \<^verbatim>\<open>kvstore/handles/bsp_server.hpp\<close>.

  The state is the record \<open>BSPServer\<close>, one field per member; \<open>bsp_Process\<close> is the handler with its four
  branches (initialisation, no consistency control, push, pull). Counters and rounds are unbounded naturals.

  The theorem is about any interleaving of the requests of \<open>n\<close> workers in which each worker
  alternates pull, push, pull, push, as the comment of the class asks; a worker need not wait for an answer.
  \<open>bsp_inv\<close> describes the state of the server after such a history, \<open>bsp_answers\<close> is the abstract
  specification, a function of the history alone, and \<open>bsp_run_inv\<close> the refinement.
\<close>

section \<open>Model\<close>

record 'v BSPServer =
  bsp_num_workers :: int
  bsp_push_iter :: nat
  bsp_push_count :: "nat list"
  bsp_push_progress :: "nat list"
  bsp_blocked_pushes :: "'v entry list list"
  bsp_pull_iter :: nat
  bsp_pull_count :: "nat list"
  bsp_pull_progress :: "nat list"
  bsp_blocked_pulls :: "'v entry list list"
  bsp_init_reply_phase :: bool
  bsp_reply_phase :: bool
  bsp_is_vector :: bool
  bsp_is_assign :: bool
  bsp_store :: "'v store"
  bsp_server_id :: nat
  bsp_init_count :: int

text \<open>The constructor that \<^verbatim>\<open>ServerFactory\<close> uses; \<^verbatim>\<open>init_reply_phase\<close> defaults to true, \<^verbatim>\<open>reply_phase_\<close> starts true.\<close>

definition mk_BSPServer :: "nat \<Rightarrow> int \<Rightarrow> 'v store \<Rightarrow> bool \<Rightarrow> bool \<Rightarrow> bool \<Rightarrow> 'v BSPServer" where
  "mk_BSPServer server_id num_workers store is_vector is_assign init_reply_phase =
     \<lparr>bsp_num_workers = num_workers, bsp_push_iter = 0, bsp_push_count = [], bsp_push_progress = [],
      bsp_blocked_pushes = [], bsp_pull_iter = 0, bsp_pull_count = [], bsp_pull_progress = [],
      bsp_blocked_pulls = [], bsp_init_reply_phase = init_reply_phase, bsp_reply_phase = True,
      bsp_is_vector = is_vector, bsp_is_assign = is_assign, bsp_store = store,
      bsp_server_id = server_id, bsp_init_count = 0\<rparr>"

definition bsp_reset :: "int \<Rightarrow> 'v BSPServer \<Rightarrow> 'v BSPServer" where
  "bsp_reset next_num_workers s =
     (let s = s\<lparr>bsp_push_iter := 0, bsp_pull_iter := 0, bsp_push_count := [], bsp_pull_count := [],
                bsp_push_progress := [], bsp_pull_progress := [], bsp_blocked_pulls := [],
                bsp_blocked_pushes := [], bsp_reply_phase := bsp_init_reply_phase s\<rparr>
      in if next_num_workers \<noteq> -1 then s\<lparr>bsp_num_workers := next_num_workers\<rparr> else s)"

definition bsp_init :: "nat \<Rightarrow> int \<Rightarrow> int \<Rightarrow> bool \<Rightarrow> int \<Rightarrow> 'v bin \<Rightarrow> 'v BSPServer
    \<Rightarrow> error + ('v BSPServer \<times> 'v out)" where
  "bsp_init kv_id ts cmd push src bin s =
     bindE (if bsp_init_count s = 0 then bindE (get_int bin) (\<lambda>(n, bin). Inr (bsp_reset n s)) else Inr s) (\<lambda>s.
     let s = s\<lparr>bsp_init_count := bsp_init_count s + 1\<rparr>;
         s = (if bsp_init_count s = bsp_num_workers s then s\<lparr>bsp_init_count := 0\<rparr> else s)
     in Inr (s, [Response kv_id ts cmd push src empty_KVPairs (-1)]))"

definition bsp_direct :: "RangeManager \<Rightarrow> nat \<Rightarrow> int \<Rightarrow> int \<Rightarrow> bool \<Rightarrow> int \<Rightarrow> 'v::{zero,plus} bin \<Rightarrow> 'v BSPServer
    \<Rightarrow> error + ('v BSPServer \<times> 'v out)" where
  "bsp_direct rm kv_id ts cmd push src bin s =
     (let cmd = c_rem cmd consistency_control_off_magic in
      bindE (if push then serve_push rm kv_id (bsp_server_id s) ts cmd src bin (bsp_is_vector s) (bsp_is_assign s) (bsp_store s)
             else serve_pull rm kv_id (bsp_server_id s) ts cmd src bin (bsp_is_vector s) (bsp_store s))
        (\<lambda>(store, out). Inr (s\<lparr>bsp_store := store\<rparr>, out)))"

definition bsp_push :: "RangeManager \<Rightarrow> nat \<Rightarrow> int \<Rightarrow> int \<Rightarrow> nat \<Rightarrow> 'v::{zero,plus} bin \<Rightarrow> 'v BSPServer
    \<Rightarrow> error + ('v BSPServer \<times> 'v out)" where
  "bsp_push rm kv_id ts cmd src bin s =
     (let prog = grow_to src 0 (bsp_push_progress s);
          progress = prog ! src;
          cnt = grow_to progress 0 (bsp_push_count s);
          s = s\<lparr>bsp_push_count := cnt[progress := cnt ! progress + 1],
                bsp_push_progress := prog[src := progress + 1]\<rparr>
      in if bsp_reply_phase s \<or> bsp_push_iter s \<noteq> progress then
           let blk = grow_to progress [] (bsp_blocked_pushes s)
           in Inr (s\<lparr>bsp_blocked_pushes := blk[progress := blk ! progress @ [(cmd, src, ts, bin)]]\<rparr>, [])
         else
           bindE (serve_push rm kv_id (bsp_server_id s) ts cmd (int src) bin (bsp_is_vector s) (bsp_is_assign s) (bsp_store s))
             (\<lambda>(store, out). let s = s\<lparr>bsp_store := store\<rparr> in
           if int (bsp_push_count s ! bsp_push_iter s) = bsp_num_workers s then
             bindE (if length (bsp_blocked_pulls s) > bsp_pull_iter s then
                      bindE (release_pulls rm kv_id (bsp_server_id s) (bsp_is_vector s)
                               (bsp_blocked_pulls s ! bsp_pull_iter s) (bsp_store s)) (\<lambda>(store, o1).
                      Inr (s\<lparr>bsp_store := store,
                             bsp_blocked_pulls := (bsp_blocked_pulls s)[bsp_pull_iter s := []]\<rparr>, o1))
                    else Inr (s, []))
               (\<lambda>(s, o1). Inr (s\<lparr>bsp_reply_phase := True, bsp_push_iter := bsp_push_iter s + 1\<rparr>, out @ o1))
           else Inr (s, out)))"

definition bsp_pull :: "RangeManager \<Rightarrow> nat \<Rightarrow> int \<Rightarrow> int \<Rightarrow> nat \<Rightarrow> 'v::{zero,plus} bin \<Rightarrow> 'v BSPServer
    \<Rightarrow> error + ('v BSPServer \<times> 'v out)" where
  "bsp_pull rm kv_id ts cmd src bin s =
     (let prog = grow_to src 0 (bsp_pull_progress s);
          progress = prog ! src;
          cnt = grow_to progress 0 (bsp_pull_count s);
          s = s\<lparr>bsp_pull_count := cnt[progress := cnt ! progress + 1],
                bsp_pull_progress := prog[src := progress + 1]\<rparr>
      in if \<not> bsp_reply_phase s \<or> bsp_pull_iter s \<noteq> progress then
           let blk = grow_to progress [] (bsp_blocked_pulls s)
           in Inr (s\<lparr>bsp_blocked_pulls := blk[progress := blk ! progress @ [(cmd, src, ts, bin)]]\<rparr>, [])
         else
           bindE (serve_pull rm kv_id (bsp_server_id s) ts cmd (int src) bin (bsp_is_vector s) (bsp_store s))
             (\<lambda>(store, out). let s = s\<lparr>bsp_store := store\<rparr> in
           if int (bsp_pull_count s ! bsp_pull_iter s) = bsp_num_workers s then
             bindE (if length (bsp_blocked_pushes s) > bsp_push_iter s then
                      bindE (release_pushes rm kv_id (bsp_server_id s) (bsp_is_vector s) (bsp_is_assign s)
                               (bsp_blocked_pushes s ! bsp_push_iter s) (bsp_store s)) (\<lambda>(store, o1).
                      Inr (s\<lparr>bsp_store := store,
                             bsp_blocked_pushes := (bsp_blocked_pushes s)[bsp_push_iter s := []]\<rparr>, o1))
                    else Inr (s, []))
               (\<lambda>(s, o1). Inr (s\<lparr>bsp_reply_phase := False, bsp_pull_iter := bsp_pull_iter s + 1\<rparr>, out @ o1))
           else Inr (s, out)))"

definition bsp_Process :: "RangeManager \<Rightarrow> nat \<Rightarrow> int \<Rightarrow> 'v::{zero,plus} bin \<Rightarrow> 'v BSPServer
    \<Rightarrow> error + ('v BSPServer \<times> 'v out)" where
  "bsp_Process rm kv_id ts bin s =
     bindE (get_int bin) (\<lambda>(cmd, bin). bindE (get_bool bin) (\<lambda>(push, bin). bindE (get_int bin) (\<lambda>(src, bin).
     if cmd = 4 then bsp_init kv_id ts cmd push src bin s
     else if cmd \<ge> consistency_control_off_magic then bsp_direct rm kv_id ts cmd push src bin s
     else if src < 0 then Inl OutOfRange
     else if push then bsp_push rm kv_id ts cmd (nat src) bin s
     else bsp_pull rm kv_id ts cmd (nat src) bin s)))"

text \<open>A sequence of requests (push or pull, with its entry), in the order in which the server receives them.\<close>

definition encode_request :: "bool \<Rightarrow> 'v entry \<Rightarrow> 'v bin" where
  "encode_request push = (\<lambda>(cmd, src, ts, bin). FInt cmd # FBool push # FInt (int src) # bin)"

definition e_ts :: "'v entry \<Rightarrow> int" where
  "e_ts e = fst (snd (snd e))"

definition e_cmd :: "'v entry \<Rightarrow> int" where
  "e_cmd e = fst e"

definition bsp_run :: "RangeManager \<Rightarrow> nat \<Rightarrow> (bool \<times> 'v::{zero,plus} entry) list \<Rightarrow> 'v BSPServer
    \<Rightarrow> error + ('v BSPServer \<times> 'v out)" where
  "bsp_run rm kv_id h s =
     foldE (\<lambda>(push, e) (s, out). bindE (bsp_Process rm kv_id (e_ts e) (encode_request push e) s)
              (\<lambda>(s, o1). Inr (s, out @ o1))) h (s, [])"

section \<open>The state after a history\<close>

text \<open>
  \<open>P w\<close> and \<open>Q w\<close> are the pushes and the pulls received from worker \<open>w\<close>. \<open>bsp_snapshot j\<close> is what
  the store shows to the pulls of round \<open>j\<close>.
\<close>

definition bsp_snapshot :: "RangeManager \<Rightarrow> nat \<Rightarrow> 'v::comm_monoid_add BSPServer \<Rightarrow> nat set
    \<Rightarrow> (nat \<Rightarrow> 'v entry list) \<Rightarrow> nat \<Rightarrow> u64 \<Rightarrow> 'v" where
  "bsp_snapshot rm kv_id s0 W P j x = store_obs (bsp_store s0) x
     + (\<Sum>w\<in>W. \<Sum>i<j. push_effect rm kv_id (bsp_server_id s0) (bsp_is_vector s0) (P w ! i) x)"

definition bsp_pull_reply :: "RangeManager \<Rightarrow> nat \<Rightarrow> 'v::comm_monoid_add BSPServer \<Rightarrow> nat set
    \<Rightarrow> (nat \<Rightarrow> 'v entry list) \<Rightarrow> nat \<Rightarrow> 'v entry \<Rightarrow> (int \<times> 'v bin) multiset" where
  "bsp_pull_reply rm kv_id s0 W P j =
     pull_answer rm kv_id (bsp_server_id s0) (bsp_is_vector s0) (bsp_snapshot rm kv_id s0 W P j)"

definition bsp_applied :: "'v BSPServer \<Rightarrow> nat" where
  "bsp_applied s = (if bsp_reply_phase s then bsp_push_iter s else Suc (bsp_push_iter s))"

lemma bsp_applied_update [simp]:
  "bsp_applied (s\<lparr>bsp_push_count := a\<rparr>) = bsp_applied s" "bsp_applied (s\<lparr>bsp_push_progress := a\<rparr>) = bsp_applied s"
  "bsp_applied (s\<lparr>bsp_blocked_pushes := b\<rparr>) = bsp_applied s" "bsp_applied (s\<lparr>bsp_store := c\<rparr>) = bsp_applied s"
  "bsp_applied (s\<lparr>bsp_pull_count := a\<rparr>) = bsp_applied s" "bsp_applied (s\<lparr>bsp_pull_progress := a\<rparr>) = bsp_applied s"
  "bsp_applied (s\<lparr>bsp_blocked_pulls := b\<rparr>) = bsp_applied s" "bsp_applied (s\<lparr>bsp_pull_iter := n\<rparr>) = bsp_applied s"
  by (simp_all add: bsp_applied_def)

definition bsp_phase :: "nat set \<Rightarrow> (nat \<Rightarrow> 'v entry list) \<Rightarrow> (nat \<Rightarrow> 'v entry list) \<Rightarrow> 'v BSPServer \<Rightarrow> bool" where
  "bsp_phase W P Q s \<longleftrightarrow>
     (if bsp_reply_phase s
      then bsp_pull_iter s = bsp_push_iter s \<and> (\<forall>w\<in>W. bsp_push_iter s \<le> length (P w))
         \<and> (\<exists>w\<in>W. length (Q w) = bsp_push_iter s)
      else bsp_pull_iter s = Suc (bsp_push_iter s) \<and> (\<forall>w\<in>W. Suc (bsp_push_iter s) \<le> length (Q w))
         \<and> (\<exists>w\<in>W. length (P w) = bsp_push_iter s))"

definition bsp_static :: "'v BSPServer \<Rightarrow> nat set \<Rightarrow> 'v BSPServer \<Rightarrow> bool" where
  "bsp_static s0 W s \<longleftrightarrow> bsp_num_workers s = int (card W) \<and> bsp_server_id s = bsp_server_id s0
     \<and> bsp_is_vector s = bsp_is_vector s0 \<and> \<not> bsp_is_assign s \<and> store_valid (bsp_store s) = store_valid (bsp_store s0)"

definition bsp_chans :: "nat set \<Rightarrow> (nat \<Rightarrow> 'v entry list) \<Rightarrow> (nat \<Rightarrow> 'v entry list) \<Rightarrow> 'v BSPServer \<Rightarrow> bool" where
  "bsp_chans W P Q s \<longleftrightarrow>
     chan W P (bsp_push_progress s) (bsp_push_count s) (nth_or [] (bsp_blocked_pushes s)) (bsp_applied s)
   \<and> chan W Q (bsp_pull_progress s) (bsp_pull_count s) (nth_or [] (bsp_blocked_pulls s)) (Suc (bsp_push_iter s))"

definition bsp_core :: "RangeManager \<Rightarrow> nat \<Rightarrow> 'v::comm_monoid_add BSPServer \<Rightarrow> nat set \<Rightarrow> (nat \<Rightarrow> 'v entry list)
    \<Rightarrow> (nat \<Rightarrow> 'v entry list) \<Rightarrow> 'v BSPServer \<Rightarrow> 'v out \<Rightarrow> bool" where
  "bsp_core rm kv_id s0 W P Q s outs \<longleftrightarrow> bsp_static s0 W s \<and> bsp_chans W P Q s
   \<and> store_obs (bsp_store s) = (\<lambda>x. store_obs (bsp_store s0) x
        + acc W (\<lambda>w. length (P w)) (bsp_applied s)
            (\<lambda>w j. push_effect rm kv_id (bsp_server_id s0) (bsp_is_vector s0) (P w ! j) x))
   \<and> mset outs = acc W (\<lambda>w. length (Q w)) (Suc (bsp_push_iter s)) (\<lambda>w j. bsp_pull_reply rm kv_id s0 W P j (Q w ! j))
        + acc W (\<lambda>w. length (P w)) (bsp_applied s) (\<lambda>w j. push_answer kv_id (P w ! j))"

definition bsp_inv :: "RangeManager \<Rightarrow> nat \<Rightarrow> 'v::comm_monoid_add BSPServer \<Rightarrow> nat set \<Rightarrow> (nat \<Rightarrow> 'v entry list)
    \<Rightarrow> (nat \<Rightarrow> 'v entry list) \<Rightarrow> 'v BSPServer \<Rightarrow> 'v out \<Rightarrow> bool" where
  "bsp_inv rm kv_id s0 W P Q s outs \<longleftrightarrow> bsp_core rm kv_id s0 W P Q s outs \<and> bsp_phase W P Q s"

text \<open>Every worker alternates, beginning with a pull.\<close>

definition balanced :: "nat set \<Rightarrow> (nat \<Rightarrow> 'v entry list) \<Rightarrow> (nat \<Rightarrow> 'v entry list) \<Rightarrow> bool" where
  "balanced W P Q \<longleftrightarrow> (\<forall>w\<in>W. length (P w) \<le> length (Q w) \<and> length (Q w) \<le> Suc (length (P w)))"

lemma bsp_phase_pushes:
  assumes "bsp_phase W P Q s" "balanced W P Q" "w \<in> W"
  shows "bsp_push_iter s \<le> length (P w)"
  using assms by (force simp: bsp_phase_def balanced_def split: if_splits)

lemma bsp_snapshot_recv:
  assumes "\<forall>w\<in>W. j \<le> length (P w)"
  shows "bsp_snapshot rm kv_id s0 W (recv e P) j = bsp_snapshot rm kv_id s0 W P j"
proof -
  have "(\<Sum>w\<in>W. \<Sum>i<j. push_effect rm kv_id sid v (recv e P w ! i) x)
      = (\<Sum>w\<in>W. \<Sum>i<j. push_effect rm kv_id sid v (P w ! i) x)" for sid v x
    using assms by (intro sum.cong refl) (simp add: recv_nth less_le_trans)
  then show ?thesis by (simp add: bsp_snapshot_def fun_eq_iff)
qed

lemma bsp_pull_replies_recv:
  assumes "\<forall>w\<in>W. K \<le> Suc (length (P w))"
  shows "acc W len K (\<lambda>w j. bsp_pull_reply rm kv_id s0 W (recv e P) j (Q w ! j))
       = acc W len K (\<lambda>w j. bsp_pull_reply rm kv_id s0 W P j (Q w ! j))"
proof (rule acc_cong)
  fix w j assume "j < K"
  then have "\<forall>w\<in>W. j \<le> length (P w)" using assms by fastforce
  then show "bsp_pull_reply rm kv_id s0 W (recv e P) j (Q w ! j) = bsp_pull_reply rm kv_id s0 W P j (Q w ! j)"
    by (simp add: bsp_pull_reply_def bsp_snapshot_recv)
qed

lemma nth_or_clear: "nth_or [] (xs[i := []]) j = (if j = i then [] else nth_or [] xs j)"
  by (auto simp: nth_or_def)

lemma bump_unfold:
  "(grow_to i 0 xs)[i := Suc (nth_or 0 xs i)] = bump i xs"
  by (simp add: bump_def)

lemma bump_nth [simp]: "bump i xs ! i = Suc (nth_or 0 xs i)"
  by (simp add: bump_def)

lemma block_fun:
  "nth_or [] ((grow_to j [] blk)[j := nth_or [] blk j @ [e]]) = (nth_or [] blk)(j := nth_or [] blk j @ [e])"
  by (auto simp: fun_eq_iff)

section \<open>The branches of the handler\<close>

lemma release_pulls_Nil [simp]: "release_pulls rm kv_id sid v [] st = Inr (st, [])"
  by (simp add: release_pulls_def)

lemma release_pushes_Nil [simp]: "release_pushes rm kv_id sid v a [] st = Inr (st, [])"
  by (simp add: release_pushes_def)

lemma bsp_push_blocked:
  assumes "j = nth_or 0 (bsp_push_progress s) src" "bsp_reply_phase s \<or> bsp_push_iter s \<noteq> j"
  shows "bsp_push rm kv_id ts cmd src bin s = Inr (s\<lparr>bsp_push_count := bump j (bsp_push_count s),
      bsp_push_progress := bump src (bsp_push_progress s),
      bsp_blocked_pushes := (grow_to j [] (bsp_blocked_pushes s))[j := nth_or [] (bsp_blocked_pushes s) j @ [(cmd, src, ts, bin)]]\<rparr>, [])"
  using assms by (auto simp: bsp_push_def Let_def bump_unfold)

lemma bsp_push_direct:
  assumes "j = nth_or 0 (bsp_push_progress s) src" "\<not> bsp_reply_phase s" "bsp_push_iter s = j"
    and "serve_push rm kv_id (bsp_server_id s) ts cmd (int src) bin (bsp_is_vector s) (bsp_is_assign s) (bsp_store s) = Inr (st1, o1)"
    and "int (Suc (nth_or 0 (bsp_push_count s) j)) \<noteq> bsp_num_workers s"
  shows "bsp_push rm kv_id ts cmd src bin s = Inr (s\<lparr>bsp_push_count := bump j (bsp_push_count s),
      bsp_push_progress := bump src (bsp_push_progress s), bsp_store := st1\<rparr>, o1)"
  using assms by (simp add: bsp_push_def Let_def bump_unfold)

lemma bsp_push_complete:
  assumes "j = nth_or 0 (bsp_push_progress s) src" "\<not> bsp_reply_phase s" "bsp_push_iter s = j"
    and "serve_push rm kv_id (bsp_server_id s) ts cmd (int src) bin (bsp_is_vector s) (bsp_is_assign s) (bsp_store s) = Inr (st1, o1)"
    and "int (Suc (nth_or 0 (bsp_push_count s) j)) = bsp_num_workers s"
    and "release_pulls rm kv_id (bsp_server_id s) (bsp_is_vector s) (nth_or [] (bsp_blocked_pulls s) (bsp_pull_iter s)) st1 = Inr (st2, o2)"
  shows "bsp_push rm kv_id ts cmd src bin s = Inr (s\<lparr>bsp_push_count := bump j (bsp_push_count s),
      bsp_push_progress := bump src (bsp_push_progress s), bsp_store := st2,
      bsp_blocked_pulls := (bsp_blocked_pulls s)[bsp_pull_iter s := []],
      bsp_reply_phase := True, bsp_push_iter := Suc j\<rparr>, o1 @ o2)"
proof (cases "bsp_pull_iter s < length (bsp_blocked_pulls s)")
  case True
  then show ?thesis using assms by (simp add: bsp_push_def Let_def bump_unfold nth_or_nth)
next
  case False
  then have "st2 = st1" "o2 = []" "(bsp_blocked_pulls s)[bsp_pull_iter s := []] = bsp_blocked_pulls s"
    using assms(6) by (simp_all add: nth_or_def list_update_beyond)
  then show ?thesis using False assms by (simp add: bsp_push_def Let_def bump_unfold)
qed

lemma bsp_pull_blocked:
  assumes "j = nth_or 0 (bsp_pull_progress s) src" "\<not> bsp_reply_phase s \<or> bsp_pull_iter s \<noteq> j"
  shows "bsp_pull rm kv_id ts cmd src bin s = Inr (s\<lparr>bsp_pull_count := bump j (bsp_pull_count s),
      bsp_pull_progress := bump src (bsp_pull_progress s),
      bsp_blocked_pulls := (grow_to j [] (bsp_blocked_pulls s))[j := nth_or [] (bsp_blocked_pulls s) j @ [(cmd, src, ts, bin)]]\<rparr>, [])"
  using assms by (auto simp: bsp_pull_def Let_def bump_unfold)

lemma bsp_pull_direct:
  assumes "j = nth_or 0 (bsp_pull_progress s) src" "bsp_reply_phase s" "bsp_pull_iter s = j"
    and "serve_pull rm kv_id (bsp_server_id s) ts cmd (int src) bin (bsp_is_vector s) (bsp_store s) = Inr (st1, o1)"
    and "int (Suc (nth_or 0 (bsp_pull_count s) j)) \<noteq> bsp_num_workers s"
  shows "bsp_pull rm kv_id ts cmd src bin s = Inr (s\<lparr>bsp_pull_count := bump j (bsp_pull_count s),
      bsp_pull_progress := bump src (bsp_pull_progress s), bsp_store := st1\<rparr>, o1)"
  using assms by (simp add: bsp_pull_def Let_def bump_unfold)

lemma bsp_pull_complete:
  assumes "j = nth_or 0 (bsp_pull_progress s) src" "bsp_reply_phase s" "bsp_pull_iter s = j"
    and "serve_pull rm kv_id (bsp_server_id s) ts cmd (int src) bin (bsp_is_vector s) (bsp_store s) = Inr (st1, o1)"
    and "int (Suc (nth_or 0 (bsp_pull_count s) j)) = bsp_num_workers s"
    and "release_pushes rm kv_id (bsp_server_id s) (bsp_is_vector s) (bsp_is_assign s) (nth_or [] (bsp_blocked_pushes s) (bsp_push_iter s)) st1 = Inr (st2, o2)"
  shows "bsp_pull rm kv_id ts cmd src bin s = Inr (s\<lparr>bsp_pull_count := bump j (bsp_pull_count s),
      bsp_pull_progress := bump src (bsp_pull_progress s), bsp_store := st2,
      bsp_blocked_pushes := (bsp_blocked_pushes s)[bsp_push_iter s := []],
      bsp_reply_phase := False, bsp_pull_iter := Suc j\<rparr>, o1 @ o2)"
proof (cases "bsp_push_iter s < length (bsp_blocked_pushes s)")
  case True
  then show ?thesis using assms by (simp add: bsp_pull_def Let_def bump_unfold nth_or_nth)
next
  case False
  then have "st2 = st1" "o2 = []" "(bsp_blocked_pushes s)[bsp_push_iter s := []] = bsp_blocked_pushes s"
    using assms(6) by (simp_all add: nth_or_def list_update_beyond)
  then show ?thesis using False assms by (simp add: bsp_pull_def Let_def bump_unfold)
qed

section \<open>Every request keeps the invariant\<close>

lemma bsp_coreD:
  assumes "bsp_core rm kv_id s0 W P Q s outs"
  shows "bsp_static s0 W s"
    and "chan W P (bsp_push_progress s) (bsp_push_count s) (nth_or [] (bsp_blocked_pushes s)) (bsp_applied s)"
    and "chan W Q (bsp_pull_progress s) (bsp_pull_count s) (nth_or [] (bsp_blocked_pulls s)) (Suc (bsp_push_iter s))"
    and "store_obs (bsp_store s) = (\<lambda>x. store_obs (bsp_store s0) x
        + acc W (\<lambda>w. length (P w)) (bsp_applied s)
            (\<lambda>w j. push_effect rm kv_id (bsp_server_id s0) (bsp_is_vector s0) (P w ! j) x))"
    and "mset outs = acc W (\<lambda>w. length (Q w)) (Suc (bsp_push_iter s)) (\<lambda>w j. bsp_pull_reply rm kv_id s0 W P j (Q w ! j))
        + acc W (\<lambda>w. length (P w)) (bsp_applied s) (\<lambda>w j. push_answer kv_id (P w ! j))"
  using assms by (simp_all add: bsp_core_def bsp_chans_def)

lemma bsp_push_replies:
  assumes "\<forall>w\<in>W. bsp_push_iter s \<le> length (P w)"
  shows "acc W len (Suc (bsp_push_iter s)) (\<lambda>w j. bsp_pull_reply rm kv_id s0 W (recv e P) j (Q w ! j))
      = acc W len (Suc (bsp_push_iter s)) (\<lambda>w j. bsp_pull_reply rm kv_id s0 W P j (Q w ! j))"
  using assms by (intro bsp_pull_replies_recv) simp

text \<open>A push that is buffered, and a push that is applied.\<close>

lemma bsp_core_push_blocked:
  assumes core: "bsp_core rm kv_id s0 W P Q s outs" and fin: "finite W" and src: "e_src e \<in> W"
    and low: "\<forall>w\<in>W. bsp_push_iter s \<le> length (P w)" and j: "j = length (P (e_src e))" "bsp_applied s \<le> j"
  shows "bsp_core rm kv_id s0 W (recv e P) Q (s\<lparr>bsp_push_count := bump j (bsp_push_count s),
      bsp_push_progress := bump (e_src e) (bsp_push_progress s),
      bsp_blocked_pushes := (grow_to j [] (bsp_blocked_pushes s))[j := nth_or [] (bsp_blocked_pushes s) j @ [e]]\<rparr>) outs"
proof -
  note effects = acc_recv_req [OF fin src, of P _ "\<lambda>w j f. push_effect rm kv_id (bsp_server_id s0) (bsp_is_vector s0) f _"]
  note answers = acc_recv_req [OF fin src, of P _ "\<lambda>w j f. push_answer kv_id f"]
  show ?thesis
    using bsp_coreD [OF core] chan_recv_blocked [OF bsp_coreD(2) [OF core] fin src j(1)] j bsp_push_replies [where s = s, OF low]
    unfolding bsp_core_def bsp_chans_def
    by (simp add: bsp_static_def block_fun effects answers)
qed

lemma bsp_core_push_served:
  assumes core: "bsp_core rm kv_id s0 W P Q s outs" and fin: "finite W" and src: "e_src e \<in> W"
    and low: "\<forall>w\<in>W. bsp_push_iter s \<le> length (P w)" and j: "j = length (P (e_src e))" "j < bsp_applied s"
    and st1: "store_obs st1 = (\<lambda>x. store_obs (bsp_store s) x + push_effect rm kv_id (bsp_server_id s0) (bsp_is_vector s0) e x)"
      "store_valid st1 = store_valid (bsp_store s)" "mset o1 = push_answer kv_id e"
  shows "bsp_core rm kv_id s0 W (recv e P) Q (s\<lparr>bsp_push_count := bump j (bsp_push_count s),
      bsp_push_progress := bump (e_src e) (bsp_push_progress s), bsp_store := st1\<rparr>) (outs @ o1)"
proof -
  note effects = acc_recv_req [OF fin src, of P _ "\<lambda>w j f. push_effect rm kv_id (bsp_server_id s0) (bsp_is_vector s0) f _"]
  note answers = acc_recv_req [OF fin src, of P _ "\<lambda>w j f. push_answer kv_id f"]
  show ?thesis
    using bsp_coreD [OF core] chan_recv_direct [OF bsp_coreD(2) [OF core] fin src j] j bsp_push_replies [where s = s, OF low] st1
    unfolding bsp_core_def bsp_chans_def
    by (simp add: bsp_static_def effects answers ac_simps)
qed

text \<open>The end of a push phase: the pulls of the next round are answered.\<close>

lemma bsp_core_to_pull_phase:
  assumes core: "bsp_core rm kv_id s0 W P Q s outs" and fin: "finite W"
    and ph: "\<not> bsp_reply_phase s" "bsp_pull_iter s = Suc (bsp_push_iter s)"
    and all: "\<forall>w\<in>W. bsp_push_iter s < length (P w)"
    and st2: "store_obs st2 = store_obs (bsp_store s)" "store_valid st2 = store_valid (bsp_store s)"
      "mset o2 = (\<Sum>f\<leftarrow>nth_or [] (bsp_blocked_pulls s) (bsp_pull_iter s).
          pull_answer rm kv_id (bsp_server_id s0) (bsp_is_vector s0) (store_obs (bsp_store s)) f)"
  shows "bsp_core rm kv_id s0 W P Q (s\<lparr>bsp_store := st2,
      bsp_blocked_pulls := (bsp_blocked_pulls s)[bsp_pull_iter s := []],
      bsp_reply_phase := True, bsp_push_iter := Suc (bsp_push_iter s)\<rparr>) (outs @ o2)"
proof -
  let ?k = "bsp_push_iter s"
  have snap: "store_obs (bsp_store s) = bsp_snapshot rm kv_id s0 W P (Suc ?k)"
    using bsp_coreD(4) [OF core] ph(1) all
    by (simp add: bsp_applied_def bsp_snapshot_def fun_eq_iff acc_full Suc_le_eq)
  have o2: "mset o2 = (\<Sum>w\<in>{w\<in>W. Suc ?k < length (Q w)}. bsp_pull_reply rm kv_id s0 W P (Suc ?k) (Q w ! Suc ?k))"
    using st2(3) chan_sum_blk [OF bsp_coreD(3) [OF core] order_refl, of "bsp_pull_reply rm kv_id s0 W P (Suc ?k)"] ph
    by (simp add: bsp_pull_reply_def snap)
  have "chan W Q (bsp_pull_progress s) (bsp_pull_count s) (nth_or [] ((bsp_blocked_pulls s)[Suc ?k := []])) (Suc (Suc ?k))"
    by (rule chan_blk_cong [OF bsp_coreD(3) [OF core]]) (simp_all add: nth_or_clear)
  then show ?thesis
    using bsp_coreD [OF core] ph st2(1,2) o2 unfolding bsp_core_def bsp_chans_def
    by (simp add: bsp_static_def bsp_applied_def acc_Suc [OF fin, of _ "Suc ?k"] ac_simps)
qed

lemma bsp_core_pull_blocked:
  assumes core: "bsp_core rm kv_id s0 W P Q s outs" and fin: "finite W" and src: "e_src e \<in> W"
    and j: "j = length (Q (e_src e))" "Suc (bsp_push_iter s) \<le> j"
  shows "bsp_core rm kv_id s0 W P (recv e Q) (s\<lparr>bsp_pull_count := bump j (bsp_pull_count s),
      bsp_pull_progress := bump (e_src e) (bsp_pull_progress s),
      bsp_blocked_pulls := (grow_to j [] (bsp_blocked_pulls s))[j := nth_or [] (bsp_blocked_pulls s) j @ [e]]\<rparr>) outs"
proof -
  note answers = acc_recv_req [OF fin src, of Q _ "\<lambda>w j f. bsp_pull_reply rm kv_id s0 W P j f"]
  show ?thesis
    using bsp_coreD [OF core] chan_recv_blocked [OF bsp_coreD(3) [OF core] fin src j(1)] j
    unfolding bsp_core_def bsp_chans_def by (simp add: bsp_static_def block_fun answers)
qed

lemma bsp_core_pull_served:
  assumes core: "bsp_core rm kv_id s0 W P Q s outs" and fin: "finite W" and src: "e_src e \<in> W"
    and low: "\<forall>w\<in>W. bsp_push_iter s \<le> length (P w)" and ph: "bsp_reply_phase s"
    and j: "j = length (Q (e_src e))" "j = bsp_push_iter s"
    and st1: "store_obs st1 = store_obs (bsp_store s)" "store_valid st1 = store_valid (bsp_store s)"
      "mset o1 = pull_answer rm kv_id (bsp_server_id s0) (bsp_is_vector s0) (store_obs (bsp_store s)) e"
  shows "bsp_core rm kv_id s0 W P (recv e Q) (s\<lparr>bsp_pull_count := bump j (bsp_pull_count s),
      bsp_pull_progress := bump (e_src e) (bsp_pull_progress s), bsp_store := st1\<rparr>) (outs @ o1)"
proof -
  note answers = acc_recv_req [OF fin src, of Q _ "\<lambda>w j f. bsp_pull_reply rm kv_id s0 W P j f"]
  have "store_obs (bsp_store s) = bsp_snapshot rm kv_id s0 W P j"
    using bsp_coreD(4) [OF core] low ph j by (simp add: bsp_applied_def bsp_snapshot_def fun_eq_iff acc_full)
  then have "mset o1 = bsp_pull_reply rm kv_id s0 W P j e" using st1(3) by (simp add: bsp_pull_reply_def)
  then show ?thesis
    using bsp_coreD [OF core] chan_recv_direct [OF bsp_coreD(3) [OF core] fin src j(1)] j st1(1,2)
    unfolding bsp_core_def bsp_chans_def by (simp add: bsp_static_def answers ac_simps)
qed

text \<open>The end of a pull phase: the pushes of the round that arrived early are applied.\<close>

lemma bsp_core_to_push_phase:
  assumes core: "bsp_core rm kv_id s0 W P Q s outs" and fin: "finite W" and ph: "bsp_reply_phase s"
    and st2: "store_obs st2 = (\<lambda>x. store_obs (bsp_store s) x + (\<Sum>f\<leftarrow>nth_or [] (bsp_blocked_pushes s) (bsp_push_iter s).
          push_effect rm kv_id (bsp_server_id s0) (bsp_is_vector s0) f x))"
      "store_valid st2 = store_valid (bsp_store s)"
      "mset o2 = (\<Sum>f\<leftarrow>nth_or [] (bsp_blocked_pushes s) (bsp_push_iter s). push_answer kv_id f)"
  shows "bsp_core rm kv_id s0 W P Q (s\<lparr>bsp_store := st2,
      bsp_blocked_pushes := (bsp_blocked_pushes s)[bsp_push_iter s := []],
      bsp_reply_phase := False, bsp_pull_iter := i\<rparr>) (outs @ o2)"
proof -
  let ?k = "bsp_push_iter s"
  have ap: "bsp_applied s = ?k" using ph by (simp add: bsp_applied_def)
  note sums = chan_sum_blk [OF bsp_coreD(2) [OF core], unfolded ap, OF order_refl]
  have "chan W P (bsp_push_progress s) (bsp_push_count s) (nth_or [] ((bsp_blocked_pushes s)[?k := []])) (Suc ?k)"
    by (rule chan_blk_cong [OF bsp_coreD(2) [OF core]]) (simp_all add: nth_or_clear ap)
  then show ?thesis
    using bsp_coreD [OF core] st2 ph unfolding bsp_core_def bsp_chans_def
    by (simp add: bsp_static_def bsp_applied_def ap acc_Suc [OF fin, of _ ?k] sums ac_simps)
qed

text \<open>A push of the current round: it is applied, and if it is the last one of the round the pull phase begins.\<close>

lemma bsp_push_applied_step:
  fixes cmd src ts bin
  defines "e \<equiv> (cmd, src, ts, bin)"
  assumes core: "bsp_core rm kv_id s0 W P Q s outs" and ph: "bsp_phase W P Q s" and fin: "finite W" and src: "src \<in> W"
    and low: "\<forall>w\<in>W. bsp_push_iter s \<le> length (P w)"
    and np: "\<not> bsp_reply_phase s" and kj: "bsp_push_iter s = length (P src)" and q: "length (Q src) = Suc (length (P src))"
    and ok: "push_ok rm kv_id (bsp_server_id s0) (bsp_is_vector s0) (store_valid (bsp_store s0)) e"
    and oks: "\<And>w e. w \<in> W \<Longrightarrow> e \<in> set (Q w) \<Longrightarrow> pull_ok rm kv_id (bsp_server_id s0) (bsp_is_vector s0) (store_valid (bsp_store s0)) e"
  shows "\<exists>s' o1. bsp_push rm kv_id ts cmd src bin s = Inr (s', o1) \<and> bsp_inv rm kv_id s0 W (recv e P) Q s' (outs @ o1)"
proof -
  let ?j = "length (P src)" and ?k = "bsp_push_iter s"
  have e: "e_src e = src" by (simp add: e_def)
  note st = bsp_coreD(1) [OF core, unfolded bsp_static_def]
  have prog: "?j = nth_or 0 (bsp_push_progress s) src" using chan_prog [OF bsp_coreD(2) [OF core]] by simp
  obtain st1 o1 where sp: "serve_push rm kv_id (bsp_server_id s) ts cmd (int src) bin (bsp_is_vector s) (bsp_is_assign s) (bsp_store s) = Inr (st1, o1)"
    and st1: "store_obs st1 = (\<lambda>x. store_obs (bsp_store s) x + push_effect rm kv_id (bsp_server_id s0) (bsp_is_vector s0) e x)"
      "store_valid st1 = store_valid (bsp_store s)" "mset o1 = push_answer kv_id e"
    using serve_push_ok [of rm kv_id "bsp_server_id s0" "bsp_is_vector s0" "bsp_store s" cmd src ts bin] ok st
    by (auto simp: e_def)
  let ?s = "s\<lparr>bsp_push_count := bump ?j (bsp_push_count s), bsp_push_progress := bump src (bsp_push_progress s), bsp_store := st1\<rparr>"
  have core1: "bsp_core rm kv_id s0 W (recv e P) Q ?s (outs @ o1)"
    using bsp_core_push_served [OF core fin _ low _ _ st1, of ?j] src kj np by (simp add: e bsp_applied_def)
  have cnt: "int (Suc (nth_or 0 (bsp_push_count s) ?j)) = bsp_num_workers s \<longleftrightarrow> (\<forall>w\<in>W. ?k < length (recv e P w))"
    using chan_cnt_full [OF bsp_coreD(2) [OF core1] fin, of ?j] st kj by (simp del: of_nat_Suc)
  show ?thesis
  proof (cases "\<forall>w\<in>W. ?k < length (recv e P w)")
    case False
    then have "\<exists>w\<in>W. length (recv e P w) = ?k" using low recv_length_mono [of P] by (meson le_antisym le_trans not_less)
    then have "bsp_phase W (recv e P) Q ?s" using ph np by (simp add: bsp_phase_def)
    then show ?thesis using bsp_push_direct [OF prog np kj sp] False cnt core1 by (auto simp: bsp_inv_def)
  next
    case True
    have it: "bsp_pull_iter s = Suc ?k" using ph np by (simp add: bsp_phase_def)
    have "\<forall>f \<in> set (nth_or [] (bsp_blocked_pulls s) (Suc ?k)). pull_ok rm kv_id (bsp_server_id s0) (bsp_is_vector s0) (store_valid st1) f"
      using chan_blk_mem [OF bsp_coreD(3) [OF core]] oks st1(2) st by (metis le_refl nth_mem)
    then obtain st2 o2 where rel: "release_pulls rm kv_id (bsp_server_id s) (bsp_is_vector s) (nth_or [] (bsp_blocked_pulls s) (bsp_pull_iter s)) st1 = Inr (st2, o2)"
      and st2: "store_obs st2 = store_obs (bsp_store ?s)" "store_valid st2 = store_valid (bsp_store ?s)"
        "mset o2 = (\<Sum>f\<leftarrow>nth_or [] (bsp_blocked_pulls ?s) (bsp_pull_iter ?s).
            pull_answer rm kv_id (bsp_server_id s0) (bsp_is_vector s0) (store_obs (bsp_store ?s)) f)"
      using release_pulls_ok [of "nth_or [] (bsp_blocked_pulls s) (Suc ?k)" rm kv_id "bsp_server_id s0" "bsp_is_vector s0" st1] st it by auto
    have "bsp_phase W (recv e P) Q (s\<lparr>bsp_reply_phase := True, bsp_push_iter := Suc ?k\<rparr>)"
      using True src it q kj by (auto simp: bsp_phase_def Suc_le_eq)
    then show ?thesis
      using bsp_core_to_pull_phase [OF core1 fin _ _ _ st2] True np it cnt kj
        bsp_push_complete [OF prog np kj sp _ rel] by (auto simp: bsp_inv_def bsp_phase_def)
  qed
qed

lemma bsp_push_step:
  fixes cmd src ts bin
  defines "e \<equiv> (cmd, src, ts, bin)"
  assumes inv: "bsp_inv rm kv_id s0 W P Q s outs" and fin: "finite W" and src: "src \<in> W"
    and bal: "balanced W P Q" "balanced W (recv e P) Q"
    and ok: "push_ok rm kv_id (bsp_server_id s0) (bsp_is_vector s0) (store_valid (bsp_store s0)) e"
    and oks: "\<And>w e. w \<in> W \<Longrightarrow> e \<in> set (Q w) \<Longrightarrow> pull_ok rm kv_id (bsp_server_id s0) (bsp_is_vector s0) (store_valid (bsp_store s0)) e"
  shows "\<exists>s' o1. bsp_push rm kv_id ts cmd src bin s = Inr (s', o1) \<and> bsp_inv rm kv_id s0 W (recv e P) Q s' (outs @ o1)"
proof (cases "bsp_reply_phase s \<or> bsp_push_iter s \<noteq> length (P src)")
  case True
  have core: "bsp_core rm kv_id s0 W P Q s outs" and ph: "bsp_phase W P Q s" using inv by (simp_all add: bsp_inv_def)
  have low: "\<forall>w\<in>W. bsp_push_iter s \<le> length (P w)" using bsp_phase_pushes [OF ph bal(1)] by blast
  then have hi: "bsp_applied s \<le> length (P src)" using True src by (force simp: bsp_applied_def)
  have prog: "length (P src) = nth_or 0 (bsp_push_progress s) src" using chan_prog [OF bsp_coreD(2) [OF core]] by simp
  have e: "e_src e = src" by (simp add: e_def)
  have "bsp_phase W (recv e P) Q s"
    using ph hi True unfolding bsp_phase_def bsp_applied_def
    by (auto simp: recv_length e le_SucI split: if_splits) (metis Suc_n_not_le_n)
  then show ?thesis
    using bsp_core_push_blocked [OF core fin _ low, of e] hi src bsp_push_blocked [OF prog True, of rm kv_id ts cmd bin]
    by (simp add: e bsp_inv_def bsp_phase_def flip: e_def)
next
  case False
  have q: "length (Q src) = Suc (length (P src))" using bal src by (force simp: balanced_def recv_length e_def)
  have low: "\<forall>w\<in>W. bsp_push_iter s \<le> length (P w)" using inv bsp_phase_pushes [OF _ bal(1)] by (auto simp: bsp_inv_def)
  show ?thesis unfolding e_def
    by (rule bsp_push_applied_step [OF _ _ fin src low]) (use False inv q ok oks in \<open>auto simp: bsp_inv_def e_def\<close>)
qed

lemma bsp_pull_served_step:
  fixes cmd src ts bin
  defines "e \<equiv> (cmd, src, ts, bin)"
  assumes core: "bsp_core rm kv_id s0 W P Q s outs" and ph: "bsp_phase W P Q s" and fin: "finite W" and src: "src \<in> W"
    and bal: "balanced W P Q"
    and np: "bsp_reply_phase s" and kj: "bsp_push_iter s = length (Q src)" and q: "length (P src) = length (Q src)"
    and ok: "pull_ok rm kv_id (bsp_server_id s0) (bsp_is_vector s0) (store_valid (bsp_store s0)) e"
    and oks: "\<And>w e. w \<in> W \<Longrightarrow> e \<in> set (P w) \<Longrightarrow> push_ok rm kv_id (bsp_server_id s0) (bsp_is_vector s0) (store_valid (bsp_store s0)) e"
  shows "\<exists>s' o1. bsp_pull rm kv_id ts cmd src bin s = Inr (s', o1) \<and> bsp_inv rm kv_id s0 W P (recv e Q) s' (outs @ o1)"
proof -
  let ?j = "length (Q src)" and ?k = "bsp_push_iter s"
  have e: "e_src e = src" by (simp add: e_def)
  note st = bsp_coreD(1) [OF core, unfolded bsp_static_def]
  have it: "bsp_pull_iter s = ?j" and low: "\<forall>w\<in>W. ?k \<le> length (P w)" using ph np kj by (simp_all add: bsp_phase_def)
  have prog: "?j = nth_or 0 (bsp_pull_progress s) src" using chan_prog [OF bsp_coreD(3) [OF core]] by simp
  obtain st1 o1 where sp: "serve_pull rm kv_id (bsp_server_id s) ts cmd (int src) bin (bsp_is_vector s) (bsp_store s) = Inr (st1, o1)"
    and st1: "store_obs st1 = store_obs (bsp_store s)" "store_valid st1 = store_valid (bsp_store s)"
      "mset o1 = pull_answer rm kv_id (bsp_server_id s0) (bsp_is_vector s0) (store_obs (bsp_store s)) e"
    using serve_pull_ok [of rm kv_id "bsp_server_id s0" "bsp_is_vector s0" "bsp_store s" cmd src ts bin] ok st
    by (auto simp: e_def)
  let ?s = "s\<lparr>bsp_pull_count := bump ?j (bsp_pull_count s), bsp_pull_progress := bump src (bsp_pull_progress s), bsp_store := st1\<rparr>"
  have core1: "bsp_core rm kv_id s0 W P (recv e Q) ?s (outs @ o1)"
    by (rule bsp_core_pull_served [OF core fin _ low np _ _ st1, of ?j, unfolded e]) (use src kj in simp_all)
  have cnt: "int (Suc (nth_or 0 (bsp_pull_count s) ?j)) = bsp_num_workers s \<longleftrightarrow> (\<forall>w\<in>W. ?k < length (recv e Q w))"
    using chan_cnt_full [OF bsp_coreD(3) [OF core1] fin, of ?j] st kj by (simp del: of_nat_Suc)
  show ?thesis
  proof (cases "\<forall>w\<in>W. ?k < length (recv e Q w)")
    case False
    moreover have "\<forall>w\<in>W. ?k \<le> length (Q w)" using low bal by (meson balanced_def le_trans)
    ultimately have "\<exists>w\<in>W. length (recv e Q w) = ?k" using recv_length_mono [of Q] by (meson le_antisym le_trans not_less)
    then have "bsp_phase W P (recv e Q) ?s" using ph np by (simp add: bsp_phase_def)
    then show ?thesis using bsp_pull_direct [OF prog np it sp] False cnt core1 by (auto simp: bsp_inv_def)
  next
    case True
    have "\<forall>f \<in> set (nth_or [] (bsp_blocked_pushes s) ?k). push_ok rm kv_id (bsp_server_id s0) (bsp_is_vector s0) (store_valid st1) f"
      using chan_blk_mem [OF bsp_coreD(2) [OF core], of ?k] oks st1(2) st np by (metis bsp_applied_def le_refl nth_mem)
    then obtain st2 o2 where rel: "release_pushes rm kv_id (bsp_server_id s) (bsp_is_vector s) (bsp_is_assign s) (nth_or [] (bsp_blocked_pushes s) ?k) st1 = Inr (st2, o2)"
      and st2: "store_obs st2 = (\<lambda>x. store_obs (bsp_store ?s) x + (\<Sum>f\<leftarrow>nth_or [] (bsp_blocked_pushes ?s) (bsp_push_iter ?s).
            push_effect rm kv_id (bsp_server_id s0) (bsp_is_vector s0) f x))"
        "store_valid st2 = store_valid (bsp_store ?s)"
        "mset o2 = (\<Sum>f\<leftarrow>nth_or [] (bsp_blocked_pushes ?s) (bsp_push_iter ?s). push_answer kv_id f)"
      using release_pushes_ok [of "nth_or [] (bsp_blocked_pushes s) ?k" rm kv_id "bsp_server_id s0" "bsp_is_vector s0" st1] st by auto
    have "bsp_phase W P (recv e Q) (s\<lparr>bsp_reply_phase := False, bsp_pull_iter := Suc ?j\<rparr>)"
      using True src q kj by (auto simp: bsp_phase_def Suc_le_eq)
    then show ?thesis
      using bsp_core_to_push_phase [OF core1 fin _ st2, of "Suc ?j"] True np cnt
        bsp_pull_complete [OF prog np it sp _ rel] by (auto simp: bsp_inv_def bsp_phase_def)
  qed
qed

lemma bsp_pull_step:
  fixes cmd src ts bin
  defines "e \<equiv> (cmd, src, ts, bin)"
  assumes inv: "bsp_inv rm kv_id s0 W P Q s outs" and fin: "finite W" and src: "src \<in> W"
    and bal: "balanced W P Q" "balanced W P (recv e Q)"
    and ok: "pull_ok rm kv_id (bsp_server_id s0) (bsp_is_vector s0) (store_valid (bsp_store s0)) e"
    and oks: "\<And>w e. w \<in> W \<Longrightarrow> e \<in> set (P w) \<Longrightarrow> push_ok rm kv_id (bsp_server_id s0) (bsp_is_vector s0) (store_valid (bsp_store s0)) e"
  shows "\<exists>s' o1. bsp_pull rm kv_id ts cmd src bin s = Inr (s', o1) \<and> bsp_inv rm kv_id s0 W P (recv e Q) s' (outs @ o1)"
proof -
  have core: "bsp_core rm kv_id s0 W P Q s outs" and ph: "bsp_phase W P Q s" using inv by (simp_all add: bsp_inv_def)
  have e: "e_src e = src" by (simp add: e_def)
  have q: "length (P src) = length (Q src)" using bal src by (force simp: balanced_def recv_length e)
  have prog: "length (Q src) = nth_or 0 (bsp_pull_progress s) src" using chan_prog [OF bsp_coreD(3) [OF core]] by simp
  show ?thesis
  proof (cases "\<not> bsp_reply_phase s \<or> bsp_pull_iter s \<noteq> length (Q src)")
    case True
    have hi: "Suc (bsp_push_iter s) \<le> length (Q src)"
      using ph True src q bal by (auto simp: bsp_phase_def split: if_splits intro: Suc_leI le_neq_implies_less)
    then have "bsp_phase W P (recv e Q) s"
      using ph unfolding bsp_phase_def
      by (auto simp: recv_length e le_SucI split: if_splits) (metis Suc_n_not_le_n)
    then show ?thesis
      using bsp_core_pull_blocked [OF core fin, of e] hi src bsp_pull_blocked [OF prog True, of rm kv_id ts cmd bin]
      by (simp add: e bsp_inv_def bsp_phase_def flip: e_def)
  next
    case False
    then have "bsp_push_iter s = length (Q src)" using ph by (simp add: bsp_phase_def)
    then show ?thesis unfolding e_def
      by (intro bsp_pull_served_step [OF core ph fin src bal(1)]) (use False q ok oks in \<open>auto simp: e_def\<close>)
  qed
qed

section \<open>Histories\<close>

definition pushes_of :: "(bool \<times> 'v entry) list \<Rightarrow> nat \<Rightarrow> 'v entry list" where
  "pushes_of h w = map snd (filter (\<lambda>m. fst m \<and> e_src (snd m) = w) h)"

definition pulls_of :: "(bool \<times> 'v entry) list \<Rightarrow> nat \<Rightarrow> 'v entry list" where
  "pulls_of h w = map snd (filter (\<lambda>m. \<not> fst m \<and> e_src (snd m) = w) h)"

definition request_ok :: "RangeManager \<Rightarrow> nat \<Rightarrow> 'v BSPServer \<Rightarrow> nat set \<Rightarrow> bool \<times> 'v entry \<Rightarrow> bool" where
  "request_ok rm kv_id s0 W = (\<lambda>(push, e). e_src e \<in> W \<and> e_cmd e \<noteq> 4 \<and> e_cmd e < consistency_control_off_magic
     \<and> (if push then push_ok rm kv_id (bsp_server_id s0) (bsp_is_vector s0) (store_valid (bsp_store s0)) e
        else pull_ok rm kv_id (bsp_server_id s0) (bsp_is_vector s0) (store_valid (bsp_store s0)) e))"

definition bsp_history :: "RangeManager \<Rightarrow> nat \<Rightarrow> 'v BSPServer \<Rightarrow> nat set \<Rightarrow> (bool \<times> 'v entry) list \<Rightarrow> bool" where
  "bsp_history rm kv_id s0 W h \<longleftrightarrow> (\<forall>m \<in> set h. request_ok rm kv_id s0 W m)
     \<and> (\<forall>i \<in> {..length h}. balanced W (pushes_of (take i h)) (pulls_of (take i h)))"

definition bsp_fresh :: "'v BSPServer \<Rightarrow> bool" where
  "bsp_fresh s \<longleftrightarrow> bsp_push_iter s = 0 \<and> bsp_push_count s = [] \<and> bsp_push_progress s = [] \<and> bsp_blocked_pushes s = []
     \<and> bsp_pull_iter s = 0 \<and> bsp_pull_count s = [] \<and> bsp_pull_progress s = [] \<and> bsp_blocked_pulls s = []
     \<and> bsp_reply_phase s"

text \<open>
  The specification: a pull of round \<open>j\<close> is answered once every worker has pushed \<open>j\<close> times, from the
  snapshot of round \<open>j\<close>; a push of round \<open>j\<close> is applied and answered once every worker has pulled more than \<open>j\<close> times.
\<close>

definition min_len :: "nat set \<Rightarrow> (nat \<Rightarrow> 'v entry list) \<Rightarrow> nat" where
  "min_len W req = Min ((\<lambda>w. length (req w)) ` W)"

definition bsp_answers :: "RangeManager \<Rightarrow> nat \<Rightarrow> 'v::comm_monoid_add BSPServer \<Rightarrow> nat set \<Rightarrow> (nat \<Rightarrow> 'v entry list)
    \<Rightarrow> (nat \<Rightarrow> 'v entry list) \<Rightarrow> (int \<times> 'v bin) multiset" where
  "bsp_answers rm kv_id s0 W P Q =
     (\<Sum>w\<in>W. \<Sum>j<min (length (Q w)) (Suc (min_len W P)). bsp_pull_reply rm kv_id s0 W P j (Q w ! j))
   + (\<Sum>w\<in>W. \<Sum>j<min (length (P w)) (min_len W Q). push_answer kv_id (P w ! j))"

lemma pushes_of_Nil [simp]: "pushes_of [] = (\<lambda>w. [])"
  by (simp add: pushes_of_def fun_eq_iff)

lemma pulls_of_Nil [simp]: "pulls_of [] = (\<lambda>w. [])"
  by (simp add: pulls_of_def fun_eq_iff)

lemma pushes_of_snoc:
  "pushes_of (h @ [(True, e)]) = recv e (pushes_of h)" "pushes_of (h @ [(False, e)]) = pushes_of h"
  by (auto simp: pushes_of_def recv_def fun_eq_iff)

lemma pulls_of_snoc:
  "pulls_of (h @ [(False, e)]) = recv e (pulls_of h)" "pulls_of (h @ [(True, e)]) = pulls_of h"
  by (auto simp: pulls_of_def recv_def fun_eq_iff)

lemma bsp_history_snoc:
  "bsp_history rm kv_id s0 W (h @ [m]) \<Longrightarrow> bsp_history rm kv_id s0 W h \<and> request_ok rm kv_id s0 W m
     \<and> balanced W (pushes_of (h @ [m])) (pulls_of (h @ [m]))"
proof -
  assume *: "bsp_history rm kv_id s0 W (h @ [m])"
  have "balanced W (pushes_of (take i h)) (pulls_of (take i h))" if "i \<le> length h" for i
  proof -
    have "balanced W (pushes_of (take i (h @ [m]))) (pulls_of (take i (h @ [m])))"
      using * that unfolding bsp_history_def by (metis atMost_iff le_SucI length_append_singleton)
    then show ?thesis using that by simp
  qed
  moreover have "balanced W (pushes_of (h @ [m])) (pulls_of (h @ [m]))"
    using * unfolding bsp_history_def by (metis atMost_iff order_refl take_all_iff)
  ultimately show ?thesis using * by (simp add: bsp_history_def)
qed

lemma bsp_history_balanced: "bsp_history rm kv_id s0 W h \<Longrightarrow> balanced W (pushes_of h) (pulls_of h)"
  unfolding bsp_history_def by (fastforce dest: bspec [where x = "length h"])

lemma bsp_history_push:
  "bsp_history rm kv_id s0 W h \<Longrightarrow> e \<in> set (pushes_of h w)
     \<Longrightarrow> push_ok rm kv_id (bsp_server_id s0) (bsp_is_vector s0) (store_valid (bsp_store s0)) e"
  by (fastforce simp: bsp_history_def request_ok_def pushes_of_def)

lemma bsp_history_pull:
  "bsp_history rm kv_id s0 W h \<Longrightarrow> e \<in> set (pulls_of h w)
     \<Longrightarrow> pull_ok rm kv_id (bsp_server_id s0) (bsp_is_vector s0) (store_valid (bsp_store s0)) e"
  by (fastforce simp: bsp_history_def request_ok_def pulls_of_def)

lemma bsp_Process_request:
  assumes "request_ok rm kv_id s0 W (push, (cmd, src, ts, bin))"
  shows "bsp_Process rm kv_id ts (encode_request push (cmd, src, ts, bin)) s
    = (if push then bsp_push rm kv_id ts cmd src bin s else bsp_pull rm kv_id ts cmd src bin s)"
  using assms by (simp add: bsp_Process_def encode_request_def request_ok_def e_cmd_def)

lemma bsp_inv_init:
  assumes "bsp_fresh s0" "bsp_num_workers s0 = int (card W)" "\<not> bsp_is_assign s0" "W \<noteq> {}"
  shows "bsp_inv rm kv_id s0 W (\<lambda>w. []) (\<lambda>w. []) s0 []"
  using assms by (auto simp: bsp_inv_def bsp_core_def bsp_phase_def bsp_chans_def bsp_static_def bsp_fresh_def
      chan_def acc_def bsp_applied_def)

lemma bsp_run_snoc:
  "bsp_run rm kv_id (h @ [(push, e)]) s0 = bindE (bsp_run rm kv_id h s0) (\<lambda>(s, out).
     bindE (bsp_Process rm kv_id (e_ts e) (encode_request push e) s) (\<lambda>(s, o1). Inr (s, out @ o1)))"
  unfolding bsp_run_def foldE_append by (rule arg_cong [of _ _ "bindE _"]) (auto simp: fun_eq_iff)

lemma bsp_run_inv:
  assumes "finite W" "W \<noteq> {}" "bsp_fresh s0" "bsp_num_workers s0 = int (card W)" "\<not> bsp_is_assign s0"
    and "bsp_history rm kv_id s0 W h"
  shows "\<exists>s outs. bsp_run rm kv_id h s0 = Inr (s, outs) \<and> bsp_inv rm kv_id s0 W (pushes_of h) (pulls_of h) s outs"
  using assms(6)
proof (induction h rule: rev_induct)
  case Nil
  then show ?case using bsp_inv_init [OF assms(3,4,5,2)] by (simp add: bsp_run_def)
next
  case (snoc m h)
  obtain push cmd src ts bin where m: "m = (push, (cmd, src, ts, bin))" by (metis surj_pair)
  let ?e = "(cmd, src, ts, bin)"
  have hist: "bsp_history rm kv_id s0 W h" and req: "request_ok rm kv_id s0 W m"
    and bal: "balanced W (pushes_of (h @ [m])) (pulls_of (h @ [m]))"
    using bsp_history_snoc [OF snoc.prems] by auto
  obtain s outs where run: "bsp_run rm kv_id h s0 = Inr (s, outs)"
    and inv: "bsp_inv rm kv_id s0 W (pushes_of h) (pulls_of h) s outs" using snoc.IH [OF hist] by auto
  have src: "src \<in> W" using req m by (simp add: request_ok_def)
  have "\<exists>s' o1. bsp_Process rm kv_id ts (encode_request push ?e) s = Inr (s', o1)
      \<and> bsp_inv rm kv_id s0 W (pushes_of (h @ [m])) (pulls_of (h @ [m])) s' (outs @ o1)"
  proof (cases push)
    case True
    then show ?thesis
      using bsp_push_step [OF inv assms(1) src bsp_history_balanced [OF hist], of cmd ts bin] bal req bsp_history_pull [OF hist]
      unfolding m bsp_Process_request [OF req [unfolded m]]
      by (simp add: pushes_of_snoc pulls_of_snoc request_ok_def)
  next
    case False
    then show ?thesis
      using bsp_pull_step [OF inv assms(1) src bsp_history_balanced [OF hist], of cmd ts bin] bal req bsp_history_push [OF hist]
      unfolding m bsp_Process_request [OF req [unfolded m]]
      by (simp add: pushes_of_snoc pulls_of_snoc request_ok_def)
  qed
  then show ?case using m run by (auto simp: bsp_run_snoc e_ts_def)
qed

lemma min_lenI:
  assumes "finite W" "w \<in> W" "length (req w) = k" "\<forall>w\<in>W. k \<le> length (req w)"
  shows "min_len W req = k"
  unfolding min_len_def using assms by (intro Min_eqI) auto

lemma bsp_inv_rounds:
  assumes "bsp_inv rm kv_id s0 W P Q s outs" "finite W" and bal: "balanced W P Q"
  shows "bsp_push_iter s = min_len W P" and "bsp_applied s = min_len W Q"
proof -
  have ph: "bsp_phase W P Q s" using assms(1) by (simp add: bsp_inv_def)
  have low: "\<forall>w\<in>W. bsp_push_iter s \<le> length (P w)" using bsp_phase_pushes [OF ph bal] by blast
  show "bsp_push_iter s = min_len W P"
  proof (cases "bsp_reply_phase s")
    case True
    then obtain w where w: "w \<in> W" "length (Q w) = bsp_push_iter s" using ph by (auto simp: bsp_phase_def)
    then have "length (P w) = bsp_push_iter s" using low bal by (force simp: balanced_def intro: le_antisym)
    then show ?thesis using min_lenI [where req = P, OF assms(2) w(1) _ low] by simp
  next
    case False
    then obtain w where w: "w \<in> W" "length (P w) = bsp_push_iter s" using ph by (auto simp: bsp_phase_def)
    then show ?thesis using min_lenI [where req = P, OF assms(2) w low] by simp
  qed
  show "bsp_applied s = min_len W Q"
  proof (cases "bsp_reply_phase s")
    case True
    then obtain w where w: "w \<in> W" "length (Q w) = bsp_push_iter s" using ph by (auto simp: bsp_phase_def)
    have "\<forall>w\<in>W. bsp_push_iter s \<le> length (Q w)" using low bal by (meson balanced_def le_trans)
    then show ?thesis using min_lenI [where req = Q, OF assms(2) w] True by (simp add: bsp_applied_def)
  next
    case False
    then obtain w where w: "w \<in> W" "length (P w) = bsp_push_iter s" "\<forall>w\<in>W. Suc (bsp_push_iter s) \<le> length (Q w)"
      using ph by (auto simp: bsp_phase_def)
    then have "length (Q w) = Suc (bsp_push_iter s)" using bal by (metis balanced_def le_antisym)
    then show ?thesis using min_lenI [where req = Q, OF assms(2) w(1) _ w(3)] False by (simp add: bsp_applied_def)
  qed
qed

section \<open>Initialisation\<close>

text \<open>A message of \<^verbatim>\<open>InitForConsistencyControl\<close>: the number of workers that it carries, its sender and its timestamp.\<close>

definition init_message :: "int \<times> nat \<times> int \<Rightarrow> bool \<times> 'v entry" where
  "init_message = (\<lambda>(n, src, ts). (True, (4, src, ts, [FInt n])))"

definition init_reply :: "nat \<Rightarrow> nat \<times> int \<Rightarrow> int \<times> 'v bin" where
  "init_reply kv_id = (\<lambda>(src, ts). Response kv_id ts 4 True (int src) empty_KVPairs (-1))"

lemma bsp_reset_simps [simp]:
  "bsp_init_count (bsp_reset n s) = bsp_init_count s" "bsp_store (bsp_reset n s) = bsp_store s"
  "bsp_server_id (bsp_reset n s) = bsp_server_id s" "bsp_is_vector (bsp_reset n s) = bsp_is_vector s"
  "bsp_is_assign (bsp_reset n s) = bsp_is_assign s" "n \<noteq> -1 \<Longrightarrow> bsp_num_workers (bsp_reset n s) = n"
  by (simp_all add: bsp_reset_def Let_def)

lemma bsp_init_run:
  assumes "bsp_init_count s = 0" "ms \<noteq> []" "num = (if fst (hd ms) = -1 then bsp_num_workers s else fst (hd ms))" "int (length ms) \<le> num"
  shows "bsp_run rm kv_id (map init_message ms) s
    = Inr ((bsp_reset (fst (hd ms)) s)\<lparr>bsp_init_count := if int (length ms) = num then 0 else int (length ms)\<rparr>, map (\<lambda>(n, w). init_reply kv_id w) ms)"
  using assms(2-4)
proof (induction ms rule: rev_induct)
  case (snoc q ms)
  obtain n src ts where q: "q = (n, src, ts)" using prod_cases3 by blast
  have req: "init_message (n, src, ts) = (True, (4, src, ts, [FInt n]))" and rep: "init_reply kv_id (src, ts) = Response kv_id ts 4 True (int src) empty_KVPairs (-1)"
    by (simp_all add: q init_message_def init_reply_def)
  note ev = bsp_Process_def encode_request_def bsp_init_def req rep e_ts_def Let_def
  have num: "bsp_num_workers (bsp_reset (fst (hd ms)) s) = num" if "ms \<noteq> []" using snoc.prems(2) that by (simp add: bsp_reset_def Let_def)
  show ?case
  proof (cases "ms = []")
    case True
    then show ?thesis using assms(1) snoc.prems by (auto simp: ev q bsp_run_def bsp_reset_def)
  next
    case False
    have run: "bsp_run rm kv_id (map init_message ms) s
        = Inr ((bsp_reset (fst (hd ms)) s)\<lparr>bsp_init_count := int (length ms)\<rparr>, map (\<lambda>(n, w). init_reply kv_id w) ms)"
      using snoc False by simp
    show ?thesis
      using False snoc.prems num by (simp add: ev q bsp_run_snoc run)
  qed
qed simp

section \<open>Properties\<close>

text \<open>
  C1. The BSP server answers exactly what the bulk-synchronous specification asks for. Take any number of
  workers and any interleaving of their requests in which every worker alternates pull, push, pull, push (waiting
  for answers or not). The server processes the history without an error, and the responses that it
  has sent are, as a multiset, \<open>bsp_answers\<close>: the pull of round \<open>j\<close> of a worker is answered
  exactly if every worker has pushed \<open>j\<close> times, with the initial contents plus \<^emph>\<open>all\<close> pushes of the rounds
  before \<open>j\<close> and nothing else; the push of round \<open>j\<close> is answered exactly if every worker has pulled its round \<open>j\<close>.
  Scope: an additive store with exact addition, a fresh server that begins with pulls, requests for keys and chunks that the server serves, and round counters that do not overflow. An empty request is never answered, as in the code.
\<close>

theorem bsp_answers_exactly:
  assumes "finite W" "W \<noteq> {}" "bsp_fresh s0" "bsp_num_workers s0 = int (card W)" "\<not> bsp_is_assign s0"
    and "bsp_history rm kv_id s0 W h"
  shows "\<exists>s outs. bsp_run rm kv_id h s0 = Inr (s, outs)
           \<and> mset outs = bsp_answers rm kv_id s0 W (pushes_of h) (pulls_of h)"
proof -
  obtain s outs where run: "bsp_run rm kv_id h s0 = Inr (s, outs)"
    and inv: "bsp_inv rm kv_id s0 W (pushes_of h) (pulls_of h) s outs" using bsp_run_inv [OF assms] by auto
  have "mset outs = bsp_answers rm kv_id s0 W (pushes_of h) (pulls_of h)"
    using inv bsp_inv_rounds [OF inv assms(1) bsp_history_balanced [OF assms(6)]]
    by (simp add: bsp_inv_def bsp_core_def bsp_answers_def acc_def)
  with run show ?thesis by blast
qed

text \<open>Two workers (the threads 5 and 6) that both pull key 7, push 1 and 2 to it, and pull again.\<close>

definition example_server :: "int BSPServer" where
  "example_server = mk_BSPServer 0 2 (MapStore Map.empty) False False True"

definition example_history :: "(bool \<times> int entry) list" where
  "example_history =
     [(False, 0, 5, 0, put_keys [7]), (True, 0, 5, 1, put_keys [7] @ put_vals [1]),
      (False, 0, 6, 0, put_keys [7]), (True, 0, 6, 1, put_keys [7] @ put_vals [2])]"

lemma example_server_ok:
  "finite {5, 6 :: nat}" "{5, 6 :: nat} \<noteq> {}" "bsp_fresh example_server"
  "bsp_num_workers example_server = int (card {5, 6 :: nat})" "\<not> bsp_is_assign example_server"
  by (simp_all add: example_server_def mk_BSPServer_def bsp_fresh_def)

lemma example_history_ok: "bsp_history two_servers 0 example_server {5, 6} example_history"
  by (simp add: bsp_history_def example_history_def request_ok_def push_ok_def pull_ok_def writes_def reads_def
      interval_of_def pair_writes_def example_server_def mk_BSPServer_def e_cmd_def consistency_control_off_magic_def
      atMost_Suc balanced_def pushes_of_def pulls_of_def numeral_eq_Suc)

theorem bsp_answers_exactly_witness:
  "\<exists>s outs. bsp_run two_servers 0 example_history example_server = Inr (s, outs)
     \<and> mset outs = bsp_answers two_servers 0 example_server {5, 6} (pushes_of example_history) (pulls_of example_history)"
  using bsp_answers_exactly [OF example_server_ok example_history_ok] .

text \<open>
  C2. No request is lost and nothing stays buffered: once every worker has finished \<open>r\<close> rounds, all their
  pulls and pushes have been answered, each once, and the store holds the initial contents plus all pushes.
  Scope: an additive store with exact addition, a fresh server that begins with pulls, requests for keys and chunks that the server serves, and round counters that do not overflow. An empty request is never answered, as in the code.
\<close>

theorem bsp_rounds_complete:
  assumes "finite W" "W \<noteq> {}" "bsp_fresh s0" "bsp_num_workers s0 = int (card W)" "\<not> bsp_is_assign s0"
    and "bsp_history rm kv_id s0 W h"
    and "\<forall>w \<in> W. length (pushes_of h w) = r \<and> length (pulls_of h w) = r"
  shows "\<exists>s outs. bsp_run rm kv_id h s0 = Inr (s, outs)
     \<and> mset outs = (\<Sum>w\<in>W. \<Sum>j<r. bsp_pull_reply rm kv_id s0 W (pushes_of h) j (pulls_of h w ! j))
                  + (\<Sum>w\<in>W. \<Sum>j<r. push_answer kv_id (pushes_of h w ! j))
     \<and> store_obs (bsp_store s) = bsp_snapshot rm kv_id s0 W (pushes_of h) r"
proof -
  obtain s outs where run: "bsp_run rm kv_id h s0 = Inr (s, outs)"
    and inv: "bsp_inv rm kv_id s0 W (pushes_of h) (pulls_of h) s outs" using bsp_run_inv [OF assms(1-6)] by auto
  obtain w where "w \<in> W" using assms(2) by blast
  then have "min_len W (pushes_of h) = r" "min_len W (pulls_of h) = r"
    using assms(1,7) by (auto intro!: min_lenI)
  then have "bsp_push_iter s = r" "bsp_applied s = r"
    using bsp_inv_rounds [OF inv assms(1) bsp_history_balanced [OF assms(6)]] by simp_all
  then show ?thesis
    using run inv assms(7) by (simp add: bsp_inv_def bsp_core_def acc_def bsp_snapshot_def [abs_def])
qed

theorem bsp_rounds_complete_witness:
  "\<exists>s outs. bsp_run two_servers 0 example_history example_server = Inr (s, outs)
     \<and> store_obs (bsp_store s) = bsp_snapshot two_servers 0 example_server {5, 6} (pushes_of example_history) 1"
proof -
  have "\<forall>w \<in> {5, 6}. length (pushes_of example_history w) = 1 \<and> length (pulls_of example_history w) = 1"
    by (simp add: example_history_def pushes_of_def pulls_of_def)
  from bsp_rounds_complete [OF example_server_ok example_history_ok this] show ?thesis by blast
qed

text \<open>
  C3. The initialisation barrier of an epoch. The first message of \<^verbatim>\<open>InitForConsistencyControl\<close> that reaches an idle server, whatever the server remembers of an earlier epoch, resets
  all counters, the progress of the workers and the kept requests, and sets the phase to the one that the server was constructed with, so that it begins with pushes or with pulls; the number of workers becomes the one in the
  message, and stays as it was if the message carries \<open>-1\<close>. The values of later messages are not used. Every message is answered at once, the contents are kept, and after as many messages as there are workers the server is
  ready for the next barrier.
\<close>

theorem bsp_init_barrier:
  assumes "bsp_init_count s = 0" "ms \<noteq> []" "num = (if fst (hd ms) = -1 then bsp_num_workers s else fst (hd ms))" "int (length ms) \<le> num"
  shows "bsp_run rm kv_id (map init_message ms) s = Inr (
    \<lparr>bsp_num_workers = num, bsp_push_iter = 0, bsp_push_count = [], bsp_push_progress = [], bsp_blocked_pushes = [], bsp_pull_iter = 0, bsp_pull_count = [], bsp_pull_progress = [],
     bsp_blocked_pulls = [], bsp_init_reply_phase = bsp_init_reply_phase s, bsp_reply_phase = bsp_init_reply_phase s, bsp_is_vector = bsp_is_vector s, bsp_is_assign = bsp_is_assign s, bsp_store = bsp_store s,
     bsp_server_id = bsp_server_id s, bsp_init_count = (if int (length ms) = num then 0 else int (length ms))\<rparr>, map (\<lambda>(n, w). init_reply kv_id w) ms)"
  unfolding bsp_init_run [OF assms] using assms(3) by (auto simp: bsp_reset_def Let_def intro!: BSPServer.equality)

text \<open>A server for push-first tasks that is in the middle of a phase: three workers of the next epoch, whose number the first message does not give.\<close>

theorem bsp_init_barrier_witness:
  "bsp_run two_servers 0 (map init_message [(-1, 5, 0), (3, 7, 0), (9, 6, 0)]) ((mk_BSPServer 0 3 (VecStore [1, 2 :: int]) True False False)\<lparr>bsp_push_progress := [0, 0, 0, 0, 0, 4]\<rparr>)
   = Inr ((mk_BSPServer 0 3 (VecStore [1, 2]) True False False)\<lparr>bsp_reply_phase := False\<rparr>, map (init_reply 0) [(5, 0), (7, 0), (6, 0)])"
  by (subst bsp_init_barrier [where num = 3]) (simp_all add: mk_BSPServer_def)

end
