(* ===== verification/SSP_Server.thy ===== *)
theory SSP_Server
  imports BSP_Server
begin

text \<open>
  The stale-synchronous server: \<^verbatim>\<open>SSPServer\<close> of \<^verbatim>\<open>kvstore/handles/ssp_server.hpp\<close>.

  The clock of a worker is the number of its pushes. The server keeps \<open>min_clock\<close>, buffers a push or a pull
  of a worker that is more than \<open>staleness\<close> clocks ahead, and releases the buffer of a clock when
  \<open>min_clock\<close> reaches it. Clocks are unbounded naturals; \<^verbatim>\<open>expected_min_clock\<close> is an integer and may be negative.

  The theorem is about any interleaving of pushes and pulls of \<open>n\<close> workers, without any assumption on the order of the
  requests of a worker. \<open>ssp_inv\<close> describes the state after such a history: \<open>min_clock\<close> is the minimum of the clocks,
  the applied pushes are those with number at most \<open>min_clock + staleness\<close>, and every answered pull
  is recorded in a log with the pushes that it has seen.
\<close>

section \<open>Model\<close>

record 'v SSPServer =
  ssp_num_workers :: int
  ssp_staleness :: int
  ssp_min_clock :: nat
  ssp_clock_count :: "nat list"
  ssp_worker_progress :: "nat list"
  ssp_blocked_pushes :: "'v entry list list"
  ssp_blocked_pulls :: "'v entry list list"
  ssp_is_vector :: bool
  ssp_store :: "'v store"
  ssp_server_id :: nat
  ssp_init_count :: int

definition mk_SSPServer :: "nat \<Rightarrow> int \<Rightarrow> 'v store \<Rightarrow> bool \<Rightarrow> int \<Rightarrow> error + 'v SSPServer" where
  "mk_SSPServer server_id num_workers store is_vector staleness =
     bindE (assertE (staleness \<ge> 0)) (\<lambda>_. bindE (assertE (staleness \<le> 10)) (\<lambda>_.
     Inr \<lparr>ssp_num_workers = num_workers, ssp_staleness = staleness, ssp_min_clock = 0, ssp_clock_count = [],
          ssp_worker_progress = replicate (nat num_workers) 0, ssp_blocked_pushes = [], ssp_blocked_pulls = [],
          ssp_is_vector = is_vector, ssp_store = store, ssp_server_id = server_id, ssp_init_count = 0\<rparr>))"

definition ssp_reset :: "int \<Rightarrow> 'v SSPServer \<Rightarrow> 'v SSPServer" where
  "ssp_reset next_num_workers s =
     (let s = s\<lparr>ssp_min_clock := 0, ssp_worker_progress := [], ssp_clock_count := [],
                ssp_blocked_pulls := [], ssp_blocked_pushes := []\<rparr>
      in if next_num_workers \<noteq> -1 then s\<lparr>ssp_num_workers := next_num_workers\<rparr> else s)"

definition ssp_init :: "nat \<Rightarrow> int \<Rightarrow> int \<Rightarrow> bool \<Rightarrow> int \<Rightarrow> 'v bin \<Rightarrow> 'v SSPServer
    \<Rightarrow> error + ('v SSPServer \<times> 'v out)" where
  "ssp_init kv_id ts cmd push src bin s =
     bindE (if ssp_init_count s = 0 then bindE (get_int bin) (\<lambda>(n, bin). Inr (ssp_reset n s)) else Inr s) (\<lambda>s.
     let s = s\<lparr>ssp_init_count := ssp_init_count s + 1\<rparr>;
         s = (if ssp_init_count s = ssp_num_workers s then s\<lparr>ssp_init_count := 0\<rparr> else s)
     in Inr (s, [Response kv_id ts cmd push src empty_KVPairs (-1)]))"

definition ssp_direct :: "RangeManager \<Rightarrow> nat \<Rightarrow> int \<Rightarrow> int \<Rightarrow> bool \<Rightarrow> int \<Rightarrow> 'v::{zero,plus} bin \<Rightarrow> 'v SSPServer
    \<Rightarrow> error + ('v SSPServer \<times> 'v out)" where
  "ssp_direct rm kv_id ts cmd push src bin s =
     (let cmd = c_rem cmd consistency_control_off_magic in
      bindE (if push then serve_push rm kv_id (ssp_server_id s) ts cmd src bin (ssp_is_vector s) False (ssp_store s)
             else serve_pull rm kv_id (ssp_server_id s) ts cmd src bin (ssp_is_vector s) (ssp_store s))
        (\<lambda>(store, out). Inr (s\<lparr>ssp_store := store\<rparr>, out)))"

text \<open>Answering a pull: \<^verbatim>\<open>PullChunksWithMinClock\<close> is the command plus 10 and gets \<^verbatim>\<open>min_clock_\<close> back.\<close>

definition ssp_base_cmd :: "int \<Rightarrow> int" where
  "ssp_base_cmd cmd = (if cmd > with_min_clock_magic then cmd - with_min_clock_magic else cmd)"

definition ssp_serve_pull :: "RangeManager \<Rightarrow> nat \<Rightarrow> nat \<Rightarrow> int \<Rightarrow> int \<Rightarrow> int \<Rightarrow> 'v::zero bin \<Rightarrow> bool \<Rightarrow> nat
    \<Rightarrow> 'v store \<Rightarrow> error + ('v store \<times> 'v out)" where
  "ssp_serve_pull rm kv_id server_id ts cmd src bin is_vector min_clock store =
     (if bin \<noteq> [] then
        bindE (retrieve rm kv_id server_id bin store (ssp_base_cmd cmd) is_vector) (\<lambda>(res, store).
        Inr (store, [Response kv_id ts cmd False src res (if cmd > with_min_clock_magic then int min_clock else -1)]))
      else Inr (store, []))"

definition ssp_release_pulls :: "RangeManager \<Rightarrow> nat \<Rightarrow> nat \<Rightarrow> bool \<Rightarrow> nat \<Rightarrow> 'v::zero entry list \<Rightarrow> 'v store
    \<Rightarrow> error + ('v store \<times> 'v out)" where
  "ssp_release_pulls rm kv_id server_id is_vector min_clock es store =
     foldE (\<lambda>(cmd, src, ts, bin) (store, out).
         bindE (ssp_serve_pull rm kv_id server_id ts cmd (int src) bin is_vector min_clock store)
           (\<lambda>(store, o1). Inr (store, out @ o1))) es (store, [])"

definition process_push :: "RangeManager \<Rightarrow> nat \<Rightarrow> int \<Rightarrow> int \<Rightarrow> nat \<Rightarrow> 'v::{zero,plus} bin \<Rightarrow> 'v SSPServer
    \<Rightarrow> error + ('v SSPServer \<times> 'v out)" where
  "process_push rm kv_id ts cmd src bin s =
     bindE (serve_push rm kv_id (ssp_server_id s) ts cmd (int src) bin (ssp_is_vector s) False (ssp_store s)) (\<lambda>(store, out).
     let s = s\<lparr>ssp_store := store\<rparr> in
     bindE (vec_get (ssp_clock_count s) (ssp_min_clock s)) (\<lambda>count.
     if int count = ssp_num_workers s then
       let clock = ssp_min_clock s + 1;
           pushes = grow_to clock [] (ssp_blocked_pushes s);
           pulls = grow_to clock [] (ssp_blocked_pulls s)
       in bindE (release_pushes rm kv_id (ssp_server_id s) (ssp_is_vector s) False (pushes ! clock) (ssp_store s)) (\<lambda>(store, o1).
          bindE (ssp_release_pulls rm kv_id (ssp_server_id s) (ssp_is_vector s) clock (pulls ! clock) store) (\<lambda>(store, o2).
          Inr (s\<lparr>ssp_min_clock := clock, ssp_store := store, ssp_blocked_pushes := pushes[clock := []],
                 ssp_blocked_pulls := pulls[clock := []]\<rparr>, out @ o1 @ o2)))
     else Inr (s, out)))"

definition ssp_push :: "RangeManager \<Rightarrow> nat \<Rightarrow> int \<Rightarrow> int \<Rightarrow> nat \<Rightarrow> 'v::{zero,plus} bin \<Rightarrow> 'v SSPServer
    \<Rightarrow> error + ('v SSPServer \<times> 'v out)" where
  "ssp_push rm kv_id ts cmd src bin s =
     (let prog = grow_to src 0 (ssp_worker_progress s);
          progress = prog ! src;
          cnt = grow_to progress 0 (ssp_clock_count s);
          s = s\<lparr>ssp_clock_count := cnt[progress := cnt ! progress + 1],
                ssp_worker_progress := prog[src := progress + 1]\<rparr>;
          expected = int progress - ssp_staleness s
      in if expected \<le> int (ssp_min_clock s) then process_push rm kv_id ts cmd src bin s
         else let blk = grow_to (nat expected) [] (ssp_blocked_pushes s)
              in Inr (s\<lparr>ssp_blocked_pushes := blk[nat expected := blk ! nat expected @ [(cmd, src, ts, bin)]]\<rparr>, []))"

definition ssp_pull :: "RangeManager \<Rightarrow> nat \<Rightarrow> int \<Rightarrow> int \<Rightarrow> nat \<Rightarrow> 'v::{zero,plus} bin \<Rightarrow> 'v SSPServer
    \<Rightarrow> error + ('v SSPServer \<times> 'v out)" where
  "ssp_pull rm kv_id ts cmd src bin s =
     (let s = s\<lparr>ssp_worker_progress := grow_to src 0 (ssp_worker_progress s)\<rparr>;
          expected = int (ssp_worker_progress s ! src) - ssp_staleness s
      in if expected \<le> int (ssp_min_clock s) then
           bindE (ssp_serve_pull rm kv_id (ssp_server_id s) ts cmd (int src) bin (ssp_is_vector s) (ssp_min_clock s) (ssp_store s))
             (\<lambda>(store, out). Inr (s\<lparr>ssp_store := store\<rparr>, out))
         else let blk = grow_to (nat expected) [] (ssp_blocked_pulls s)
              in Inr (s\<lparr>ssp_blocked_pulls := blk[nat expected := blk ! nat expected @ [(cmd, src, ts, bin)]]\<rparr>, []))"

definition ssp_Process :: "RangeManager \<Rightarrow> nat \<Rightarrow> int \<Rightarrow> 'v::{zero,plus} bin \<Rightarrow> 'v SSPServer
    \<Rightarrow> error + ('v SSPServer \<times> 'v out)" where
  "ssp_Process rm kv_id ts bin s =
     bindE (get_int bin) (\<lambda>(cmd, bin). bindE (get_bool bin) (\<lambda>(push, bin). bindE (get_int bin) (\<lambda>(src, bin).
     if cmd = 4 then ssp_init kv_id ts cmd push src bin s
     else if cmd \<ge> consistency_control_off_magic then ssp_direct rm kv_id ts cmd push src bin s
     else if src < 0 then Inl OutOfRange
     else if push then ssp_push rm kv_id ts cmd (nat src) bin s
     else ssp_pull rm kv_id ts cmd (nat src) bin s)))"

definition ssp_run :: "RangeManager \<Rightarrow> nat \<Rightarrow> (bool \<times> 'v::{zero,plus} entry) list \<Rightarrow> 'v SSPServer
    \<Rightarrow> error + ('v SSPServer \<times> 'v out)" where
  "ssp_run rm kv_id h s =
     foldE (\<lambda>(push, e) (s, out). bindE (ssp_Process rm kv_id (e_ts e) (encode_request push e) s)
              (\<lambda>(s, o1). Inr (s, out @ o1))) h (s, [])"

section \<open>What answering a pull does\<close>

definition ssp_pull_answer :: "RangeManager \<Rightarrow> nat \<Rightarrow> nat \<Rightarrow> bool \<Rightarrow> (u64 \<Rightarrow> 'v) \<Rightarrow> nat \<Rightarrow> 'v entry
    \<Rightarrow> (int \<times> 'v bin) multiset" where
  "ssp_pull_answer rm kv_id server_id is_vector V m = (\<lambda>(cmd, src, ts, bin).
     if bin = [] then {#} else
     case reads rm kv_id server_id is_vector (ssp_base_cmd cmd) bin of
       Inl e \<Rightarrow> {#}
     | Inr (keys, slots) \<Rightarrow>
         {#Response kv_id ts cmd False (int src) \<lparr>kv_keys = keys, kv_vals = map V slots\<rparr>
             (if cmd > with_min_clock_magic then int m else -1)#})"

definition ssp_pull_ok :: "RangeManager \<Rightarrow> nat \<Rightarrow> nat \<Rightarrow> bool \<Rightarrow> (u64 \<Rightarrow> bool) \<Rightarrow> 'v entry \<Rightarrow> bool" where
  "ssp_pull_ok rm kv_id server_id is_vector valid = (\<lambda>(cmd, src, ts, bin).
     pull_ok rm kv_id server_id is_vector valid (ssp_base_cmd cmd, src, ts, bin))"

lemma ssp_serve_pull_ok:
  assumes "ssp_pull_ok rm kv_id server_id is_vector (store_valid st) (cmd, src, ts, bin)"
  shows "\<exists>st' o1. ssp_serve_pull rm kv_id server_id ts cmd (int src) bin is_vector m st = Inr (st', o1)
     \<and> store_obs st' = store_obs st \<and> store_valid st' = store_valid st
     \<and> mset o1 = ssp_pull_answer rm kv_id server_id is_vector (store_obs st) m (cmd, src, ts, bin)"
proof (cases "bin = []")
  case True
  then show ?thesis by (simp add: ssp_serve_pull_def ssp_pull_answer_def)
next
  case False
  then obtain keys slots where ks: "reads rm kv_id server_id is_vector (ssp_base_cmd cmd) bin = Inr (keys, slots)"
    "\<forall>k \<in> set slots. store_valid st k"
    using assms by (auto simp: ssp_pull_ok_def pull_ok_def split: sum.splits)
  obtain st' where up: "retrieve rm kv_id server_id bin st (ssp_base_cmd cmd) is_vector
      = Inr (\<lparr>kv_keys = keys, kv_vals = map (store_obs st) slots\<rparr>, st')"
    using retrieve_total [OF ks] by blast
  show ?thesis
    using False up retrieve_obs(2,3) [OF up] ks(1)
    by (auto simp: ssp_serve_pull_def ssp_pull_answer_def)
qed

lemma ssp_release_pulls_ok:
  assumes "\<forall>e \<in> set es. ssp_pull_ok rm kv_id server_id is_vector (store_valid st) e"
  shows "\<exists>st' o1. ssp_release_pulls rm kv_id server_id is_vector m es st = Inr (st', o1)
     \<and> store_obs st' = store_obs st \<and> store_valid st' = store_valid st
     \<and> mset o1 = (\<Sum>e\<leftarrow>es. ssp_pull_answer rm kv_id server_id is_vector (store_obs st) m e)"
  unfolding ssp_release_pulls_def
  using assms
proof (induction es rule: rev_induct)
  case (snoc e es)
  obtain cmd src ts bin where e: "e = (cmd, src, ts, bin)" by (cases e)
  from snoc obtain st1 o1 where IH: "foldE (\<lambda>(cmd, src, ts, bin) (store, out).
         bindE (ssp_serve_pull rm kv_id server_id ts cmd (int src) bin is_vector m store)
           (\<lambda>(store, o1). Inr (store, out @ o1))) es (st, []) = Inr (st1, o1)"
    "store_obs st1 = store_obs st"
    "store_valid st1 = store_valid st" "mset o1 = (\<Sum>e\<leftarrow>es. ssp_pull_answer rm kv_id server_id is_vector (store_obs st) m e)" by auto
  from ssp_serve_pull_ok [of rm kv_id server_id is_vector st1 cmd src ts bin m] snoc.prems IH(2,3) e
  show ?case by (auto simp: foldE_append IH)
qed simp

section \<open>The state after a history\<close>

text \<open>
  An answered pull is logged as \<open>(e, c, a, m)\<close>: the request, the clock \<open>c\<close> of its worker when it arrived, the number
  \<open>a w\<close> of pushes of each worker \<open>w\<close> that it has seen, and the \<open>min_clock\<close> at which it was answered.
\<close>

type_synonym 'v seen = "'v entry \<times> nat \<times> (nat \<Rightarrow> nat) \<times> nat"

definition ssp_view :: "RangeManager \<Rightarrow> nat \<Rightarrow> 'v::comm_monoid_add SSPServer \<Rightarrow> nat set \<Rightarrow> (nat \<Rightarrow> 'v entry list)
    \<Rightarrow> (nat \<Rightarrow> nat) \<Rightarrow> u64 \<Rightarrow> 'v" where
  "ssp_view rm kv_id s0 W P a x = store_obs (ssp_store s0) x
     + (\<Sum>w\<in>W. \<Sum>j<a w. push_effect rm kv_id (ssp_server_id s0) (ssp_is_vector s0) (P w ! j) x)"

definition ssp_answer :: "RangeManager \<Rightarrow> nat \<Rightarrow> 'v::comm_monoid_add SSPServer \<Rightarrow> nat set \<Rightarrow> (nat \<Rightarrow> 'v entry list)
    \<Rightarrow> 'v seen \<Rightarrow> (int \<times> 'v bin) multiset" where
  "ssp_answer rm kv_id s0 W P = (\<lambda>(e, c, a, m).
     ssp_pull_answer rm kv_id (ssp_server_id s0) (ssp_is_vector s0) (ssp_view rm kv_id s0 W P a) m e)"

definition ssp_seen_ok :: "nat set \<Rightarrow> nat \<Rightarrow> (nat \<Rightarrow> 'v entry list) \<Rightarrow> 'v seen \<Rightarrow> bool" where
  "ssp_seen_ok W S P = (\<lambda>(e, c, a, m). c \<le> m + S \<and> c \<le> a (e_src e)
     \<and> (\<forall>w\<in>W. m \<le> a w \<and> a w \<le> Suc (m + S) \<and> a w \<le> length (P w)))"

definition ssp_S :: "'v SSPServer \<Rightarrow> nat" where
  "ssp_S s = nat (ssp_staleness s)"

definition ssp_static :: "'v SSPServer \<Rightarrow> nat set \<Rightarrow> 'v SSPServer \<Rightarrow> bool" where
  "ssp_static s0 W s \<longleftrightarrow> ssp_num_workers s = int (card W) \<and> ssp_server_id s = ssp_server_id s0
     \<and> ssp_is_vector s = ssp_is_vector s0 \<and> ssp_staleness s = int (ssp_S s0)
     \<and> store_valid (ssp_store s) = store_valid (ssp_store s0)"

text \<open>\<open>R\<close> is the list of received pulls, each with the clock of its worker.\<close>

definition ssp_pulls_inv :: "nat set \<Rightarrow> nat \<Rightarrow> nat \<Rightarrow> (nat \<Rightarrow> 'v entry list) \<Rightarrow> ('v entry \<times> nat) list
    \<Rightarrow> 'v entry list list \<Rightarrow> 'v seen list \<Rightarrow> bool" where
  "ssp_pulls_inv W S m P R blk log \<longleftrightarrow>
     image_mset (\<lambda>(e, c, a, m). (e, c)) (mset log) = filter_mset (\<lambda>r. snd r \<le> m + S) (mset R)
   \<and> (\<forall>i > m. mset (map (\<lambda>e. (e, i + S)) (nth_or [] blk i)) = filter_mset (\<lambda>r. snd r = i + S) (mset R))
   \<and> (\<forall>(e, c) \<in> set R. e_src e \<in> W \<and> c \<le> length (P (e_src e)))
   \<and> (\<forall>x \<in> set log. ssp_seen_ok W S P x)"

definition ssp_core :: "RangeManager \<Rightarrow> nat \<Rightarrow> 'v::comm_monoid_add SSPServer \<Rightarrow> nat set \<Rightarrow> (nat \<Rightarrow> 'v entry list)
    \<Rightarrow> ('v entry \<times> nat) list \<Rightarrow> 'v SSPServer \<Rightarrow> 'v out \<Rightarrow> 'v seen list \<Rightarrow> bool" where
  "ssp_core rm kv_id s0 W P R s outs log \<longleftrightarrow> ssp_static s0 W s
   \<and> chan W P (ssp_worker_progress s) (ssp_clock_count s)
       (\<lambda>j. nth_or [] (ssp_blocked_pushes s) (j - ssp_S s0)) (Suc (ssp_min_clock s + ssp_S s0))
   \<and> (\<forall>w\<in>W. ssp_min_clock s \<le> length (P w))
   \<and> ssp_pulls_inv W (ssp_S s0) (ssp_min_clock s) P R (ssp_blocked_pulls s) log
   \<and> store_obs (ssp_store s) = ssp_view rm kv_id s0 W P (\<lambda>w. min (length (P w)) (Suc (ssp_min_clock s + ssp_S s0)))
   \<and> mset outs = acc W (\<lambda>w. length (P w)) (Suc (ssp_min_clock s + ssp_S s0)) (\<lambda>w j. push_answer kv_id (P w ! j))
        + (\<Sum>x\<leftarrow>log. ssp_answer rm kv_id s0 W P x)"

definition ssp_inv :: "RangeManager \<Rightarrow> nat \<Rightarrow> 'v::comm_monoid_add SSPServer \<Rightarrow> nat set \<Rightarrow> (nat \<Rightarrow> 'v entry list)
    \<Rightarrow> ('v entry \<times> nat) list \<Rightarrow> 'v SSPServer \<Rightarrow> 'v out \<Rightarrow> 'v seen list \<Rightarrow> bool" where
  "ssp_inv rm kv_id s0 W P R s outs log \<longleftrightarrow> ssp_core rm kv_id s0 W P R s outs log
     \<and> (\<exists>w\<in>W. length (P w) = ssp_min_clock s)"

lemma ssp_coreD:
  assumes "ssp_core rm kv_id s0 W P R s outs log"
  shows "ssp_static s0 W s"
    and "chan W P (ssp_worker_progress s) (ssp_clock_count s)
       (\<lambda>j. nth_or [] (ssp_blocked_pushes s) (j - ssp_S s0)) (Suc (ssp_min_clock s + ssp_S s0))"
    and "\<forall>w\<in>W. ssp_min_clock s \<le> length (P w)"
    and "ssp_pulls_inv W (ssp_S s0) (ssp_min_clock s) P R (ssp_blocked_pulls s) log"
    and "store_obs (ssp_store s) = ssp_view rm kv_id s0 W P (\<lambda>w. min (length (P w)) (Suc (ssp_min_clock s + ssp_S s0)))"
    and "mset outs = acc W (\<lambda>w. length (P w)) (Suc (ssp_min_clock s + ssp_S s0)) (\<lambda>w j. push_answer kv_id (P w ! j))
        + (\<Sum>x\<leftarrow>log. ssp_answer rm kv_id s0 W P x)"
  using assms by (simp_all add: ssp_core_def)

lemma ssp_view_acc: "ssp_view rm kv_id s0 W P (\<lambda>w. min (length (P w)) K) =
   (\<lambda>x. store_obs (ssp_store s0) x + acc W (\<lambda>w. length (P w)) K
      (\<lambda>w j. push_effect rm kv_id (ssp_server_id s0) (ssp_is_vector s0) (P w ! j) x))"
  by (simp add: ssp_view_def [abs_def] acc_def)

lemma ssp_view_recv:
  assumes "\<forall>w\<in>W. a w \<le> length (P w)"
  shows "ssp_view rm kv_id s0 W (recv e P) a = ssp_view rm kv_id s0 W P a"
proof -
  have "(\<Sum>w\<in>W. \<Sum>j<a w. push_effect rm kv_id sid v (recv e P w ! j) x)
      = (\<Sum>w\<in>W. \<Sum>j<a w. push_effect rm kv_id sid v (P w ! j) x)" for sid v x
    using assms by (intro sum.cong refl) (simp add: recv_nth less_le_trans)
  then show ?thesis by (simp add: ssp_view_def fun_eq_iff)
qed

lemma ssp_answers_recv:
  assumes "\<forall>x \<in> set log. ssp_seen_ok W S P x"
  shows "(\<Sum>x\<leftarrow>log. ssp_answer rm kv_id s0 W (recv e P) x) = (\<Sum>x\<leftarrow>log. ssp_answer rm kv_id s0 W P x)"
proof -
  have "ssp_answer rm kv_id s0 W (recv e P) x = ssp_answer rm kv_id s0 W P x" if "x \<in> set log" for x
    using assms that by (auto simp: ssp_answer_def ssp_seen_ok_def ssp_view_recv split: prod.splits)
  then have "map (ssp_answer rm kv_id s0 W (recv e P)) log = map (ssp_answer rm kv_id s0 W P) log" by simp
  then show ?thesis by (rule arg_cong)
qed

lemma ssp_pulls_inv_recv:
  assumes "ssp_pulls_inv W S m P R blk log"
  shows "ssp_pulls_inv W S m (recv e P) R blk log"
proof -
  note mono = le_trans [OF _ recv_length_mono [of P _ e]]
  have "ssp_seen_ok W S (recv e P) x" if "ssp_seen_ok W S P x" for x
    using that by (auto simp: ssp_seen_ok_def intro: mono)
  moreover have "\<forall>(f, c) \<in> set R. e_src f \<in> W \<and> c \<le> length (recv e P (e_src f))"
    using assms by (auto simp: ssp_pulls_inv_def intro: mono)
  ultimately show ?thesis using assms unfolding ssp_pulls_inv_def by simp
qed

text \<open>A push that is buffered, and a push that is applied.\<close>

lemma shift_blk:
  assumes "Suc (m + S) \<le> j" "Suc (m + S) \<le> i"
  shows "nth_or [] ((grow_to (j - S) [] blk)[j - S := nth_or [] blk (j - S) @ [e]]) (i - S)
    = ((\<lambda>i. nth_or [] blk (i - S))(j := nth_or [] blk (j - S) @ [e])) i"
  using assms by auto

lemma ssp_core_push_blocked:
  assumes core: "ssp_core rm kv_id s0 W P R s outs log" and fin: "finite W" and src: "e_src e \<in> W"
    and j: "j = length (P (e_src e))" "Suc (ssp_min_clock s + ssp_S s0) \<le> j"
  shows "ssp_core rm kv_id s0 W (recv e P) R (s\<lparr>ssp_clock_count := bump j (ssp_clock_count s),
      ssp_worker_progress := bump (e_src e) (ssp_worker_progress s),
      ssp_blocked_pushes := (grow_to (j - ssp_S s0) [] (ssp_blocked_pushes s))
         [j - ssp_S s0 := nth_or [] (ssp_blocked_pushes s) (j - ssp_S s0) @ [e]]\<rparr>) outs log"
proof -
  note effects = acc_recv_req [OF fin src, of P _ "\<lambda>w j f. push_effect rm kv_id (ssp_server_id s0) (ssp_is_vector s0) f _"]
  note answers = acc_recv_req [OF fin src, of P _ "\<lambda>w j f. push_answer kv_id f"]
  let ?b = "(grow_to (j - ssp_S s0) [] (ssp_blocked_pushes s))
         [j - ssp_S s0 := nth_or [] (ssp_blocked_pushes s) (j - ssp_S s0) @ [e]]"
  have "chan W (recv e P) (bump (e_src e) (ssp_worker_progress s)) (bump j (ssp_clock_count s))
      (\<lambda>i. nth_or [] ?b (i - ssp_S s0)) (Suc (ssp_min_clock s + ssp_S s0))"
    by (rule chan_blk_cong [OF chan_recv_blocked [OF ssp_coreD(2) [OF core] fin src j(1)]]) (use j(2) in \<open>auto simp: shift_blk\<close>)
  moreover have "\<forall>w\<in>W. ssp_min_clock s \<le> length (recv e P w)"
    using ssp_coreD(3) [OF core] recv_length_mono [of P _ e] by (meson le_trans)
  ultimately show ?thesis
    using ssp_coreD [OF core] ssp_pulls_inv_recv [OF ssp_coreD(4) [OF core]] j
      ssp_answers_recv [of log W "ssp_S s0" P rm kv_id s0 e]
    unfolding ssp_core_def ssp_view_acc
    by (simp add: ssp_static_def effects answers ssp_pulls_inv_def)
qed

lemma ssp_core_push_served:
  assumes core: "ssp_core rm kv_id s0 W P R s outs log" and fin: "finite W" and src: "e_src e \<in> W"
    and j: "j = length (P (e_src e))" "j < Suc (ssp_min_clock s + ssp_S s0)"
    and st1: "store_obs st1 = (\<lambda>x. store_obs (ssp_store s) x + push_effect rm kv_id (ssp_server_id s0) (ssp_is_vector s0) e x)"
      "store_valid st1 = store_valid (ssp_store s)" "mset o1 = push_answer kv_id e"
  shows "ssp_core rm kv_id s0 W (recv e P) R (s\<lparr>ssp_clock_count := bump j (ssp_clock_count s),
      ssp_worker_progress := bump (e_src e) (ssp_worker_progress s), ssp_store := st1\<rparr>) (outs @ o1) log"
proof -
  note effects = acc_recv_req [OF fin src, of P _ "\<lambda>w j f. push_effect rm kv_id (ssp_server_id s0) (ssp_is_vector s0) f _"]
  note answers = acc_recv_req [OF fin src, of P _ "\<lambda>w j f. push_answer kv_id f"]
  have "\<forall>w\<in>W. ssp_min_clock s \<le> length (recv e P w)"
    using ssp_coreD(3) [OF core] recv_length_mono [of P _ e] by (meson le_trans)
  then show ?thesis
    using ssp_coreD [OF core] ssp_pulls_inv_recv [OF ssp_coreD(4) [OF core]] j st1
      chan_recv_direct [OF ssp_coreD(2) [OF core] fin src j]
      ssp_answers_recv [of log W "ssp_S s0" P rm kv_id s0 e]
    unfolding ssp_core_def ssp_view_acc
    by (simp add: ssp_static_def effects answers ssp_pulls_inv_def ac_simps)
qed

text \<open>The advance of \<open>min_clock\<close>: the buffers of the new clock are released.\<close>

lemma filter_mset_le_Suc:
  "filter_mset (\<lambda>r. f r \<le> Suc k) M = filter_mset (\<lambda>r. f r \<le> k) M + filter_mset (\<lambda>r. f r = Suc k) M"
  by (induction M) auto

lemma ssp_blocked_mem:
  assumes "ssp_pulls_inv W S m P R blk log" "m < i" "f \<in> set (nth_or [] blk i)"
  shows "(f, i + S) \<in> set R" "e_src f \<in> W" "i + S \<le> length (P (e_src f))"
proof -
  have eq: "mset (map (\<lambda>e. (e, i + S)) (nth_or [] blk i)) = filter_mset (\<lambda>r. snd r = i + S) (mset R)"
    using assms(1,2) unfolding ssp_pulls_inv_def by blast
  have "(f, i + S) \<in># mset (map (\<lambda>e. (e, i + S)) (nth_or [] blk i))" using assms(3) by simp
  then have "(f, i + S) \<in># filter_mset (\<lambda>r. snd r = i + S) (mset R)" unfolding eq .
  then show R: "(f, i + S) \<in> set R" by simp
  then show "e_src f \<in> W" "i + S \<le> length (P (e_src f))" using assms(1) by (auto simp: ssp_pulls_inv_def)
qed

lemma nth_or_grow_clear: "nth_or [] ((grow_to i [] xs)[i := []]) j = (if j = i then [] else nth_or [] xs j)"
  by simp

lemma ssp_pulls_inv_advance:
  assumes inv: "ssp_pulls_inv W S m P R blk log" and all: "\<forall>w\<in>W. m < length (P w)"
    and a: "a = (\<lambda>w. min (length (P w)) (Suc (Suc m + S)))"
  shows "ssp_pulls_inv W S (Suc m) P R ((grow_to (Suc m) [] blk)[Suc m := []])
      (log @ map (\<lambda>f. (f, Suc m + S, a, Suc m)) (nth_or [] blk (Suc m)))"
proof -
  let ?es = "nth_or [] blk (Suc m)"
  have new: "mset (map (\<lambda>e. (e, Suc m + S)) ?es) = filter_mset (\<lambda>r. snd r = Suc m + S) (mset R)"
    using inv unfolding ssp_pulls_inv_def by blast
  have "image_mset (\<lambda>(e, c, a, m). (e, c)) (mset (log @ map (\<lambda>f. (f, Suc m + S, a, Suc m)) ?es))
      = filter_mset (\<lambda>r. snd r \<le> Suc m + S) (mset R)"
    using inv new filter_mset_le_Suc [of snd "m + S" "mset R"]
    by (simp add: ssp_pulls_inv_def image_mset.compositionality comp_def)
  moreover have "ssp_seen_ok W S P (f, Suc m + S, a, Suc m)" if "f \<in> set ?es" for f
    using ssp_blocked_mem [OF inv _ that] all by (auto simp: ssp_seen_ok_def a Suc_le_eq)
  moreover have "mset (map (\<lambda>e. (e, i + S)) (nth_or [] ((grow_to (Suc m) [] blk)[Suc m := []]) i))
      = filter_mset (\<lambda>r. snd r = i + S) (mset R)" if "Suc m < i" for i
    using inv that by (simp add: ssp_pulls_inv_def nth_or_grow_clear)
  ultimately show ?thesis using inv unfolding ssp_pulls_inv_def by (intro conjI) (simp_all add: ball_Un)
qed

lemma ssp_core_advance:
  assumes core: "ssp_core rm kv_id s0 W P R s outs log" and fin: "finite W"
    and all: "\<forall>w\<in>W. ssp_min_clock s < length (P w)"
    and m: "m = Suc (ssp_min_clock s)" and a: "a = (\<lambda>w. min (length (P w)) (Suc (m + ssp_S s0)))"
    and st: "store_obs st1 = (\<lambda>x. store_obs (ssp_store s) x + (\<Sum>f\<leftarrow>nth_or [] (ssp_blocked_pushes s) m.
          push_effect rm kv_id (ssp_server_id s0) (ssp_is_vector s0) f x))"
      "store_valid st1 = store_valid (ssp_store s)" "store_obs st2 = store_obs st1" "store_valid st2 = store_valid st1"
    and o1: "mset o1 = (\<Sum>f\<leftarrow>nth_or [] (ssp_blocked_pushes s) m. push_answer kv_id f)"
    and o2: "mset o2 = (\<Sum>f\<leftarrow>nth_or [] (ssp_blocked_pulls s) m.
          ssp_pull_answer rm kv_id (ssp_server_id s0) (ssp_is_vector s0) (store_obs st1) m f)"
  shows "ssp_core rm kv_id s0 W P R (s\<lparr>ssp_min_clock := m, ssp_store := st2,
      ssp_blocked_pushes := (grow_to m [] (ssp_blocked_pushes s))[m := []],
      ssp_blocked_pulls := (grow_to m [] (ssp_blocked_pulls s))[m := []]\<rparr>) (outs @ o1 @ o2)
      (log @ map (\<lambda>f. (f, m + ssp_S s0, a, m)) (nth_or [] (ssp_blocked_pulls s) m))"
proof -
  let ?S = "ssp_S s0"
  have K: "Suc (ssp_min_clock s + ?S) = m + ?S" using m by simp
  note sums = chan_sum_blk [OF ssp_coreD(2) [OF core], of "m + ?S", unfolded K, OF order_refl, simplified]
  have view: "store_obs st1 = ssp_view rm kv_id s0 W P a"
    using ssp_coreD(5) [OF core] unfolding a st(1) ssp_view_acc K
    by (simp add: acc_Suc [OF fin] sums ac_simps)
  have ch: "chan W P (ssp_worker_progress s) (ssp_clock_count s)
      (\<lambda>j. nth_or [] ((grow_to m [] (ssp_blocked_pushes s))[m := []]) (j - ?S)) (Suc (m + ?S))"
    by (rule chan_blk_cong [OF ssp_coreD(2) [OF core]]) (auto simp: m)
  have log: "(\<Sum>x\<leftarrow>map (\<lambda>f. (f, m + ?S, a, m)) (nth_or [] (ssp_blocked_pulls s) m). ssp_answer rm kv_id s0 W P x) = mset o2"
    unfolding o2 view by (simp add: ssp_answer_def comp_def)
  have o1': "mset o1 = (\<Sum>w\<in>{w\<in>W. m + ?S < length (P w)}. push_answer kv_id (P w ! (m + ?S)))"
    using o1 sums by simp
  show ?thesis
    using ssp_coreD [OF core] ch st(2-) view a all log o1' ssp_pulls_inv_advance [OF ssp_coreD(4) [OF core] all a [unfolded m]]
    unfolding ssp_core_def K
    by (simp add: ssp_static_def acc_Suc [OF fin] m Suc_le_eq ac_simps)
qed

text \<open>A pull that is buffered, and a pull that is answered.\<close>

lemma chan_grow: "chan W P (grow_to i 0 prog) cnt blk lo = chan W P prog cnt blk lo"
  by (simp add: chan_def)

lemma ssp_core_pull_blocked:
  assumes core: "ssp_core rm kv_id s0 W P R s outs log" and src: "e_src e \<in> W"
    and c: "c = length (P (e_src e))" "ssp_min_clock s < i" "c = i + ssp_S s0"
  shows "ssp_core rm kv_id s0 W P (R @ [(e, c)]) (s\<lparr>ssp_worker_progress := grow_to src 0 (ssp_worker_progress s),
      ssp_blocked_pulls := (grow_to i [] (ssp_blocked_pulls s))[i := nth_or [] (ssp_blocked_pulls s) i @ [e]]\<rparr>) outs log"
proof -
  have "ssp_pulls_inv W (ssp_S s0) (ssp_min_clock s) P (R @ [(e, c)])
      ((grow_to i [] (ssp_blocked_pulls s))[i := nth_or [] (ssp_blocked_pulls s) i @ [e]]) log"
    using ssp_coreD(4) [OF core] src c unfolding ssp_pulls_inv_def by (intro conjI) auto
  then show ?thesis using core unfolding ssp_core_def by (simp add: ssp_static_def chan_grow)
qed

lemma ssp_core_pull_served:
  assumes core: "ssp_core rm kv_id s0 W P R s outs log" and src: "e_src e \<in> W"
    and c: "c = length (P (e_src e))" "c \<le> ssp_min_clock s + ssp_S s0"
    and st1: "store_obs st1 = store_obs (ssp_store s)" "store_valid st1 = store_valid (ssp_store s)"
      "mset o1 = ssp_pull_answer rm kv_id (ssp_server_id s0) (ssp_is_vector s0) (store_obs (ssp_store s)) (ssp_min_clock s) e"
    and a: "a = (\<lambda>w. min (length (P w)) (Suc (ssp_min_clock s + ssp_S s0)))"
  shows "ssp_core rm kv_id s0 W P (R @ [(e, c)]) (s\<lparr>ssp_worker_progress := grow_to src 0 (ssp_worker_progress s),
      ssp_store := st1\<rparr>) (outs @ o1) (log @ [(e, c, a, ssp_min_clock s)])"
proof -
  have "ssp_seen_ok W (ssp_S s0) P (e, c, a, ssp_min_clock s)"
    using c ssp_coreD(3) [OF core] by (auto simp: ssp_seen_ok_def a)
  then have "ssp_pulls_inv W (ssp_S s0) (ssp_min_clock s) P (R @ [(e, c)]) (ssp_blocked_pulls s) (log @ [(e, c, a, ssp_min_clock s)])"
    using ssp_coreD(4) [OF core] src c unfolding ssp_pulls_inv_def by (intro conjI) auto
  moreover have "mset o1 = ssp_answer rm kv_id s0 W P (e, c, a, ssp_min_clock s)"
    using st1(3) ssp_coreD(5) [OF core] by (simp add: ssp_answer_def a)
  ultimately show ?thesis using core st1(1,2) unfolding ssp_core_def by (simp add: ssp_static_def chan_grow)
qed

section \<open>The branches of the handler\<close>

lemma ssp_push_blocked:
  assumes "j = nth_or 0 (ssp_worker_progress s) src" "ssp_staleness s = int S" "Suc (ssp_min_clock s + S) \<le> j"
  shows "ssp_push rm kv_id ts cmd src bin s = Inr (s\<lparr>ssp_clock_count := bump j (ssp_clock_count s),
      ssp_worker_progress := bump src (ssp_worker_progress s),
      ssp_blocked_pushes := (grow_to (j - S) [] (ssp_blocked_pushes s))[j - S := nth_or [] (ssp_blocked_pushes s) (j - S) @ [(cmd, src, ts, bin)]]\<rparr>, [])"
proof -
  have "nat (int j - int S) = j - S" "\<not> int j - int S \<le> int (ssp_min_clock s)" using assms(3) by linarith+
  then show ?thesis using assms(1,2) by (simp add: ssp_push_def Let_def bump_unfold)
qed

lemma ssp_push_process:
  assumes "j = nth_or 0 (ssp_worker_progress s) src" "ssp_staleness s = int S" "j < Suc (ssp_min_clock s + S)"
  shows "ssp_push rm kv_id ts cmd src bin s = process_push rm kv_id ts cmd src bin
      (s\<lparr>ssp_clock_count := bump j (ssp_clock_count s), ssp_worker_progress := bump src (ssp_worker_progress s)\<rparr>)"
proof -
  have "int j - int S \<le> int (ssp_min_clock s)" using assms(3) by linarith
  then show ?thesis using assms(1,2) by (simp add: ssp_push_def Let_def bump_unfold)
qed

lemma process_push_stay:
  assumes "serve_push rm kv_id (ssp_server_id s) ts cmd (int src) bin (ssp_is_vector s) False (ssp_store s) = Inr (st1, o1)"
    and "ssp_min_clock s < length (ssp_clock_count s)" "int (nth_or 0 (ssp_clock_count s) (ssp_min_clock s)) \<noteq> ssp_num_workers s"
  shows "process_push rm kv_id ts cmd src bin s = Inr (s\<lparr>ssp_store := st1\<rparr>, o1)"
  using assms by (simp add: process_push_def vec_get_def nth_or_def)

lemma process_push_advance:
  assumes "serve_push rm kv_id (ssp_server_id s) ts cmd (int src) bin (ssp_is_vector s) False (ssp_store s) = Inr (st1, o1)"
    and "ssp_min_clock s < length (ssp_clock_count s)" "int (nth_or 0 (ssp_clock_count s) (ssp_min_clock s)) = ssp_num_workers s"
    and "m = Suc (ssp_min_clock s)"
    and "release_pushes rm kv_id (ssp_server_id s) (ssp_is_vector s) False (nth_or [] (ssp_blocked_pushes s) m) st1 = Inr (st2, o2)"
    and "ssp_release_pulls rm kv_id (ssp_server_id s) (ssp_is_vector s) m (nth_or [] (ssp_blocked_pulls s) m) st2 = Inr (st3, o3)"
  shows "process_push rm kv_id ts cmd src bin s = Inr (s\<lparr>ssp_min_clock := m, ssp_store := st3,
      ssp_blocked_pushes := (grow_to m [] (ssp_blocked_pushes s))[m := []],
      ssp_blocked_pulls := (grow_to m [] (ssp_blocked_pulls s))[m := []]\<rparr>, o1 @ o2 @ o3)"
  using assms by (simp add: process_push_def vec_get_def nth_or_nth)

section \<open>Every request keeps the invariant\<close>

lemma ssp_process_push_step:
  assumes core: "ssp_core rm kv_id s0 W P R (s\<lparr>ssp_store := st1\<rparr>) (outs @ o1) log" and fin: "finite W"
    and sp: "serve_push rm kv_id (ssp_server_id s) ts cmd (int src) bin (ssp_is_vector s) False (ssp_store s) = Inr (st1, o1)"
    and len: "ssp_min_clock s < length (ssp_clock_count s)"
    and least: "\<forall>w\<in>W. ssp_min_clock s < length (P w) \<Longrightarrow> \<exists>w\<in>W. length (P w) = Suc (ssp_min_clock s)" and W: "W \<noteq> {}"
    and okP: "\<And>w e. w \<in> W \<Longrightarrow> e \<in> set (P w) \<Longrightarrow> push_ok rm kv_id (ssp_server_id s0) (ssp_is_vector s0) (store_valid (ssp_store s0)) e"
    and okR: "\<And>e c. (e, c) \<in> set R \<Longrightarrow> ssp_pull_ok rm kv_id (ssp_server_id s0) (ssp_is_vector s0) (store_valid (ssp_store s0)) e"
  shows "\<exists>s' o2 log'. process_push rm kv_id ts cmd src bin s = Inr (s', o2) \<and> ssp_inv rm kv_id s0 W P R s' (outs @ o2) log'"
proof (cases "\<forall>w\<in>W. ssp_min_clock s < length (P w)")
  case False
  then have "\<exists>w\<in>W. length (P w) = ssp_min_clock s" using ssp_coreD(3) [OF core] by (auto simp: not_less intro: le_antisym)
  moreover have "int (nth_or 0 (ssp_clock_count s) (ssp_min_clock s)) \<noteq> ssp_num_workers s"
    using False chan_cnt_full [OF ssp_coreD(2) [OF core] fin, of "ssp_min_clock s"] ssp_coreD(1) [OF core]
    by (simp add: ssp_static_def)
  ultimately show ?thesis using process_push_stay [OF sp len] core by (auto simp: ssp_inv_def)
next
  case True
  let ?m = "Suc (ssp_min_clock s)" and ?s = "s\<lparr>ssp_store := st1\<rparr>"
  note st = ssp_coreD(1) [OF core, unfolded ssp_static_def]
  have cnt: "int (nth_or 0 (ssp_clock_count s) (ssp_min_clock s)) = ssp_num_workers s"
    using True chan_cnt_full [OF ssp_coreD(2) [OF core] fin, of "ssp_min_clock s"] st by simp
  have "push_ok rm kv_id (ssp_server_id s0) (ssp_is_vector s0) (store_valid st1) f" if "f \<in> set (nth_or [] (ssp_blocked_pushes s) ?m)" for f
    using chan_blk_mem [OF ssp_coreD(2) [OF core], of "?m + ssp_S s0" f] that st okP by (fastforce dest: nth_mem)
  then obtain st2 o2 where rel: "release_pushes rm kv_id (ssp_server_id s) (ssp_is_vector s) False (nth_or [] (ssp_blocked_pushes s) ?m) st1 = Inr (st2, o2)"
    and st2: "store_obs st2 = (\<lambda>x. store_obs (ssp_store ?s) x + (\<Sum>f\<leftarrow>nth_or [] (ssp_blocked_pushes ?s) ?m.
          push_effect rm kv_id (ssp_server_id s0) (ssp_is_vector s0) f x))" "store_valid st2 = store_valid (ssp_store ?s)"
      "mset o2 = (\<Sum>f\<leftarrow>nth_or [] (ssp_blocked_pushes ?s) ?m. push_answer kv_id f)"
    using release_pushes_ok [of "nth_or [] (ssp_blocked_pushes s) ?m" rm kv_id "ssp_server_id s0" "ssp_is_vector s0" st1] st by auto
  have "\<forall>f \<in> set (nth_or [] (ssp_blocked_pulls s) ?m). ssp_pull_ok rm kv_id (ssp_server_id s0) (ssp_is_vector s0) (store_valid st2) f"
    using ssp_blocked_mem(1) [OF ssp_coreD(4) [OF core], of ?m] okR st st2(2) by fastforce
  then obtain st3 o3 where rel2: "ssp_release_pulls rm kv_id (ssp_server_id s) (ssp_is_vector s) ?m (nth_or [] (ssp_blocked_pulls s) ?m) st2 = Inr (st3, o3)"
    and st3: "store_obs st3 = store_obs st2" "store_valid st3 = store_valid st2"
      "mset o3 = (\<Sum>f\<leftarrow>nth_or [] (ssp_blocked_pulls ?s) ?m. ssp_pull_answer rm kv_id (ssp_server_id s0) (ssp_is_vector s0) (store_obs st2) ?m f)"
    using ssp_release_pulls_ok [of "nth_or [] (ssp_blocked_pulls s) ?m" rm kv_id "ssp_server_id s0" "ssp_is_vector s0" st2 ?m] st by auto
  obtain w where "w \<in> W" "length (P w) = ?m" using least True W by blast
  then show ?thesis
    using process_push_advance [OF sp len cnt refl rel rel2]
      ssp_core_advance [OF core fin _ _ refl st2(1,2) st3(1,2) st2(3) st3(3)] True
    by (auto simp: ssp_inv_def)
qed

lemma ssp_push_step:
  fixes cmd src ts bin
  defines "e \<equiv> (cmd, src, ts, bin)"
  assumes inv: "ssp_inv rm kv_id s0 W P R s outs log" and fin: "finite W" and src: "src \<in> W"
    and okP: "\<And>w f. w \<in> W \<Longrightarrow> f \<in> set (recv e P w) \<Longrightarrow> push_ok rm kv_id (ssp_server_id s0) (ssp_is_vector s0) (store_valid (ssp_store s0)) f"
    and okR: "\<And>f c. (f, c) \<in> set R \<Longrightarrow> ssp_pull_ok rm kv_id (ssp_server_id s0) (ssp_is_vector s0) (store_valid (ssp_store s0)) f"
  shows "\<exists>s' o1 log'. ssp_push rm kv_id ts cmd src bin s = Inr (s', o1) \<and> ssp_inv rm kv_id s0 W (recv e P) R s' (outs @ o1) log'"
proof -
  let ?j = "length (P src)" and ?m = "ssp_min_clock s" and ?S = "ssp_S s0"
  have core: "ssp_core rm kv_id s0 W P R s outs log" using inv by (simp add: ssp_inv_def)
  obtain w0 where w0: "w0 \<in> W" "length (P w0) = ?m" using inv by (auto simp: ssp_inv_def)
  note st = ssp_coreD(1) [OF core, unfolded ssp_static_def]
  have e: "e_src e = src" by (simp add: e_def)
  have prog: "?j = nth_or 0 (ssp_worker_progress s) src" using chan_prog [OF ssp_coreD(2) [OF core]] by simp
  have low: "?m \<le> ?j" using ssp_coreD(3) [OF core] src by blast
  have stal: "ssp_staleness s = int ?S" using st by simp
  show ?thesis
  proof (cases "Suc (?m + ?S) \<le> ?j")
    case True
    then have "w0 \<noteq> src" using w0 by auto
    then have "\<exists>w\<in>W. length (recv e P w) = ?m" using w0 by (auto simp: recv_length e)
    then show ?thesis
      using ssp_core_push_blocked [OF core fin, of e ?j] ssp_push_blocked [OF prog stal True, of rm kv_id ts cmd bin] True src
      by (auto simp: ssp_inv_def e simp flip: e_def)
  next
    case False
    have "push_ok rm kv_id (ssp_server_id s0) (ssp_is_vector s0) (store_valid (ssp_store s)) e"
      using okP [of src e] src st by (simp add: recv_def e)
    then obtain st1 o1 where sp: "serve_push rm kv_id (ssp_server_id s) ts cmd (int src) bin (ssp_is_vector s) False (ssp_store s) = Inr (st1, o1)"
      and st1: "store_obs st1 = (\<lambda>x. store_obs (ssp_store s) x + push_effect rm kv_id (ssp_server_id s0) (ssp_is_vector s0) e x)"
        "store_valid st1 = store_valid (ssp_store s)" "mset o1 = push_answer kv_id e"
      using serve_push_ok [of rm kv_id "ssp_server_id s0" "ssp_is_vector s0" "ssp_store s" cmd src ts bin] st by (auto simp: e_def)
    let ?s = "s\<lparr>ssp_clock_count := bump ?j (ssp_clock_count s), ssp_worker_progress := bump src (ssp_worker_progress s)\<rparr>"
    have core1: "ssp_core rm kv_id s0 W (recv e P) R (?s\<lparr>ssp_store := st1\<rparr>) (outs @ o1) log"
      using ssp_core_push_served [OF core fin _ _ _ st1, of ?j] False src by (simp add: e)
    have least: "\<exists>w\<in>W. length (recv e P w) = Suc (ssp_min_clock ?s)" if "\<forall>w\<in>W. ssp_min_clock ?s < length (recv e P w)"
      using that w0 by (intro bexI [of _ w0]) (auto simp: recv_length e split: if_splits)
    have "\<exists>s' o2 log'. process_push rm kv_id ts cmd src bin ?s = Inr (s', o2) \<and> ssp_inv rm kv_id s0 W (recv e P) R s' (outs @ o2) log'"
      by (rule ssp_process_push_step [OF core1 fin _ _ least _ okP okR]) (use sp low src in \<open>auto simp: bump_def\<close>)
    then show ?thesis using ssp_push_process [OF prog stal, of rm kv_id ts cmd bin] False by simp
  qed
qed

lemma ssp_pull_step:
  fixes cmd src ts bin
  defines "e \<equiv> (cmd, src, ts, bin)"
  assumes inv: "ssp_inv rm kv_id s0 W P R s outs log" and src: "src \<in> W"
    and ok: "ssp_pull_ok rm kv_id (ssp_server_id s0) (ssp_is_vector s0) (store_valid (ssp_store s0)) e"
  shows "\<exists>s' o1 log'. ssp_pull rm kv_id ts cmd src bin s = Inr (s', o1)
     \<and> ssp_inv rm kv_id s0 W P (R @ [(e, length (P src))]) s' (outs @ o1) log'"
proof -
  let ?c = "length (P src)" and ?m = "ssp_min_clock s" and ?S = "ssp_S s0"
  have core: "ssp_core rm kv_id s0 W P R s outs log" and least: "\<exists>w\<in>W. length (P w) = ?m" using inv by (simp_all add: ssp_inv_def)
  note st = ssp_coreD(1) [OF core, unfolded ssp_static_def]
  have e: "e_src e = src" by (simp add: e_def)
  have prog: "nth_or 0 (ssp_worker_progress s) src = ?c" using chan_prog [OF ssp_coreD(2) [OF core]] .
  show ?thesis
  proof (cases "?c \<le> ?m + ?S")
    case True
    obtain st1 o1 where sp: "ssp_serve_pull rm kv_id (ssp_server_id s) ts cmd (int src) bin (ssp_is_vector s) ?m (ssp_store s) = Inr (st1, o1)"
      and st1: "store_obs st1 = store_obs (ssp_store s)" "store_valid st1 = store_valid (ssp_store s)"
        "mset o1 = ssp_pull_answer rm kv_id (ssp_server_id s0) (ssp_is_vector s0) (store_obs (ssp_store s)) ?m e"
      using ssp_serve_pull_ok [of rm kv_id "ssp_server_id s0" "ssp_is_vector s0" "ssp_store s" cmd src ts bin ?m] ok st by (auto simp: e_def)
    have "ssp_pull rm kv_id ts cmd src bin s = Inr (s\<lparr>ssp_worker_progress := grow_to src 0 (ssp_worker_progress s), ssp_store := st1\<rparr>, o1)"
      using True sp st prog by (simp add: ssp_pull_def)
    then show ?thesis
      using ssp_core_pull_served [OF core _ _ _ st1 refl, of ?c src] src True least by (auto simp: ssp_inv_def e)
  next
    case False
    then have i: "nat (int ?c - int ?S) = ?c - ?S" "\<not> int ?c - int ?S \<le> int ?m" "?m < ?c - ?S" "?c = ?c - ?S + ?S" by linarith+
    have "ssp_pull rm kv_id ts cmd src bin s = Inr (s\<lparr>ssp_worker_progress := grow_to src 0 (ssp_worker_progress s),
        ssp_blocked_pulls := (grow_to (?c - ?S) [] (ssp_blocked_pulls s))[?c - ?S := nth_or [] (ssp_blocked_pulls s) (?c - ?S) @ [e]]\<rparr>, [])"
      using i(1,2) st prog by (simp add: ssp_pull_def Let_def e_def)
    then show ?thesis
      using ssp_core_pull_blocked [OF core _ _ i(3) i(4), of e src] src least by (auto simp: ssp_inv_def e)
  qed
qed

section \<open>Histories\<close>

definition ssp_request_ok :: "RangeManager \<Rightarrow> nat \<Rightarrow> 'v SSPServer \<Rightarrow> nat set \<Rightarrow> bool \<times> 'v entry \<Rightarrow> bool" where
  "ssp_request_ok rm kv_id s0 W = (\<lambda>(push, e). e_src e \<in> W \<and> e_cmd e \<noteq> 4 \<and> e_cmd e < consistency_control_off_magic
     \<and> (if push then push_ok rm kv_id (ssp_server_id s0) (ssp_is_vector s0) (store_valid (ssp_store s0)) e
        else ssp_pull_ok rm kv_id (ssp_server_id s0) (ssp_is_vector s0) (store_valid (ssp_store s0)) e))"

text \<open>The pulls of a history, each with the clock of its worker at that moment.\<close>

definition ssp_pulls :: "(bool \<times> 'v entry) list \<Rightarrow> ('v entry \<times> nat) list" where
  "ssp_pulls h = concat (map (\<lambda>i. if fst (h ! i) then []
      else [(snd (h ! i), length (pushes_of (take i h) (e_src (snd (h ! i)))))]) [0..<length h])"

definition ssp_fresh :: "'v SSPServer \<Rightarrow> bool" where
  "ssp_fresh s \<longleftrightarrow> ssp_min_clock s = 0 \<and> ssp_clock_count s = [] \<and> (\<forall>p \<in> set (ssp_worker_progress s). p = 0)
     \<and> ssp_blocked_pushes s = [] \<and> ssp_blocked_pulls s = []"

lemma ssp_pulls_Nil [simp]: "ssp_pulls [] = []"
  by (simp add: ssp_pulls_def)

lemma ssp_pulls_snoc:
  "ssp_pulls (h @ [(push, e)]) = ssp_pulls h @ (if push then [] else [(e, length (pushes_of h (e_src e)))])"
proof -
  have eq: "map (\<lambda>i. if fst ((h @ [(push, e)]) ! i) then []
      else [(snd ((h @ [(push, e)]) ! i), length (pushes_of (take i (h @ [(push, e)])) (e_src (snd ((h @ [(push, e)]) ! i)))))]) [0..<length h]
    = map (\<lambda>i. if fst (h ! i) then [] else [(snd (h ! i), length (pushes_of (take i h) (e_src (snd (h ! i)))))]) [0..<length h]"
    by (rule map_cong) (auto simp: nth_append)
  show ?thesis
    unfolding ssp_pulls_def by (simp only: length_append_singleton upt_Suc_append [OF le0] map_append concat_append eq) simp
qed

lemma ssp_pulls_mem: "(e, c) \<in> set (ssp_pulls h) \<Longrightarrow> (False, e) \<in> set h"
  by (auto simp: ssp_pulls_def split: if_splits) (metis (full_types) nth_mem prod.collapse)

lemma pushes_of_mem: "f \<in> set (pushes_of h w) \<Longrightarrow> (True, f) \<in> set h"
  by (auto simp: pushes_of_def)

lemma ssp_run_snoc:
  "ssp_run rm kv_id (h @ [(push, e)]) s0 = bindE (ssp_run rm kv_id h s0) (\<lambda>(s, out).
     bindE (ssp_Process rm kv_id (e_ts e) (encode_request push e) s) (\<lambda>(s, o1). Inr (s, out @ o1)))"
  unfolding ssp_run_def foldE_append by (rule arg_cong [of _ _ "bindE _"]) (auto simp: fun_eq_iff)

lemma ssp_Process_request:
  assumes "ssp_request_ok rm kv_id s0 W (push, (cmd, src, ts, bin))"
  shows "ssp_Process rm kv_id ts (encode_request push (cmd, src, ts, bin)) s
    = (if push then ssp_push rm kv_id ts cmd src bin s else ssp_pull rm kv_id ts cmd src bin s)"
  using assms by (simp add: ssp_Process_def encode_request_def ssp_request_ok_def e_cmd_def)

lemma ssp_inv_init:
  assumes "ssp_fresh s0" "ssp_num_workers s0 = int (card W)" "0 \<le> ssp_staleness s0" "W \<noteq> {}"
  shows "ssp_inv rm kv_id s0 W (\<lambda>w. []) [] s0 [] []"
  using assms by (auto simp: ssp_inv_def ssp_core_def ssp_static_def ssp_fresh_def ssp_S_def chan_def acc_def
      ssp_pulls_inv_def ssp_view_def [abs_def] nth_or_def)

lemma ssp_run_inv:
  assumes "finite W" "W \<noteq> {}" "ssp_fresh s0" "ssp_num_workers s0 = int (card W)" "0 \<le> ssp_staleness s0"
    and "\<forall>m \<in> set h. ssp_request_ok rm kv_id s0 W m"
  shows "\<exists>s outs log. ssp_run rm kv_id h s0 = Inr (s, outs) \<and> ssp_inv rm kv_id s0 W (pushes_of h) (ssp_pulls h) s outs log"
  using assms(6)
proof (induction h rule: rev_induct)
  case Nil
  then show ?case using ssp_inv_init [OF assms(3,4,5,2)] by (auto simp: ssp_run_def)
next
  case (snoc m h)
  obtain push cmd src ts bin where m: "m = (push, (cmd, src, ts, bin))" by (metis surj_pair)
  let ?e = "(cmd, src, ts, bin)"
  have req: "ssp_request_ok rm kv_id s0 W m" and hist: "\<forall>m \<in> set (h @ [m]). ssp_request_ok rm kv_id s0 W m" using snoc.prems by simp_all
  obtain s outs log where run: "ssp_run rm kv_id h s0 = Inr (s, outs)"
    and inv: "ssp_inv rm kv_id s0 W (pushes_of h) (ssp_pulls h) s outs log" using snoc by auto
  have src: "src \<in> W" using req m by (simp add: ssp_request_ok_def)
  have okP: "push_ok rm kv_id (ssp_server_id s0) (ssp_is_vector s0) (store_valid (ssp_store s0)) f" if "f \<in> set (pushes_of (h @ [m]) w)" for f w
    using bspec [OF hist pushes_of_mem [OF that]] by (simp add: ssp_request_ok_def)
  have okR: "ssp_pull_ok rm kv_id (ssp_server_id s0) (ssp_is_vector s0) (store_valid (ssp_store s0)) f" if "(f, c) \<in> set (ssp_pulls h)" for f c
    using bspec [OF hist, of "(False, f)"] ssp_pulls_mem [OF that] by (simp add: ssp_request_ok_def)
  have "\<exists>s' o1 log'. ssp_Process rm kv_id ts (encode_request push ?e) s = Inr (s', o1)
      \<and> ssp_inv rm kv_id s0 W (pushes_of (h @ [m])) (ssp_pulls (h @ [m])) s' (outs @ o1) log'"
  proof (cases push)
    case True
    then show ?thesis
      using ssp_push_step [OF inv assms(1) src, of cmd ts bin] okP okR
      unfolding m ssp_Process_request [OF req [unfolded m]] by (simp add: pushes_of_snoc ssp_pulls_snoc)
  next
    case False
    then show ?thesis
      using ssp_pull_step [OF inv src, of cmd ts bin] req
      unfolding m ssp_Process_request [OF req [unfolded m]] by (simp add: pushes_of_snoc ssp_pulls_snoc ssp_request_ok_def)
  qed
  then show ?case using m run by (auto simp: ssp_run_snoc e_ts_def)
qed

section \<open>Initialisation\<close>

lemma ssp_reset_simps [simp]:
  "ssp_init_count (ssp_reset n s) = ssp_init_count s" "ssp_store (ssp_reset n s) = ssp_store s"
  "ssp_staleness (ssp_reset n s) = ssp_staleness s" "n \<noteq> -1 \<Longrightarrow> ssp_num_workers (ssp_reset n s) = n"
  by (simp_all add: ssp_reset_def Let_def)

lemma ssp_init_run:
  assumes "ssp_init_count s = 0" "ms \<noteq> []" "num = (if fst (hd ms) = -1 then ssp_num_workers s else fst (hd ms))" "int (length ms) \<le> num"
  shows "ssp_run rm kv_id (map init_message ms) s
    = Inr ((ssp_reset (fst (hd ms)) s)\<lparr>ssp_init_count := if int (length ms) = num then 0 else int (length ms)\<rparr>, map (\<lambda>(n, w). init_reply kv_id w) ms)"
  using assms(2-4)
proof (induction ms rule: rev_induct)
  case (snoc q ms)
  obtain n src ts where q: "q = (n, src, ts)" using prod_cases3 by blast
  have req: "init_message (n, src, ts) = (True, (4, src, ts, [FInt n]))" and rep: "init_reply kv_id (src, ts) = Response kv_id ts 4 True (int src) empty_KVPairs (-1)"
    by (simp_all add: q init_message_def init_reply_def)
  note ev = ssp_Process_def encode_request_def ssp_init_def req rep e_ts_def Let_def
  have num: "ssp_num_workers (ssp_reset (fst (hd ms)) s) = num" if "ms \<noteq> []" using snoc.prems(2) that by (simp add: ssp_reset_def Let_def)
  show ?case
  proof (cases "ms = []")
    case True
    then show ?thesis using assms(1) snoc.prems by (auto simp: ev q ssp_run_def ssp_reset_def)
  next
    case False
    have run: "ssp_run rm kv_id (map init_message ms) s
        = Inr ((ssp_reset (fst (hd ms)) s)\<lparr>ssp_init_count := int (length ms)\<rparr>, map (\<lambda>(n, w). init_reply kv_id w) ms)"
      using snoc False by simp
    show ?thesis
      using False snoc.prems num by (simp add: ev q ssp_run_snoc run)
  qed
qed simp

section \<open>Properties\<close>

lemma ssp_inv_min_clock:
  assumes "ssp_inv rm kv_id s0 W P R s outs log" "finite W"
  shows "ssp_min_clock s = min_len W P"
proof -
  obtain w where "w \<in> W" "length (P w) = ssp_min_clock s" "\<forall>w\<in>W. ssp_min_clock s \<le> length (P w)"
    using assms(1) by (auto simp: ssp_inv_def ssp_core_def)
  then show ?thesis using min_lenI [of W w P "ssp_min_clock s"] assms(2) by simp
qed

text \<open>
  C10. Bounded staleness. For every interleaving of the pushes and pulls of the workers (in any order, waiting or
  not) the SSP server runs without an error, \<open>min_clock\<close> is the smallest number of pushes of a worker, a push is applied
  and answered exactly if its number is at most \<open>min_clock + S\<close>, and a pull of a worker at clock \<open>c\<close> has been
  answered exactly if \<open>c \<le> min_clock + S\<close>. Each answered pull shows the initial contents plus the first \<open>a w\<close> pushes of
  every worker \<open>w\<close> and nothing else, where \<open>a w \<ge> c - S\<close> for every worker, the worker's own \<open>c\<close> pushes are included, and
  the reported \<open>min_clock\<close> is a lower bound of all \<open>a w\<close>.
  Scope: exact addition, a fresh server, requests for keys and chunks that the server serves, and clocks that do not overflow.
\<close>

theorem ssp_bounded_staleness:
  assumes "finite W" "W \<noteq> {}" "ssp_fresh s0" "ssp_num_workers s0 = int (card W)" "ssp_staleness s0 = int S"
    and "\<forall>m \<in> set h. ssp_request_ok rm kv_id s0 W m"
  shows "\<exists>s outs log. ssp_run rm kv_id h s0 = Inr (s, outs) \<and> ssp_min_clock s = min_len W (pushes_of h)
     \<and> mset outs = (\<Sum>w\<in>W. \<Sum>j<min (length (pushes_of h w)) (Suc (ssp_min_clock s + S)). push_answer kv_id (pushes_of h w ! j))
                  + (\<Sum>x\<leftarrow>log. ssp_answer rm kv_id s0 W (pushes_of h) x)
     \<and> image_mset (\<lambda>(e, c, a, m). (e, c)) (mset log) = filter_mset (\<lambda>r. snd r \<le> ssp_min_clock s + S) (mset (ssp_pulls h))
     \<and> (\<forall>(e, c, a, m) \<in> set log. c \<le> a (e_src e)
           \<and> (\<forall>w\<in>W. c \<le> a w + S \<and> a w \<le> length (pushes_of h w) \<and> m \<le> a w))"
proof -
  have S: "ssp_S s0 = S" "0 \<le> ssp_staleness s0" using assms(5) by (simp_all add: ssp_S_def)
  obtain s outs log where run: "ssp_run rm kv_id h s0 = Inr (s, outs)"
    and inv: "ssp_inv rm kv_id s0 W (pushes_of h) (ssp_pulls h) s outs log" using ssp_run_inv [OF assms(1-4) S(2) assms(6)] by auto
  have core: "ssp_core rm kv_id s0 W (pushes_of h) (ssp_pulls h) s outs log" using inv by (simp add: ssp_inv_def)
  have "\<forall>(e, c, a, m) \<in> set log. c \<le> a (e_src e) \<and> (\<forall>w\<in>W. c \<le> a w + S \<and> a w \<le> length (pushes_of h w) \<and> m \<le> a w)"
    using ssp_coreD(4) [OF core] unfolding ssp_pulls_inv_def ssp_seen_ok_def S by fastforce
  then show ?thesis
    using run ssp_inv_min_clock [OF inv assms(1)] ssp_coreD(4,6) [OF core] unfolding ssp_pulls_inv_def acc_def S
    by blast
qed

text \<open>Two workers with staleness 1; worker 5 pushes twice and pulls while worker 6 has pushed once.\<close>

definition ssp_example :: "int SSPServer" where
  "ssp_example = \<lparr>ssp_num_workers = 2, ssp_staleness = 1, ssp_min_clock = 0, ssp_clock_count = [],
     ssp_worker_progress = [0, 0], ssp_blocked_pushes = [], ssp_blocked_pulls = [], ssp_is_vector = False,
     ssp_store = MapStore Map.empty, ssp_server_id = 0, ssp_init_count = 0\<rparr>"

definition ssp_example_history :: "(bool \<times> int entry) list" where
  "ssp_example_history =
     [(True, 0, 5, 0, put_keys [7] @ put_vals [1]), (True, 0, 5, 1, put_keys [7] @ put_vals [2]),
      (False, 0, 5, 2, put_keys [7]), (True, 0, 6, 0, put_keys [7] @ put_vals [4])]"

lemma ssp_example_made: "mk_SSPServer 0 2 (MapStore Map.empty) False 1 = Inr ssp_example"
  by (simp add: mk_SSPServer_def ssp_example_def numeral_2_eq_2)

lemma ssp_example_ok:
  "finite {5, 6 :: nat}" "{5, 6 :: nat} \<noteq> {}" "ssp_fresh ssp_example"
  "ssp_num_workers ssp_example = int (card {5, 6 :: nat})" "ssp_staleness ssp_example = int 1"
  "\<forall>m \<in> set ssp_example_history. ssp_request_ok two_servers 0 ssp_example {5, 6} m"
  by (simp_all add: ssp_example_def ssp_fresh_def ssp_example_history_def ssp_request_ok_def push_ok_def ssp_pull_ok_def
      pull_ok_def writes_def reads_def interval_of_def pair_writes_def e_cmd_def consistency_control_off_magic_def
      ssp_base_cmd_def with_min_clock_magic_def)

theorem ssp_bounded_staleness_witness:
  "\<exists>s outs (log :: int seen list). ssp_run two_servers 0 ssp_example_history ssp_example = Inr (s, outs)
     \<and> ssp_min_clock s = min_len {5, 6} (pushes_of ssp_example_history)
     \<and> image_mset (\<lambda>(e, c, a, m). (e, c)) (mset log)
       = filter_mset (\<lambda>r. snd r \<le> ssp_min_clock s + 1) (mset (ssp_pulls ssp_example_history))"
  using ssp_bounded_staleness [OF ssp_example_ok] by blast

text \<open>
  C11. Nothing is lost: when all workers have the same clock \<open>r\<close>, every push has been applied and answered, every pull has
  been answered, and the store shows the initial contents plus all pushes.
  Scope: exact addition, a fresh server, requests for keys and chunks that the server serves, and clocks that do not overflow.
\<close>

theorem ssp_all_answered:
  assumes "finite W" "W \<noteq> {}" "ssp_fresh s0" "ssp_num_workers s0 = int (card W)" "0 \<le> ssp_staleness s0"
    and "\<forall>m \<in> set h. ssp_request_ok rm kv_id s0 W m" and "\<forall>w\<in>W. length (pushes_of h w) = r"
  shows "\<exists>s outs log. ssp_run rm kv_id h s0 = Inr (s, outs)
     \<and> mset outs = (\<Sum>w\<in>W. \<Sum>j<r. push_answer kv_id (pushes_of h w ! j)) + (\<Sum>x\<leftarrow>log. ssp_answer rm kv_id s0 W (pushes_of h) x)
     \<and> image_mset (\<lambda>(e, c, a, m). (e, c)) (mset log) = mset (ssp_pulls h)
     \<and> store_obs (ssp_store s) = ssp_view rm kv_id s0 W (pushes_of h) (\<lambda>w. r)"
proof -
  obtain s outs log where run: "ssp_run rm kv_id h s0 = Inr (s, outs)"
    and inv: "ssp_inv rm kv_id s0 W (pushes_of h) (ssp_pulls h) s outs log" using ssp_run_inv [OF assms(1-6)] by auto
  have core: "ssp_core rm kv_id s0 W (pushes_of h) (ssp_pulls h) s outs log" using inv by (simp add: ssp_inv_def)
  have m: "ssp_min_clock s = r" using inv assms(7) by (auto simp: ssp_inv_def)
  have "\<forall>x \<in> set (ssp_pulls h). snd x \<le> r"
    using ssp_coreD(4) [OF core] assms(7) unfolding ssp_pulls_inv_def by force
  then have "filter_mset (\<lambda>x. snd x \<le> r + ssp_S s0) (mset (ssp_pulls h)) = mset (ssp_pulls h)"
    by (intro filter_mset_cong [THEN trans [OF _ filter_mset_True]]) auto
  moreover have "ssp_view rm kv_id s0 W (pushes_of h) (\<lambda>w. min (length (pushes_of h w)) (Suc (r + ssp_S s0)))
      = ssp_view rm kv_id s0 W (pushes_of h) (\<lambda>w. r)"
    using assms(7) by (simp add: ssp_view_def [abs_def])
  ultimately show ?thesis
    using run ssp_coreD(4,5,6) [OF core] assms(7) m unfolding ssp_pulls_inv_def by (auto simp: acc_def)
qed

theorem ssp_all_answered_witness:
  "\<exists>s outs (log :: int seen list). ssp_run two_servers 0 (ssp_example_history @ [(True, 0, 6, 1, put_keys [7] @ put_vals [8])]) ssp_example = Inr (s, outs)
     \<and> image_mset (\<lambda>(e, c, a, m). (e, c)) (mset log)
       = mset (ssp_pulls (ssp_example_history @ [(True, 0, 6, 1, put_keys [7] @ put_vals [8])]))"
proof -
  let ?h = "ssp_example_history @ [(True, 0, 6, 1, put_keys [7] @ put_vals [8])]"
  have ok: "\<forall>m \<in> set ?h. ssp_request_ok two_servers 0 ssp_example {5, 6} m"
    using ssp_example_ok(6) by (simp add: ssp_example_def ssp_request_ok_def push_ok_def writes_def interval_of_def
        pair_writes_def e_cmd_def consistency_control_off_magic_def)
  have r: "\<forall>w\<in>{5, 6}. length (pushes_of ?h w) = 2" by (simp add: pushes_of_def ssp_example_history_def)
  have "0 \<le> ssp_staleness ssp_example" by (simp add: ssp_example_def)
  from ssp_all_answered [OF ssp_example_ok(1-4) this ok r] show ?thesis by blast
qed

text \<open>
  C12. The initialisation barrier of an epoch of the SSP server: the first message of \<^verbatim>\<open>InitForConsistencyControl\<close> that reaches an idle server clears the clocks and the kept requests, whatever the server remembers of an earlier epoch, and sets the
  number of workers, unless it carries \<open>-1\<close>; later values are not used. Every message is answered at once, contents and staleness are kept, and after as many messages as there are workers the server is ready for the next barrier.
\<close>

theorem ssp_init_barrier:
  assumes "ssp_init_count s = 0" "ms \<noteq> []" "num = (if fst (hd ms) = -1 then ssp_num_workers s else fst (hd ms))" "int (length ms) \<le> num"
  shows "ssp_run rm kv_id (map init_message ms) s = Inr (
    \<lparr>ssp_num_workers = num, ssp_staleness = ssp_staleness s, ssp_min_clock = 0, ssp_clock_count = [], ssp_worker_progress = [], ssp_blocked_pushes = [], ssp_blocked_pulls = [], ssp_is_vector = ssp_is_vector s,
     ssp_store = ssp_store s, ssp_server_id = ssp_server_id s, ssp_init_count = (if int (length ms) = num then 0 else int (length ms))\<rparr>, map (\<lambda>(n, w). init_reply kv_id w) ms)"
  unfolding ssp_init_run [OF assms] using assms(3) by (auto simp: ssp_reset_def Let_def intro!: SSPServer.equality)

text \<open>Three workers of the next epoch, whose number the first message does not give.\<close>

theorem ssp_init_barrier_witness:
  "ssp_run two_servers 0 (map init_message [(-1, 5, 0), (3, 7, 0), (9, 6, 0)]) (ssp_example\<lparr>ssp_num_workers := 3, ssp_min_clock := 4, ssp_worker_progress := [5, 4]\<rparr>)
   = Inr (ssp_example\<lparr>ssp_num_workers := 3, ssp_worker_progress := []\<rparr>, map (init_reply 0) [(5, 0), (7, 0), (6, 0)])"
  by (subst ssp_init_barrier [where num = 3]) (simp_all add: ssp_example_def)

definition spread_history :: "(bool \<times> int entry) list" where
  "spread_history =
     [(True, 0, 6, 0, put_keys [7] @ put_vals [1]), (False, 0, 6, 1, put_keys [7]),
      (True, 0, 5, 0, put_keys [7] @ put_vals [1]),
      (True, 0, 6, 2, put_keys [7] @ put_vals [1]), (True, 0, 6, 3, put_keys [7] @ put_vals [1]),
      (False, 0, 5, 1, put_keys [7])]"

definition outs_of :: "error + ('s \<times> 'v out) \<Rightarrow> 'v out" where
  "outs_of r = (case r of Inl e \<Rightarrow> [] | Inr (s, out) \<Rightarrow> out)"

text \<open>
  What two pulls of the same iteration show can differ by more than the bound \<open>staleness * num_workers * 2 - 2\<close> (here 2)
  that the comment of the class states: with two workers, staleness 1 and pushes of 1, the pull of
  worker 6 at clock 1 shows 1 and the pull of worker 5 at clock 1 shows 4.
\<close>

lemma ssp_spread:
  "outs_of (ssp_run two_servers 0 spread_history ssp_example) =
     [Response 0 0 0 True 6 empty_KVPairs (-1), Response 0 1 0 False 6 \<lparr>kv_keys = [7], kv_vals = [1]\<rparr> (-1),
      Response 0 0 0 True 5 empty_KVPairs (-1), Response 0 2 0 True 6 empty_KVPairs (-1), Response 0 3 0 True 6 empty_KVPairs (-1),
      Response 0 1 0 False 5 \<lparr>kv_keys = [7], kv_vals = [4]\<rparr> (-1)]"
  by code_simp

end
