(* ===== verification/KV_Worker.thy ===== *)
theory KV_Worker
  imports Server_Base
begin

text \<open>
  The client side of the parameter server: \<^verbatim>\<open>KVWorker\<close> (\<^verbatim>\<open>kvstore/kvworker.hpp\<close>) and the request tracker
  of \<^verbatim>\<open>WorkerCustomer\<close> (\<^verbatim>\<open>kvstore/workercustomer.hpp\<close>, \<^verbatim>\<open>workercustomer.cpp\<close>).

  A request (\<open>Push\<close>, \<open>Pull\<close>, \<open>PushChunks\<close>, ...) returns the new state of the worker, the timestamp and the messages that it
  sends; \<open>worker_Receiving\<close> is one iteration of the receiving thread. A callback that the code passes as a closure is a
  value of \<open>callback\<close> with the data that the closure captures; what it writes through the captured pointers
  (\<^verbatim>\<open>vals\<close>, \<^verbatim>\<open>chunks\<close>, \<^verbatim>\<open>min_clock\<close>) is appended to \<open>kw_results\<close>, and a user callback that runs to \<open>kw_user_calls\<close>.
  The mutexes protect each of these steps, so a step is atomic here; \<open>request_done\<close> is the predicate
  that \<^verbatim>\<open>WaitRequest\<close> waits for.
\<close>

section \<open>Model\<close>

subsection \<open>The tracker\<close>

type_synonym tracker = "(int \<times> int) list list"     \<comment> \<open>kv_id, ts, (expected, current)\<close>

definition NewRequest :: "nat \<Rightarrow> int \<Rightarrow> tracker \<Rightarrow> nat \<times> tracker" where
  "NewRequest kv_id num_responses t =
     (let t = grow_to kv_id [] t; t = t[kv_id := t ! kv_id @ [(num_responses, 0)]]
      in (length (t ! kv_id) - 1, t))"

definition tracker_get :: "tracker \<Rightarrow> nat \<Rightarrow> nat \<Rightarrow> error + (int \<times> int)" where
  "tracker_get t kv_id ts = bindE (vec_get t kv_id) (\<lambda>row. vec_get row ts)"

definition tracker_add :: "tracker \<Rightarrow> nat \<Rightarrow> nat \<Rightarrow> error + tracker" where
  "tracker_add t kv_id ts =
     bindE (vec_get t kv_id) (\<lambda>row. bindE (vec_get row ts) (\<lambda>(e, c). Inr (t[kv_id := row[ts := (e, c + 1)]])))"

definition request_done :: "tracker \<Rightarrow> nat \<Rightarrow> nat \<Rightarrow> error + bool" where
  "request_done t kv_id ts = bindE (tracker_get t kv_id ts) (\<lambda>(e, c). Inr (e = c))"

definition NumResponse :: "tracker \<Rightarrow> nat \<Rightarrow> nat \<Rightarrow> error + int" where
  "NumResponse t kv_id ts = bindE (tracker_get t kv_id ts) (\<lambda>(e, c). Inr c)"

subsection \<open>Slicing a request\<close>

definition segment :: "nat \<Rightarrow> nat \<Rightarrow> 'a list \<Rightarrow> 'a list" where
  "segment b e xs = take (e - b) (drop b xs)"

text \<open>\<open>rest\<close> is what follows the pointer \<^verbatim>\<open>begin\<close>, \<open>p\<close> is \<^verbatim>\<open>pos[i]\<close>; the result is \<^verbatim>\<open>pos[i + 1], ...\<close>\<close>

fun slice_positions :: "Range list \<Rightarrow> u64 list \<Rightarrow> nat \<Rightarrow> nat list" where
  "slice_positions [] rest p = []"
| "slice_positions (r # rs) rest p =
     (let len = lower_bound rest (range_end r) in (p + len) # slice_positions rs (drop len rest) (p + len))"

definition slice_pos :: "Range list \<Rightarrow> u64 list \<Rightarrow> nat list" where
  "slice_pos ranges keys =
     (let p0 = (if ranges = [] then 0 else lower_bound keys (range_begin (ranges ! 0)))
      in p0 # slice_positions ranges (drop p0 keys) p0)"

definition Slice :: "'v KVPairs \<Rightarrow> Range list \<Rightarrow> (bool \<times> 'v KVPairs) list" where
  "Slice send ranges =
     (let n = length ranges; pos = slice_pos ranges (kv_keys send) in
      if kv_keys send = [] then map (\<lambda>i. (pos ! (i + 1) - pos ! i \<noteq> 0, empty_KVPairs)) [0..<n]
      else let k = length (kv_vals send) div length (kv_keys send) in
        map (\<lambda>i. if pos ! (i + 1) = pos ! i then (False, empty_KVPairs)
                 else (True, \<lparr>kv_keys = segment (pos ! i) (pos ! (i + 1)) (kv_keys send),
                              kv_vals = segment (pos ! i * k) (pos ! (i + 1) * k) (kv_vals send)\<rparr>)) [0..<n])"

definition wait_num :: "(bool \<times> 'v KVPairs) list \<Rightarrow> int" where
  "wait_num sliced = int (length (filter fst sliced))"

text \<open>\<^verbatim>\<open>Send_\<close>: the commands are 0, 2 (zero copy), 100 and 102 (no consistency control).\<close>

definition local_zero_copy_magic :: int where
  "local_zero_copy_magic = 2"

definition Send :: "PSInfo \<Rightarrow> nat \<Rightarrow> nat \<Rightarrow> bool \<Rightarrow> (bool \<times> 'v KVPairs) list \<Rightarrow> bool \<Rightarrow> bool \<Rightarrow> bool \<Rightarrow> 'v out" where
  "Send info kv_id ts push sliced send_all local_zero_copy consistency_control =
     concat (map (\<lambda>i.
       let (nonempty, kvs) = sliced ! i in
       if \<not> send_all \<and> \<not> nonempty then []
       else if local_zero_copy \<and> i \<in> ps_local_server_ids info then
         [(get_tid info i, [FInt (int kv_id), FInt (int ts),
             FInt (if consistency_control then 0 + local_zero_copy_magic
                   else 0 + local_zero_copy_magic + consistency_control_off_magic),
             FBool push, FInt (ps_global_id info)] @ (if nonempty then [FKVPtr kvs] else []))]
       else
         [(get_tid info i, [FInt (int kv_id), FInt (int ts),
             FInt (if consistency_control then 0 else 0 + consistency_control_off_magic),
             FBool push, FInt (ps_global_id info)]
             @ (if nonempty then (if push then put_keys (kv_keys kvs) @ put_vals (kv_vals kvs) else put_keys (kv_keys kvs))
                else []))])
       [0..<length sliced])"

subsection \<open>Partitioning chunks\<close>

text \<open>The inner \<^verbatim>\<open>while\<close>: advance to the range that holds the first key of the chunk.\<close>

function partition_advance :: "Range list \<Rightarrow> u64 \<Rightarrow> nat \<Rightarrow> nat \<times> nat list \<times> nat \<Rightarrow> error + (nat \<times> nat list \<times> nat)" where
  "partition_advance ranges key i (range_id, pos, pos_id) =
     (if range_id < length ranges then
        (if key \<ge> range_end (ranges ! range_id) then
           bindE (vec_set pos pos_id i) (\<lambda>pos.
           bindE (assertE (range_id + 1 < length ranges)) (\<lambda>_.
           partition_advance ranges key i (range_id + 1, pos, pos_id + 1)))
         else Inr (range_id, pos, pos_id))
      else Inl OutOfRange)"
  by pat_completeness auto
termination
  by (relation "measure (\<lambda>(ranges, key, i, range_id, pos, pos_id). length ranges - range_id)") auto

declare partition_advance.simps [simp del]

definition PartitionChunks :: "nat \<Rightarrow> u64 list \<Rightarrow> RangeManager \<Rightarrow> error + nat list" where
  "PartitionChunks kv_id chunk_ids rm =
     bindE (GetServerKeyRanges kv_id rm) (\<lambda>ranges.
     bindE (GetChunkSize kv_id rm) (\<lambda>cs.
     let chunk_size = word_of_int (sint (ucast cs :: u32)); n = length ranges in
     bindE (foldE (\<lambda>i. partition_advance ranges (chunk_ids ! i * chunk_size) i) [0..<length chunk_ids]
              (0, replicate (n + 1) 0, 1)) (\<lambda>(range_id, pos, pos_id).
     Inr (map (\<lambda>i. if pos_id \<le> i then length chunk_ids else pos ! i) [0..<n + 1]))))"

definition chunk_wait_num :: "nat list \<Rightarrow> int" where
  "chunk_wait_num pos = int (length (filter (\<lambda>i. pos ! i \<noteq> pos ! (i + 1)) [0..<length pos - 1]))"

text \<open>\<^verbatim>\<open>SendChunks_\<close>: the commands are 1 and 3 (zero copy), plus 10 with the minimal clock, plus 100 without control.\<close>

definition chunk_cmd :: "bool \<Rightarrow> bool \<Rightarrow> bool \<Rightarrow> int" where
  "chunk_cmd zero_copy with_min_clock consistency_control =
     1 + (if zero_copy then local_zero_copy_magic else 0) + (if with_min_clock then with_min_clock_magic else 0)
       + (if consistency_control then 0 else consistency_control_off_magic)"

definition SendChunks :: "PSInfo \<Rightarrow> nat \<Rightarrow> nat \<Rightarrow> bool \<Rightarrow> u64 list \<Rightarrow> 'v list list \<Rightarrow> nat list \<Rightarrow> nat \<Rightarrow> bool \<Rightarrow> bool \<Rightarrow> bool \<Rightarrow> bool
    \<Rightarrow> error + 'v out" where
  "SendChunks info kv_id ts push chunk_ids chunks pos n send_all local_zero_copy with_min_clock consistency_control =
     bindE (mapE (\<lambda>i.
       let nonempty = (pos ! i \<noteq> pos ! (i + 1));
           ids = segment (pos ! i) (pos ! (i + 1)) chunk_ids;
           cs = (if push then segment (pos ! i) (pos ! (i + 1)) chunks else []);
           zc = (local_zero_copy \<and> i \<in> ps_local_server_ids info)
       in if \<not> send_all \<and> \<not> nonempty then Inr []
          else if with_min_clock \<and> \<not> consistency_control
          then Inl (HuskyException ''with_min_clock and consistency_control_off cannot be enable at the same time'')
          else Inr [(get_tid info i, [FInt (int kv_id), FInt (int ts), FInt (chunk_cmd zc with_min_clock consistency_control),
                      FBool push, FInt (ps_global_id info)]
                      @ (if nonempty then (if zc then [FChunksPtr (ids, cs)] else put_keys ids @ concat (map put_vals cs)) else []))])
       [0..<n]) (\<lambda>ms. Inr (concat ms))"

subsection \<open>The worker\<close>

datatype 'v recv_kvs =
    RecvKVPairs "'v KVPairs list"
  | RecvKVPairsWithMinClock "('v KVPairs \<times> int) list"

datatype callback =
    PullCallback "nat option"                    \<comment> \<open>the closure of \<^verbatim>\<open>Pull_\<close>, with the user callback\<close>
  | PullChunksCallback nat "nat option"          \<comment> \<open>the number of chunks\<close>
  | PullChunksMinClockCallback nat "nat option"
  | PullLocalCallback "nat option"
  | UserCallback nat

datatype 'v result =
    Vals "'v list"
  | Chunks "'v list list"
  | ChunksMinClock "'v list list" int

record 'v KVWorker =
  kw_tracker :: tracker
  kw_recv_kvs :: "nat \<times> nat \<rightharpoonup> 'v recv_kvs"
  kw_callbacks :: "nat \<times> nat \<rightharpoonup> callback"
  kw_process_map :: "nat set"
  kw_info :: PSInfo
  kw_results :: "((nat \<times> nat) \<times> 'v result) list"
  kw_user_calls :: "nat list"

definition mk_KVWorker :: "PSInfo \<Rightarrow> 'v KVWorker" where
  "mk_KVWorker info = \<lparr>kw_tracker = [], kw_recv_kvs = Map.empty, kw_callbacks = Map.empty, kw_process_map = {},
     kw_info = info, kw_results = [], kw_user_calls = []\<rparr>"

definition AddProcessFunc :: "nat \<Rightarrow> 'v KVWorker \<Rightarrow> error + 'v KVWorker" where
  "AddProcessFunc kv_id w =
     bindE (assertE (kv_id \<notin> kw_process_map w)) (\<lambda>_. Inr (w\<lparr>kw_process_map := insert kv_id (kw_process_map w)\<rparr>))"

definition AddCallback :: "nat \<Rightarrow> nat \<Rightarrow> callback option \<Rightarrow> 'v KVWorker \<Rightarrow> 'v KVWorker" where
  "AddCallback kv_id ts cb w =
     (case cb of None \<Rightarrow> w | Some c \<Rightarrow> w\<lparr>kw_callbacks := (kw_callbacks w)((kv_id, ts) \<mapsto> c)\<rparr>)"

definition new_request :: "nat \<Rightarrow> int \<Rightarrow> 'v KVWorker \<Rightarrow> nat \<times> 'v KVWorker" where
  "new_request kv_id n w = (let (ts, t) = NewRequest kv_id n (kw_tracker w) in (ts, w\<lparr>kw_tracker := t\<rparr>))"

definition InitForConsistencyControl :: "nat \<Rightarrow> int \<Rightarrow> RangeManager \<Rightarrow> 'v KVWorker \<Rightarrow> nat \<times> 'v KVWorker \<times> 'v out" where
  "InitForConsistencyControl kv_id num_workers rm w =
     (let num_servers = GetNumServers rm; (ts, w) = new_request kv_id num_servers w; info = kw_info w in
      (ts, w, map (\<lambda>i. (get_tid info i, [FInt (int kv_id), FInt (int ts), FInt 4, FBool True,
                                          FInt (ps_global_id info), FInt num_workers])) [0..<nat num_servers]))"

definition ZPush :: "nat \<Rightarrow> u64 list \<Rightarrow> 'v list \<Rightarrow> bool \<Rightarrow> bool \<Rightarrow> bool \<Rightarrow> nat option \<Rightarrow> RangeManager \<Rightarrow> 'v KVWorker
    \<Rightarrow> error + (nat \<times> 'v KVWorker \<times> 'v out)" where
  "ZPush kv_id keys vals send_all local_zero_copy consistency_control cb rm w =
     bindE (GetServerKeyRanges kv_id rm) (\<lambda>ranges.
     let sliced = Slice \<lparr>kv_keys = keys, kv_vals = vals\<rparr> ranges;
         (ts, w) = new_request kv_id (wait_num sliced) w
     in Inr (ts, w, Send (kw_info w) kv_id ts True sliced send_all local_zero_copy consistency_control))"

definition Pull :: "nat \<Rightarrow> u64 list \<Rightarrow> bool \<Rightarrow> bool \<Rightarrow> bool \<Rightarrow> nat option \<Rightarrow> RangeManager \<Rightarrow> 'v KVWorker
    \<Rightarrow> error + (nat \<times> 'v KVWorker \<times> 'v out)" where
  "Pull kv_id keys send_all local_zero_copy consistency_control cb rm w =
     bindE (GetServerKeyRanges kv_id rm) (\<lambda>ranges.
     let sliced = Slice \<lparr>kv_keys = keys, kv_vals = []\<rparr> ranges;
         (ts, w) = new_request kv_id (wait_num sliced) w;
         w = AddCallback kv_id ts (Some (PullCallback cb)) w
     in Inr (ts, w, Send (kw_info w) kv_id ts False sliced send_all local_zero_copy consistency_control))"

definition PushChunks :: "nat \<Rightarrow> u64 list \<Rightarrow> 'v list list \<Rightarrow> bool \<Rightarrow> bool \<Rightarrow> bool \<Rightarrow> nat option \<Rightarrow> RangeManager \<Rightarrow> 'v KVWorker
    \<Rightarrow> error + (nat \<times> 'v KVWorker \<times> 'v out)" where
  "PushChunks kv_id chunk_ids chunks send_all local_zero_copy consistency_control cb rm w =
     bindE (assertE (length chunk_ids = length chunks)) (\<lambda>_.
     bindE (PartitionChunks kv_id chunk_ids rm) (\<lambda>pos.
     bindE (GetServerKeyRanges kv_id rm) (\<lambda>ranges.
     let (ts, w) = new_request kv_id (chunk_wait_num pos) w in
     bindE (SendChunks (kw_info w) kv_id ts True chunk_ids chunks pos (length ranges) send_all local_zero_copy False consistency_control)
       (\<lambda>out. Inr (ts, w, out)))))"

definition PullChunks :: "nat \<Rightarrow> u64 list \<Rightarrow> nat \<Rightarrow> bool \<Rightarrow> bool \<Rightarrow> bool \<Rightarrow> nat option \<Rightarrow> RangeManager \<Rightarrow> 'v KVWorker
    \<Rightarrow> error + (nat \<times> 'v KVWorker \<times> 'v out)" where
  "PullChunks kv_id chunk_ids n_chunks send_all local_zero_copy consistency_control cb rm w =
     bindE (assertE (length chunk_ids = n_chunks)) (\<lambda>_.
     bindE (PartitionChunks kv_id chunk_ids rm) (\<lambda>pos.
     bindE (GetServerKeyRanges kv_id rm) (\<lambda>ranges.
     let (ts, w) = new_request kv_id (chunk_wait_num pos) w;
         w = AddCallback kv_id ts (Some (PullChunksCallback n_chunks cb)) w in
     bindE (SendChunks (kw_info w) kv_id ts False chunk_ids [] pos (length ranges) send_all local_zero_copy False consistency_control)
       (\<lambda>out. Inr (ts, w, out)))))"

definition PullChunksWithMinClock :: "nat \<Rightarrow> u64 list \<Rightarrow> nat \<Rightarrow> bool \<Rightarrow> bool \<Rightarrow> nat option \<Rightarrow> RangeManager \<Rightarrow> 'v KVWorker
    \<Rightarrow> error + (nat \<times> 'v KVWorker \<times> 'v out)" where
  "PullChunksWithMinClock kv_id chunk_ids n_chunks send_all local_zero_copy cb rm w =
     bindE (assertE (length chunk_ids = n_chunks)) (\<lambda>_.
     bindE (PartitionChunks kv_id chunk_ids rm) (\<lambda>pos.
     bindE (GetServerKeyRanges kv_id rm) (\<lambda>ranges.
     let (ts, w) = new_request kv_id (chunk_wait_num pos) w;
         w = AddCallback kv_id ts (Some (PullChunksMinClockCallback n_chunks cb)) w in
     bindE (SendChunks (kw_info w) kv_id ts False chunk_ids [] pos (length ranges) send_all local_zero_copy True True)
       (\<lambda>out. Inr (ts, w, out)))))"

definition PushLocal :: "nat \<Rightarrow> nat \<Rightarrow> u64 list \<Rightarrow> 'v list \<Rightarrow> nat option \<Rightarrow> 'v KVWorker \<Rightarrow> nat \<times> 'v KVWorker \<times> 'v out" where
  "PushLocal kv_id dst keys vals cb w =
     (let (ts, w) = new_request kv_id 1 w;
          w = AddCallback kv_id ts (map_option UserCallback cb) w; info = kw_info w
      in (ts, w, [(get_tid info dst, [FInt (int kv_id), FInt (int ts), FInt 0, FBool True, FInt (ps_global_id info)]
                    @ put_keys keys @ put_vals vals)]))"

definition PullLocal :: "nat \<Rightarrow> nat \<Rightarrow> u64 list \<Rightarrow> nat option \<Rightarrow> 'v KVWorker \<Rightarrow> nat \<times> 'v KVWorker \<times> 'v out" where
  "PullLocal kv_id dst keys cb w =
     (let (ts, w) = new_request kv_id 1 w;
          w = AddCallback kv_id ts (Some (PullLocalCallback cb)) w; info = kw_info w
      in (ts, w, [(get_tid info dst, [FInt (int kv_id), FInt (int ts), FInt 0, FBool False, FInt (ps_global_id info)]
                    @ put_keys keys)]))"

subsection \<open>Responses\<close>

text \<open>The closure of \<^verbatim>\<open>Pull_\<close>: order the parts by their first key and copy the values.\<close>

definition pull_callback :: "'v KVPairs list \<Rightarrow> 'v list" where
  "pull_callback kvs = concat (map kv_vals (sort_key (\<lambda>s. hd (kv_keys s)) kvs))"

text \<open>The inner loop of the chunk closures over one part; the copy reads \<open>chunk_size\<close> values from \<open>start\<close>.\<close>

fun part_chunks :: "nat \<Rightarrow> u64 \<Rightarrow> u64 list \<Rightarrow> nat \<Rightarrow> 'v list \<Rightarrow> error + 'v list list" where
  "part_chunks chunk_size chunk_num [] start vals = Inr []"
| "part_chunks chunk_size chunk_num (k # ks) start vals =
     (let rest = drop start vals in
      bindE (if k = chunk_num - 1 then (if start \<le> length vals then Inr rest else Inl OutOfRange)
             else (if start + chunk_size \<le> length vals then Inr (take chunk_size rest) else Inl OutOfRange)) (\<lambda>c.
      bindE (part_chunks chunk_size chunk_num ks (start + chunk_size) vals) (\<lambda>cs. Inr (c # cs))))"

definition chunks_callback :: "u64 \<Rightarrow> u64 \<Rightarrow> nat \<Rightarrow> 'v KVPairs list \<Rightarrow> error + 'v list list" where
  "chunks_callback chunk_size chunk_num n kvs =
     bindE (mapE (\<lambda>s. part_chunks (unat chunk_size) chunk_num (kv_keys s) 0 (kv_vals s))
              (sort_key (\<lambda>s. hd (kv_keys s)) kvs)) (\<lambda>css.
     if length (concat css) \<le> n then Inr (concat css) else Inl OutOfRange)"

definition int_max :: int where
  "int_max = 2 ^ 31 - 1"

fun min_clock_of :: "int \<Rightarrow> int list \<Rightarrow> int" where
  "min_clock_of m [] = m"
| "min_clock_of m (c # cs) = min_clock_of (if c < m then c else m) cs"

definition run_callback :: "RangeManager \<Rightarrow> nat \<Rightarrow> callback \<Rightarrow> 'v recv_kvs option \<Rightarrow> error + ('v result option \<times> nat option)" where
  "run_callback rm kv_id cb kvs =
     (case cb of
        UserCallback u \<Rightarrow> Inr (None, Some u)
      | PullCallback u \<Rightarrow> (case kvs of Some (RecvKVPairs ps) \<Rightarrow> Inr (Some (Vals (pull_callback ps)), u) | _ \<Rightarrow> Inl BadMessage)
      | PullLocalCallback u \<Rightarrow>
          (case kvs of Some (RecvKVPairs ps) \<Rightarrow>
             bindE (assertE (length ps = 1)) (\<lambda>_. Inr (Some (Vals (kv_vals (hd ps))), u)) | _ \<Rightarrow> Inl BadMessage)
      | PullChunksCallback n u \<Rightarrow>
          (case kvs of Some (RecvKVPairs ps) \<Rightarrow>
             bindE (GetChunkSize kv_id rm) (\<lambda>cs. bindE (GetChunkNum kv_id rm) (\<lambda>cn.
             bindE (chunks_callback cs cn n ps) (\<lambda>c. Inr (Some (Chunks c), u)))) | _ \<Rightarrow> Inl BadMessage)
      | PullChunksMinClockCallback n u \<Rightarrow>
          (case kvs of Some (RecvKVPairsWithMinClock ps) \<Rightarrow>
             bindE (GetChunkSize kv_id rm) (\<lambda>cs. bindE (GetChunkNum kv_id rm) (\<lambda>cn.
             bindE (chunks_callback cs cn n (map fst ps)) (\<lambda>c.
             Inr (Some (ChunksMinClock c (min_clock_of int_max (map snd ps))), u)))) | _ \<Rightarrow> Inl BadMessage))"

definition RunCallback :: "RangeManager \<Rightarrow> nat \<Rightarrow> nat \<Rightarrow> 'v KVWorker \<Rightarrow> error + 'v KVWorker" where
  "RunCallback rm kv_id ts w =
     (case kw_callbacks w (kv_id, ts) of
        None \<Rightarrow> Inr w
      | Some cb \<Rightarrow>
          bindE (run_callback rm kv_id cb (kw_recv_kvs w (kv_id, ts))) (\<lambda>(res, u).
          Inr (w\<lparr>kw_recv_kvs := (case res of None \<Rightarrow> kw_recv_kvs w | Some r \<Rightarrow> (kw_recv_kvs w)((kv_id, ts) := None)),
                 kw_results := kw_results w @ (case res of None \<Rightarrow> [] | Some r \<Rightarrow> [((kv_id, ts), r)]),
                 kw_user_calls := kw_user_calls w @ (case u of None \<Rightarrow> [] | Some c \<Rightarrow> [c]),
                 kw_callbacks := (kw_callbacks w)((kv_id, ts) := None)\<rparr>)))"

text \<open>\<^verbatim>\<open>update_kvs\<close> and \<^verbatim>\<open>update_kvs_with_min_clock\<close>: only parts with keys are kept.\<close>

definition update_kvs :: "'v KVPairs \<Rightarrow> 'v recv_kvs option \<Rightarrow> error + 'v recv_kvs" where
  "update_kvs kvs r =
     (case (case r of None \<Rightarrow> RecvKVPairs [] | Some r \<Rightarrow> r) of
        RecvKVPairs ps \<Rightarrow> Inr (RecvKVPairs (if kv_keys kvs \<noteq> [] then ps @ [kvs] else ps))
      | RecvKVPairsWithMinClock ps \<Rightarrow> Inl BadMessage)"

definition update_kvs_with_min_clock :: "'v KVPairs \<times> int \<Rightarrow> 'v recv_kvs option \<Rightarrow> error + 'v recv_kvs" where
  "update_kvs_with_min_clock kvs r =
     (case (case r of None \<Rightarrow> RecvKVPairsWithMinClock [] | Some r \<Rightarrow> r) of
        RecvKVPairsWithMinClock ps \<Rightarrow> Inr (RecvKVPairsWithMinClock (if kv_keys (fst kvs) \<noteq> [] then ps @ [kvs] else ps))
      | RecvKVPairs ps \<Rightarrow> Inl BadMessage)"

definition collect :: "int \<Rightarrow> 'v bin \<Rightarrow> 'v recv_kvs option \<Rightarrow> error + 'v recv_kvs" where
  "collect cmd bin r =
     (let cmd = c_rem cmd consistency_control_off_magic in
      if cmd = 2 then bindE (get_kv_ptr bin) (\<lambda>(p, bin). update_kvs p r)
      else bindE (get_keys bin) (\<lambda>(keys, bin). bindE (get_vals bin) (\<lambda>(vals, bin).
        if cmd = 13 \<or> cmd = 11
        then bindE (get_int bin) (\<lambda>(c, bin). update_kvs_with_min_clock (\<lparr>kv_keys = keys, kv_vals = vals\<rparr>, c) r)
        else update_kvs \<lparr>kv_keys = keys, kv_vals = vals\<rparr> r)))"

definition UniqueProcess :: "RangeManager \<Rightarrow> nat \<Rightarrow> nat \<Rightarrow> 'v bin \<Rightarrow> bool \<Rightarrow> 'v KVWorker \<Rightarrow> error + 'v KVWorker" where
  "UniqueProcess rm kv_id ts bin runCallback w =
     bindE (get_int bin) (\<lambda>(cmd, bin). bindE (get_bool bin) (\<lambda>(push, bin). bindE (get_int bin) (\<lambda>(src, bin).
     bindE (if push then Inr w
            else bindE (collect cmd bin (kw_recv_kvs w (kv_id, ts))) (\<lambda>r.
                 Inr (w\<lparr>kw_recv_kvs := (kw_recv_kvs w)((kv_id, ts) \<mapsto> r)\<rparr>))) (\<lambda>w.
     if runCallback then RunCallback rm kv_id ts w else Inr w))))"

definition worker_Process :: "RangeManager \<Rightarrow> nat \<Rightarrow> nat \<Rightarrow> 'v bin \<Rightarrow> bool \<Rightarrow> 'v KVWorker \<Rightarrow> error + 'v KVWorker" where
  "worker_Process rm kv_id ts bin runCallback w =
     bindE (assertE (kv_id \<in> kw_process_map w)) (\<lambda>_. UniqueProcess rm kv_id ts bin runCallback w)"

definition worker_Receiving :: "RangeManager \<Rightarrow> 'v bin \<Rightarrow> 'v KVWorker \<Rightarrow> error + 'v KVWorker" where
  "worker_Receiving rm bin w =
     bindE (get_int bin) (\<lambda>(kv_id, bin). bindE (get_int bin) (\<lambda>(ts, bin).
     if kv_id < 0 \<or> ts < 0 then Inl OutOfRange else
     bindE (tracker_get (kw_tracker w) (nat kv_id) (nat ts)) (\<lambda>(expected, current).
     bindE (worker_Process rm (nat kv_id) (nat ts) bin (current = expected - 1) w) (\<lambda>w.
     bindE (tracker_add (kw_tracker w) (nat kv_id) (nat ts)) (\<lambda>t. Inr (w\<lparr>kw_tracker := t\<rparr>))))))"

section \<open>Slicing\<close>

lemma lower_bound_drop: "p \<le> lower_bound xs v \<Longrightarrow> lower_bound (drop p xs) v = lower_bound xs v - p"
proof (induction xs arbitrary: p)
  case (Cons x xs)
  then show ?case by (cases p) (auto simp: lower_bound_def split: if_splits)
qed (simp add: lower_bound_def)

lemma lower_bound_mono:
  assumes "u \<le> v"
  shows "lower_bound xs u \<le> lower_bound xs v"
proof (induction xs)
  case (Cons x xs)
  then show ?case using assms by (auto simp: lower_bound_def)
qed (simp add: lower_bound_def)

lemma lower_bound_all: "\<forall>x \<in> set xs. x < v \<Longrightarrow> lower_bound xs v = length xs"
  by (simp add: lower_bound_def takeWhile_eq_all_conv [THEN iffD2])

lemma lower_bound_0 [simp]: "lower_bound xs (0 :: u64) = 0"
  by (cases xs) (simp_all add: lower_bound_def)

lemma slice_positions_eq:
  assumes "\<forall>r \<in> set rs. p \<le> lower_bound keys (range_end r)" "sorted (map range_end rs)"
  shows "slice_positions rs (drop p keys) p = map (\<lambda>r. lower_bound keys (range_end r)) rs"
  using assms
proof (induction rs arbitrary: p)
  case (Cons r rs)
  let ?q = "lower_bound keys (range_end r)"
  have p: "p \<le> ?q" using Cons.prems by simp
  have "\<forall>r' \<in> set rs. ?q \<le> lower_bound keys (range_end r')" using Cons.prems(2) by (auto intro: lower_bound_mono)
  then have "slice_positions rs (drop ?q keys) ?q = map (\<lambda>r. lower_bound keys (range_end r)) rs"
    using Cons.IH [of ?q] Cons.prems(2) by simp
  then show ?case using p by (simp add: lower_bound_drop Let_def)
qed simp

text \<open>Adjacent segments put together.\<close>

lemma concat_segments:
  assumes "mono f" "f 0 = 0"
  shows "concat (map (\<lambda>i. segment (f i) (f (Suc i)) xs) [0..<n]) = take (f n) xs"
proof (induction n)
  case (Suc n)
  have "f n \<le> f (Suc n)" using assms(1) by (simp add: monoD)
  then show ?case using Suc take_add [of "f n" "f (Suc n) - f n" xs] by (simp add: segment_def)
qed (simp add: assms)

lemma length_segment: "b \<le> length xs \<Longrightarrow> length (segment a b xs) = b - a"
  by (simp add: segment_def) 

lemma segment_filter:
  fixes xs :: "'a::linorder list"
  assumes "sorted xs" "u \<le> v"
  shows "segment (lower_bound xs u) (lower_bound xs v) xs = filter (\<lambda>x. u \<le> x \<and> x < v) xs"
proof -
  let ?ys = "takeWhile (\<lambda>x. x < v) xs"
  have "takeWhile (\<lambda>x. x < u) ?ys = takeWhile (\<lambda>x. x < u) xs"
    using assms(2) by (induction xs) auto
  then have lb: "lower_bound ?ys u = lower_bound xs u" by (simp add: lower_bound_def)
  have "segment (lower_bound xs u) (lower_bound xs v) xs = drop (lower_bound ?ys u) ?ys"
    unfolding lb by (simp add: segment_def drop_take flip: take_lower_bound)
  also have "drop (lower_bound ?ys u) ?ys = filter (\<lambda>x. \<not> x < u) ?ys"
    using assms(1) by (simp add: drop_lower_bound sorted_dropWhile_less sorted_takeWhile)
  also have "\<dots> = filter (\<lambda>x. u \<le> x \<and> x < v) xs"
    using assms(1) by (simp add: sorted_takeWhile_less filter_filter not_less conj_commute)
  finally show ?thesis .
qed

text \<open>With the table of a store the positions are the lower bounds of the first keys of the servers.\<close>

lemma slice_pos_table:
  assumes "table_for rm kv_id N c s" "params_ok N c s" "i \<le> s"
  shows "slice_pos (map (key_range N c s) [0..<s]) keys ! i = lower_bound keys (of_nat (key_bound N c s i))"
proof -
  let ?rs = "map (key_range N c s) [0..<s]"
  have s: "0 < s" "N < 2 ^ 64" using assms(2) by (simp_all add: params_ok_def)
  have first: "range_begin (?rs ! 0) = 0" using s by (simp add: key_range_def)
  have "sorted (map range_end ?rs)"
    unfolding sorted_iff_nth_mono
    using s by (auto simp: u64_le_iff unat_key_range key_bound_mono)
  then have "slice_positions ?rs keys 0 = map (\<lambda>r. lower_bound keys (range_end r)) ?rs"
    using slice_positions_eq [of ?rs 0 keys] by simp
  then have "slice_pos ?rs keys = 0 # map (\<lambda>i. lower_bound keys (range_end (key_range N c s i))) [0..<s]"
    using first s by (simp add: slice_pos_def)
  then show ?thesis using assms(3) by (cases i) (simp_all add: key_range_def)
qed

lemma mono_key_pos:
  assumes "N < 2 ^ 64"
  shows "mono (\<lambda>i. lower_bound keys (of_nat (key_bound N c s i) :: u64))"
  using assms by (intro monoI lower_bound_mono) (simp add: u64_le_iff unat_key_bound key_bound_mono)

lemma key_pos_top:
  fixes keys :: "u64 list"
  assumes "params_ok N c s" "\<forall>k \<in> set keys. unat k < N"
  shows "lower_bound keys (of_nat (key_bound N c s s)) = length keys"
proof (rule lower_bound_all)
  have "key_bound N c s s = N" "N < 2 ^ 64" using assms(1) by (simp_all add: params_ok_def)
  then have "unat (of_nat (key_bound N c s s) :: u64) = N" by (simp add: unat_of_nat_u64)
  then show "\<forall>k \<in> set keys. k < of_nat (key_bound N c s s)"
    using assms(2) unfolding u64_less_iff by simp
qed

text \<open>The slice of server \<open>i\<close>.\<close>

lemma Slice_nth:
  assumes t: "table_for rm kv_id N c s" and p: "params_ok N c s" and i: "i < s"
    and keys: "kv_keys send \<noteq> []"
    and k: "k = length (kv_vals send) div length (kv_keys send)"
    and f: "f = (\<lambda>i. lower_bound (kv_keys send) (of_nat (key_bound N c s i)))"
  shows "Slice send (map (key_range N c s) [0..<s]) ! i =
     (f (Suc i) \<noteq> f i, \<lparr>kv_keys = segment (f i) (f (Suc i)) (kv_keys send),
        kv_vals = segment (f i * k) (f (Suc i) * k) (kv_vals send)\<rparr>)"
proof -
  have pos: "slice_pos (map (key_range N c s) [0..<s]) (kv_keys send) ! j = f j" if "j \<le> s" for j
    using slice_pos_table [OF t p that] f by simp
  show ?thesis using i keys pos [of i] pos [of "Suc i"] by (simp add: Slice_def Let_def k empty_KVPairs_def segment_def)
qed

lemma length_Slice [simp]: "length (Slice send ranges) = length ranges"
  by (simp add: Slice_def Let_def)

lemma Slice_keys:
  assumes t: "table_for rm kv_id N c s" and p: "params_ok N c s" and sorted: "sorted keys" and keys: "keys \<noteq> []" and i: "i < s"
  shows "kv_keys (snd (Slice \<lparr>kv_keys = keys, kv_vals = vals\<rparr> (map (key_range N c s) [0..<s]) ! i))
     = filter (\<lambda>k. range_begin (key_range N c s i) \<le> k \<and> k < range_end (key_range N c s i)) keys"
    and "fst (Slice \<lparr>kv_keys = keys, kv_vals = vals\<rparr> (map (key_range N c s) [0..<s]) ! i)
     \<longleftrightarrow> kv_keys (snd (Slice \<lparr>kv_keys = keys, kv_vals = vals\<rparr> (map (key_range N c s) [0..<s]) ! i)) \<noteq> []"
proof -
  let ?send = "\<lparr>kv_keys = keys, kv_vals = vals\<rparr>"
  define f where "f = (\<lambda>i. lower_bound (kv_keys ?send) (of_nat (key_bound N c s i)))"
  have N: "N < 2 ^ 64" using p by (simp add: params_ok_def)
  note nth = Slice_nth [OF t p i _ refl f_def, of]
  have le: "range_begin (key_range N c s i) \<le> range_end (key_range N c s i)"
    using N by (simp add: u64_le_iff unat_key_range key_bound_mono)
  have seg: "segment (f i) (f (Suc i)) keys = filter (\<lambda>k. range_begin (key_range N c s i) \<le> k \<and> k < range_end (key_range N c s i)) keys"
    using segment_filter [OF sorted le] by (simp add: f_def key_range_def)
  have "f i \<le> f (Suc i)" using monoD [OF mono_key_pos [OF N]] by (simp add: f_def)
  then have "f (Suc i) \<noteq> f i \<longleftrightarrow> segment (f i) (f (Suc i)) keys \<noteq> []"
    using length_segment [of "f (Suc i)" keys "f i"] lower_bound_le [of keys] by (auto simp: f_def simp flip: length_0_conv)
  then show "kv_keys (snd (Slice ?send (map (key_range N c s) [0..<s]) ! i))
     = filter (\<lambda>k. range_begin (key_range N c s i) \<le> k \<and> k < range_end (key_range N c s i)) keys"
    and "fst (Slice ?send (map (key_range N c s) [0..<s]) ! i)
     \<longleftrightarrow> kv_keys (snd (Slice ?send (map (key_range N c s) [0..<s]) ! i)) \<noteq> []"
    using nth keys seg by simp_all
qed

lemma Slice_concat:
  assumes t: "table_for rm kv_id N c s" and p: "params_ok N c s"
    and keys: "\<forall>k \<in> set keys. unat k < N" "keys \<noteq> []" and vals: "length vals = d * length keys"
  shows "concat (map (\<lambda>x. kv_keys (snd x)) (Slice \<lparr>kv_keys = keys, kv_vals = vals\<rparr> (map (key_range N c s) [0..<s]))) = keys"
    and "concat (map (\<lambda>x. kv_vals (snd x)) (Slice \<lparr>kv_keys = keys, kv_vals = vals\<rparr> (map (key_range N c s) [0..<s]))) = vals"
    and "i < s \<Longrightarrow> length (kv_vals (snd (Slice \<lparr>kv_keys = keys, kv_vals = vals\<rparr> (map (key_range N c s) [0..<s]) ! i)))
       = d * length (kv_keys (snd (Slice \<lparr>kv_keys = keys, kv_vals = vals\<rparr> (map (key_range N c s) [0..<s]) ! i)))"
proof -
  let ?send = "\<lparr>kv_keys = keys, kv_vals = vals\<rparr>" and ?rs = "map (key_range N c s) [0..<s]"
  define f where "f = (\<lambda>i. lower_bound (kv_keys ?send) (of_nat (key_bound N c s i)))"
  have N: "N < 2 ^ 64" using p by (simp add: params_ok_def)
  have d: "length (kv_vals ?send) div length (kv_keys ?send) = d" using vals keys(2) by simp
  have nth: "Slice ?send ?rs ! i = (f (Suc i) \<noteq> f i, \<lparr>kv_keys = segment (f i) (f (Suc i)) keys,
        kv_vals = segment (f i * d) (f (Suc i) * d) vals\<rparr>)" if "i < s" for i
    using Slice_nth [OF t p that _ d [symmetric] f_def] keys(2) by simp
  have maps: "map (\<lambda>x. kv_keys (snd x)) (Slice ?send ?rs) = map (\<lambda>i. segment (f i) (f (Suc i)) keys) [0..<s]"
    "map (\<lambda>x. kv_vals (snd x)) (Slice ?send ?rs) = map (\<lambda>i. segment (f i * d) (f (Suc i) * d) vals) [0..<s]"
    by (rule nth_equalityI; simp add: nth)+
  have mono: "mono f" "f 0 = 0" "f s = length keys"
    using mono_key_pos [OF N] key_pos_top [OF p keys(1)] by (simp_all add: f_def)
  have mono': "mono (\<lambda>i. f i * d)" using mono(1) by (simp add: mono_def)
  show "concat (map (\<lambda>x. kv_keys (snd x)) (Slice ?send ?rs)) = keys"
    using concat_segments [OF mono(1,2), of keys s] mono(3) by (simp add: maps)
  show "concat (map (\<lambda>x. kv_vals (snd x)) (Slice ?send ?rs)) = vals"
    using concat_segments [OF mono', of vals s] mono(2,3) vals by (simp add: maps mult.commute)
  assume i: "i < s"
  have le: "f (Suc i) \<le> length keys" by (simp add: f_def)
  then have "f (Suc i) * d \<le> length vals" using vals by (metis mult.commute mult_le_mono1)
  then show "length (kv_vals (snd (Slice ?send ?rs ! i))) = d * length (kv_keys (snd (Slice ?send ?rs ! i)))"
    using le nth [OF i] by (simp add: length_segment diff_mult_distrib2 mult.commute)
qed

section \<open>Partitioning chunks\<close>

lemma lower_boundI:
  assumes "\<And>j. j < i \<Longrightarrow> xs ! j < v" "i \<le> length xs" "i < length xs \<Longrightarrow> \<not> xs ! i < v"
  shows "lower_bound xs v = i"
proof -
  have "takeWhile (\<lambda>x. x < v) xs = take i xs" using assms by (intro takeWhile_eq_take_P_nth) auto
  then show ?thesis using assms(2) by (simp add: lower_bound_def)
qed

abbreviation chunk_first :: "nat \<Rightarrow> nat \<Rightarrow> nat \<Rightarrow> nat \<Rightarrow> u64" where
  "chunk_first N c s i \<equiv> of_nat (chunk_bound (num_chunks N c) s i)"

lemma unat_chunk_first:
  assumes "params_ok N c s" "i \<le> s"
  shows "unat (chunk_first N c s i) = chunk_bound (num_chunks N c) s i"
  using chunk_bound_le [of s i "num_chunks N c"] num_chunks_le [of N c] assms
  by (intro unat_of_nat_u64) (auto simp: params_ok_def)

lemma chunk_first_mono:
  assumes "params_ok N c s" "i \<le> j" "j \<le> s"
  shows "chunk_first N c s i \<le> chunk_first N c s j"
  using unat_chunk_first [OF assms(1), of i] unat_chunk_first [OF assms(1), of j] chunk_bound_mono [OF assms(2)] assms(2,3)
  by (simp add: u64_le_iff)

text \<open>A chunk starts at or past the end of a key range exactly if it belongs to a later server.\<close>

lemma chunk_past_range:
  assumes p: "params_ok N c s" and i: "i < s" and ch: "unat ch < num_chunks N c"
  shows "ch * of_nat c \<ge> range_end (key_range N c s i) \<longleftrightarrow> \<not> ch < chunk_first N c s (Suc i)"
proof -
  have N: "0 < N" "N < 2 ^ 64" "0 < c" "c < 2 ^ 31" using p by (simp_all add: params_ok_def)
  have "unat ch * c \<le> (num_chunks N c - 1) * c" using ch by (intro mult_le_mono1) simp
  also have "\<dots> < N" using N by (intro num_chunks_minus) simp
  finally have lt: "unat ch * c < N" .
  have "unat (of_nat c :: u64) = c" using N by (simp add: unat_of_nat_u64)
  then have u: "unat (ch * of_nat c) = unat ch * c"
    using lt N(2) unat_mult_lem [of ch "of_nat c"] by simp
  have "key_bound N c s (Suc i) \<le> unat ch * c \<longleftrightarrow> chunk_bound (num_chunks N c) s (Suc i) \<le> unat ch"
    using key_bound_chunk(1) [OF N(3) lt] N(3) by simp
  then show ?thesis
    using unat_chunk_first [OF p, of "Suc i"] i N(2) unfolding u64_le_iff u64_less_iff u by (simp add: unat_key_range not_less)
qed

definition partition_inv :: "nat \<Rightarrow> nat \<Rightarrow> nat \<Rightarrow> u64 list \<Rightarrow> nat \<Rightarrow> nat \<times> nat list \<times> nat \<Rightarrow> bool" where
  "partition_inv N c s ids i = (\<lambda>(r, pos, pos_id). r < s \<and> pos_id = Suc r \<and> length pos = Suc s
     \<and> (\<forall>j \<le> r. pos ! j = lower_bound ids (chunk_first N c s j)) \<and> (\<forall>j < i. ids ! j < chunk_first N c s (Suc r)))"

lemma partition_advance_ok:
  assumes p: "params_ok N c s" and i: "i < length ids" "unat (ids ! i) < num_chunks N c" "sorted ids"
    and inv: "partition_inv N c s ids i (r, pos, Suc r)"
  shows "\<exists>st. partition_advance (map (key_range N c s) [0..<s]) (ids ! i * of_nat c) i (r, pos, Suc r) = Inr st
     \<and> partition_inv N c s ids (Suc i) st"
  using inv
proof (induction "s - r" arbitrary: r pos rule: less_induct)
  case less
  then have r: "r < s" "length pos = Suc s" by (simp_all add: partition_inv_def)
  note past = chunk_past_range [OF p r(1) i(2)]
  show ?case
  proof (cases "ids ! i < chunk_first N c s (Suc r)")
    case True
    then show ?thesis using past less.prems r
      by (subst partition_advance.simps) (auto simp: partition_inv_def less_Suc_eq)
  next
    case False
    have r': "Suc r < s"
    proof (rule ccontr)
      assume "\<not> Suc r < s"
      then have "Suc r = s" using r by simp
      then have "unat (chunk_first N c s (Suc r)) = num_chunks N c"
        using unat_chunk_first [OF p, of s] r(1) by simp
      then show False using False i(2) by (simp add: u64_less_iff)
    qed
    have "lower_bound ids (chunk_first N c s (Suc r)) = i"
      using less.prems False i(1) by (intro lower_boundI) (auto simp: partition_inv_def)
    moreover have "\<forall>j < i. ids ! j < chunk_first N c s (Suc (Suc r))"
      using less.prems chunk_first_mono [OF p, of "Suc r" "Suc (Suc r)"] r' by (auto simp: partition_inv_def)
    ultimately have "partition_inv N c s ids i (Suc r, pos[Suc r := i], Suc (Suc r))"
      using less.prems r r' by (auto simp: partition_inv_def nth_list_update le_Suc_eq)
    from less.hyps [OF _ this] show ?thesis
      using past False r r' by (subst partition_advance.simps) (simp add: vec_set_def)
  qed
qed

lemma partition_loop:
  assumes p: "params_ok N c s" and ids: "sorted ids" "\<forall>ch \<in> set ids. unat ch < num_chunks N c" and n: "n \<le> length ids"
  shows "\<exists>st. foldE (\<lambda>i. partition_advance (map (key_range N c s) [0..<s]) (ids ! i * of_nat c) i) [0..<n] (0, replicate (s + 1) 0, 1) = Inr st
     \<and> partition_inv N c s ids n st"
  using n
proof (induction n)
  case 0
  then show ?case using p by (simp add: partition_inv_def params_ok_def del: replicate.simps)
next
  case (Suc n)
  then obtain r pos pos_id where st: "foldE (\<lambda>i. partition_advance (map (key_range N c s) [0..<s]) (ids ! i * of_nat c) i) [0..<n] (0, replicate (s + 1) 0, 1) = Inr (r, pos, pos_id)"
    "partition_inv N c s ids n (r, pos, pos_id)" by auto
  then have "pos_id = Suc r" by (simp add: partition_inv_def)
  with st partition_advance_ok [OF p, of n ids r pos] Suc.prems ids show ?case by (auto simp: foldE_append)
qed

lemma PartitionChunks_ok:
  assumes t: "table_for rm kv_id N c s" and p: "params_ok N c s"
    and ids: "sorted ids" "\<forall>ch \<in> set ids. unat ch < num_chunks N c"
  shows "PartitionChunks kv_id ids rm = Inr (map (\<lambda>i. lower_bound ids (chunk_first N c s i)) [0..<s + 1])"
proof -
  obtain r pos pos_id where st: "foldE (\<lambda>i. partition_advance (map (key_range N c s) [0..<s]) (ids ! i * of_nat c) i) [0..<length ids] (0, replicate (s + 1) 0, 1) = Inr (r, pos, pos_id)"
    and inv: "partition_inv N c s ids (length ids) (r, pos, pos_id)" using partition_loop [OF p ids order_refl] by auto
  have c: "word_of_int (sint (ucast (of_nat c :: u64) :: u32)) = (of_nat c :: u64)"
  proof -
    have "unat (of_nat c :: u64) = c" "c < 2 ^ 31" using p unat_of_nat_u64 [of c] by (simp_all add: params_ok_def)
    then have "uint (of_nat c :: u64) < 2 ^ 31" by (metis of_nat_less_iff of_nat_numeral of_nat_power uint_nat)
    then show ?thesis using sint_ucast_u32 [of "of_nat c"] by (metis word_of_int_uint)
  qed
  have "(if pos_id \<le> i then length ids else pos ! i) = lower_bound ids (chunk_first N c s i)" if "i \<le> s" for i
  proof (cases "pos_id \<le> i")
    case True
    have "ids ! j < chunk_first N c s i" if "j < length ids" for j
      using inv that True \<open>i \<le> s\<close> chunk_first_mono [OF p, of pos_id i] by (auto simp: partition_inv_def intro: less_le_trans)
    then have "\<forall>x \<in> set ids. x < chunk_first N c s i" by (auto simp: in_set_conv_nth)
    then show ?thesis using True by (simp add: lower_bound_all)
  next
    case False
    then show ?thesis using inv by (simp add: partition_inv_def)
  qed
  then show ?thesis
    using t st c by (simp add: PartitionChunks_def GetServerKeyRanges_def GetChunkSize_def vec_get_def table_for_def rm_wf_def del: upt_Suc)
qed

section \<open>The tracker and the callback\<close>

lemma NewRequest_get:
  "NewRequest kv_id n t = (ts, t') \<Longrightarrow> tracker_get t' kv_id ts = Inr (n, 0) \<and> ts = length (nth_or [] t kv_id)"
  by (auto simp: NewRequest_def tracker_get_def vec_get_def Let_def nth_append)

lemma NewRequest_other:
  assumes "NewRequest kv_id n t = (ts, t')" "tracker_get t k ts' = Inr p"
  shows "tracker_get t' k ts' = Inr p"
  using assms by (auto simp: NewRequest_def tracker_get_def vec_get_def Let_def res_simps nth_append nth_grow_to nth_or_def
      nth_list_update split: if_splits)

lemma tracker_add_get:
  assumes "tracker_get t kv_id ts = Inr (e, c)"
  shows "\<exists>t'. tracker_add t kv_id ts = Inr t' \<and> tracker_get t' kv_id ts = Inr (e, c + 1)"
  using assms by (auto simp: tracker_get_def tracker_add_def vec_get_def res_simps split: if_splits)

text \<open>A pull response with command 0, 1, 2 or 3, as a server sends it.\<close>

definition pull_response :: "nat \<Rightarrow> nat \<Rightarrow> int \<times> int \<times> 'v KVPairs \<Rightarrow> 'v bin" where
  "pull_response kv_id ts = (\<lambda>(cmd, src, p). snd (Response kv_id (int ts) cmd False src p (-1)))"

definition plain_cmd :: "int \<Rightarrow> bool" where
  "plain_cmd cmd \<longleftrightarrow> cmd = 0 \<or> cmd = 1 \<or> cmd = 2 \<or> cmd = 3"

lemma pull_response_unfold:
  "pull_response kv_id ts (cmd, src, p) = FInt (int kv_id) # FInt (int ts) # FInt cmd # FBool False # FInt src
     # (if cmd = 2 then [FKVPtr p] else put_keys (kv_keys p) @ put_vals (kv_vals p))"
  by (simp add: pull_response_def Response_def)

lemma collect_payload:
  assumes "plain_cmd cmd"
  shows "collect cmd (if cmd = 2 then [FKVPtr p] else put_keys (kv_keys p) @ put_vals (kv_vals p)) r = update_kvs p r"
  using assms by (auto simp: collect_def plain_cmd_def c_rem_def consistency_control_off_magic_def Let_def)

definition pending :: "nat \<Rightarrow> nat \<Rightarrow> nat \<Rightarrow> callback \<Rightarrow> 'v KVPairs list \<Rightarrow> 'v KVWorker \<Rightarrow> bool" where
  "pending kv_id ts n cb ps w \<longleftrightarrow> tracker_get (kw_tracker w) kv_id ts = Inr (int n, int (length ps))
     \<and> kw_callbacks w (kv_id, ts) = Some cb \<and> kv_id \<in> kw_process_map w
     \<and> kw_recv_kvs w (kv_id, ts) = (if ps = [] then None else Some (RecvKVPairs ps))"

lemma update_kvs_pending:
  "kv_keys p \<noteq> [] \<Longrightarrow> update_kvs p (if ps = [] then None else Some (RecvKVPairs ps)) = Inr (RecvKVPairs (ps @ [p]))"
  by (simp add: update_kvs_def)

text \<open>A response that is not the last one is stored; nothing else happens.\<close>

lemma worker_Receiving_more:
  assumes "pending kv_id ts n cb ps w" "plain_cmd cmd" "kv_keys p \<noteq> []" "Suc (length ps) < n"
  shows "\<exists>w'. worker_Receiving rm (pull_response kv_id ts (cmd, src, p)) w = Inr w' \<and> pending kv_id ts n cb (ps @ [p]) w'
     \<and> kw_results w' = kw_results w \<and> kw_user_calls w' = kw_user_calls w"
proof -
  obtain t' where t': "tracker_add (kw_tracker w) kv_id ts = Inr t'" "tracker_get t' kv_id ts = Inr (int n, int (length ps) + 1)"
    using tracker_add_get [of "kw_tracker w" kv_id ts] assms(1) by (fastforce simp: pending_def)
  have nl: "int (length ps) \<noteq> int n - 1" using assms(4) by linarith
  show ?thesis
    using assms t' nl unfolding pull_response_unfold
    by (simp add: pending_def worker_Receiving_def worker_Process_def UniqueProcess_def collect_payload update_kvs_pending)
qed

text \<open>The last response runs the callback once, and only then completes the request.\<close>

lemma worker_Receiving_last:
  assumes "pending kv_id ts n (PullCallback u) ps w" "plain_cmd cmd" "kv_keys p \<noteq> []" "Suc (length ps) = n"
  shows "\<exists>w'. worker_Receiving rm (pull_response kv_id ts (cmd, src, p)) w = Inr w'
     \<and> tracker_get (kw_tracker w') kv_id ts = Inr (int n, int n)
     \<and> kw_callbacks w' = (kw_callbacks w)((kv_id, ts) := None) \<and> kw_recv_kvs w' (kv_id, ts) = None
     \<and> kw_results w' = kw_results w @ [((kv_id, ts), Vals (pull_callback (ps @ [p])))]
     \<and> kw_user_calls w' = kw_user_calls w @ (case u of None \<Rightarrow> [] | Some c \<Rightarrow> [c])"
proof -
  obtain t' where t': "tracker_add (kw_tracker w) kv_id ts = Inr t'" "tracker_get t' kv_id ts = Inr (int n, int (length ps) + 1)"
    using tracker_add_get [of "kw_tracker w" kv_id ts] assms(1) by (fastforce simp: pending_def)
  have nl: "int (length ps) = int n - 1" "int (length ps) + 1 = int n" using assms(4) by linarith+
  show ?thesis
    using assms t' nl unfolding pull_response_unfold
    by (simp add: pending_def worker_Receiving_def worker_Process_def UniqueProcess_def collect_payload update_kvs_pending
        RunCallback_def run_callback_def)
qed

lemma worker_Receiving_prefix:
  assumes "pending kv_id ts n cb ps w" "\<forall>r \<in> set rs. plain_cmd (fst r) \<and> kv_keys (snd (snd r)) \<noteq> []" "length ps + length rs < n"
  shows "\<exists>w'. foldE (\<lambda>r. worker_Receiving rm (pull_response kv_id ts r)) rs w = Inr w'
     \<and> pending kv_id ts n cb (ps @ map (\<lambda>r. snd (snd r)) rs) w'
     \<and> kw_results w' = kw_results w \<and> kw_user_calls w' = kw_user_calls w"
  using assms
proof (induction rs arbitrary: ps w)
  case (Cons r rs)
  obtain cmd src p where r: "r = (cmd, src, p)" by (cases r)
  obtain w1 where w1: "worker_Receiving rm (pull_response kv_id ts r) w = Inr w1" "pending kv_id ts n cb (ps @ [p]) w1"
    "kw_results w1 = kw_results w" "kw_user_calls w1 = kw_user_calls w"
    using worker_Receiving_more [of kv_id ts n cb ps w cmd p rm src] Cons.prems r by auto
  then show ?case using Cons.IH [OF w1(2)] Cons.prems r by simp
qed simp

lemma request_done_iff: "tracker_get t kv_id ts = Inr (e, c) \<Longrightarrow> request_done t kv_id ts = Inr (e = c)"
  by (simp add: request_done_def)

text \<open>All responses, in any order.\<close>

lemma worker_Receiving_all:
  assumes "pending kv_id ts n (PullCallback u) [] w" "length rs = n" "0 < n"
    and "\<forall>r \<in> set rs. plain_cmd (fst r) \<and> kv_keys (snd (snd r)) \<noteq> []"
  shows "\<exists>w'. foldE (\<lambda>r. worker_Receiving rm (pull_response kv_id ts r)) rs w = Inr w'
     \<and> tracker_get (kw_tracker w') kv_id ts = Inr (int n, int n)
     \<and> kw_results w' = kw_results w @ [((kv_id, ts), Vals (pull_callback (map (\<lambda>r. snd (snd r)) rs)))]
     \<and> kw_user_calls w' = kw_user_calls w @ (case u of None \<Rightarrow> [] | Some c \<Rightarrow> [c])
     \<and> kw_callbacks w' (kv_id, ts) = None \<and> kw_recv_kvs w' (kv_id, ts) = None"
proof -
  obtain rs' r where rs: "rs = rs' @ [r]" using assms(2,3) by (cases rs rule: rev_cases) auto
  obtain cmd src p where r: "r = (cmd, src, p)" by (cases r)
  obtain w1 where w1: "foldE (\<lambda>r. worker_Receiving rm (pull_response kv_id ts r)) rs' w = Inr w1"
    "pending kv_id ts n (PullCallback u) (map (\<lambda>r. snd (snd r)) rs') w1" "kw_results w1 = kw_results w" "kw_user_calls w1 = kw_user_calls w"
    using worker_Receiving_prefix [OF assms(1), of rs' rm] assms(2,4) rs by auto
  obtain w2 where w2: "worker_Receiving rm (pull_response kv_id ts r) w1 = Inr w2"
    "tracker_get (kw_tracker w2) kv_id ts = Inr (int n, int n)"
    "kw_callbacks w2 = (kw_callbacks w1)((kv_id, ts) := None)" "kw_recv_kvs w2 (kv_id, ts) = None"
    "kw_results w2 = kw_results w1 @ [((kv_id, ts), Vals (pull_callback (map (\<lambda>r. snd (snd r)) rs' @ [p])))]"
    "kw_user_calls w2 = kw_user_calls w1 @ (case u of None \<Rightarrow> [] | Some c \<Rightarrow> [c])"
    using worker_Receiving_last [OF w1(2), of cmd p rm src] assms(2,4) rs r by auto
  then show ?thesis using w1 rs r by (simp add: foldE_append)
qed

section \<open>Properties\<close>

text \<open>The table of \<open>two_servers\<close> for 13 keys in chunks of 5, after \<^verbatim>\<open>SetMaxKeyAndChunkSize\<close>.\<close>

lemma example_table: "\<exists>rm. SetMaxKeyAndChunkSize 0 13 (int 5) two_servers = Inr rm \<and> table_for rm 0 (unat (13 :: u64)) 5 2"
  using SetMaxKeyAndChunkSize_closed [OF two_servers_ok, of 0] by auto

text \<open>
  C14. \<^verbatim>\<open>Slice_\<close> partitions a request: for a sorted list of keys below \<open>max_key\<close> with \<open>d\<close> values each, there is one slice per
  server; the slice of server \<open>i\<close> holds exactly the keys of its range with their values, its flag says whether it is non-empty, and the
  slices put one after the other are the keys and the values of the request.
  Scope: a non-empty sorted list of keys.
\<close>

theorem Slice_partitions:
  assumes "table_for rm kv_id N c s" "params_ok N c s" "GetServerKeyRanges kv_id rm = Inr ranges"
    and "sorted keys" "\<forall>k \<in> set keys. unat k < N" "keys \<noteq> []" "length vals = d * length keys"
    and "sliced = Slice \<lparr>kv_keys = keys, kv_vals = vals\<rparr> ranges"
  shows "length sliced = s
     \<and> concat (map (\<lambda>x. kv_keys (snd x)) sliced) = keys \<and> concat (map (\<lambda>x. kv_vals (snd x)) sliced) = vals
     \<and> (\<forall>i < s. kv_keys (snd (sliced ! i)) = filter (\<lambda>k. range_begin (ranges ! i) \<le> k \<and> k < range_end (ranges ! i)) keys
          \<and> (fst (sliced ! i) \<longleftrightarrow> kv_keys (snd (sliced ! i)) \<noteq> [])
          \<and> length (kv_vals (snd (sliced ! i))) = d * length (kv_keys (snd (sliced ! i))))"
proof -
  have ranges: "ranges = map (key_range N c s) [0..<s]"
    using assms(1,3) by (simp add: table_for_def GetServerKeyRanges_def vec_get_def)
  show ?thesis
    using Slice_concat [OF assms(1,2,5,6,7)] Slice_keys [OF assms(1,2,4,6), where vals = vals]
    by (simp add: assms(8) ranges)
qed

theorem Slice_partitions_witness:
  "\<exists>rm ranges sliced. SetMaxKeyAndChunkSize 0 13 (int 5) two_servers = Inr rm \<and> GetServerKeyRanges 0 rm = Inr ranges
     \<and> sliced = Slice \<lparr>kv_keys = [2, 9, 11], kv_vals = [20, 90, 110 :: int]\<rparr> ranges
     \<and> length sliced = 2 \<and> concat (map (\<lambda>x. kv_keys (snd x)) sliced) = [2, 9, 11]"
proof -
  obtain rm where rm: "SetMaxKeyAndChunkSize 0 13 (int 5) two_servers = Inr rm" "table_for rm 0 (unat (13 :: u64)) 5 2"
    using example_table by auto
  obtain ranges where r: "GetServerKeyRanges 0 rm = Inr ranges"
    using rm(2) by (simp add: table_for_def GetServerKeyRanges_def vec_get_def)
  from Slice_partitions [OF rm(2) two_servers_ok(3) r, of "[2, 9, 11]" "[20, 90, 110 :: int]" 1, OF _ _ _ _ refl] rm(1) r
  show ?thesis by auto
qed

text \<open>
  C15. \<^verbatim>\<open>PartitionChunks_\<close> terminates without an assertion failure on every sorted list of existing chunk ids, and cuts it at the
  right places: the position \<open>j\<close> of a chunk lies between the cuts \<open>i\<close> and \<open>i + 1\<close> exactly if the chunk belongs to the
  chunk range of server \<open>i\<close>.
  Scope: a sorted list of chunk ids that exist.
\<close>

theorem PartitionChunks_cuts:
  assumes "table_for rm kv_id N c s" "params_ok N c s"
    and "sorted ids" "\<forall>ch \<in> set ids. unat ch < num_chunks N c"
  shows "\<exists>pos. PartitionChunks kv_id ids rm = Inr pos \<and> length pos = s + 1 \<and> pos ! 0 = 0 \<and> pos ! s = length ids
     \<and> (\<forall>i < s. pos ! i \<le> pos ! (i + 1)
          \<and> segment (pos ! i) (pos ! (i + 1)) ids
            = filter (\<lambda>ch. range_begin (rm_chunk_ranges rm ! kv_id ! i) \<le> ch \<and> ch < range_end (rm_chunk_ranges rm ! kv_id ! i)) ids)"
proof -
  let ?pos = "map (\<lambda>i. lower_bound ids (chunk_first N c s i)) [0..<s + 1]"
  have s: "0 < s" using assms(2) by (simp add: params_ok_def)
  have nth: "?pos ! i = lower_bound ids (chunk_first N c s i)" if "i \<le> s" for i
    using that by (simp del: upt_Suc)
  have "\<forall>ch \<in> set ids. ch < chunk_first N c s s"
    using assms(4) unat_chunk_first [OF assms(2), of s] s by (simp add: u64_less_iff)
  then have top: "?pos ! s = length ids" using nth [of s] lower_bound_all by fastforce
  have "?pos ! i \<le> ?pos ! (i + 1) \<and> segment (?pos ! i) (?pos ! (i + 1)) ids
      = filter (\<lambda>ch. range_begin (rm_chunk_ranges rm ! kv_id ! i) \<le> ch \<and> ch < range_end (rm_chunk_ranges rm ! kv_id ! i)) ids"
    if "i < s" for i
    using nth [of i] nth [of "i + 1"] chunk_first_mono [OF assms(2), of i "Suc i"] that segment_filter [OF assms(3)]
    by (simp add: table_for_nth [OF assms(1)] chunk_range_def lower_bound_mono del: upt_Suc)
  moreover have "?pos ! 0 = 0" using nth [of 0] by simp
  ultimately show ?thesis using PartitionChunks_ok [OF assms] top by (intro exI [of _ ?pos]) (simp del: upt_Suc)
qed

theorem PartitionChunks_cuts_witness:
  "\<exists>rm pos. SetMaxKeyAndChunkSize 0 13 (int 5) two_servers = Inr rm \<and> PartitionChunks 0 [0, 2] rm = Inr pos
     \<and> length pos = 2 + 1 \<and> pos ! 2 = length [0 :: u64, 2]"
proof -
  obtain rm where rm: "SetMaxKeyAndChunkSize 0 13 (int 5) two_servers = Inr rm" "table_for rm 0 (unat (13 :: u64)) 5 2"
    using example_table by auto
  from PartitionChunks_cuts [OF rm(2) two_servers_ok(3), of "[0, 2]"] rm(1) show ?thesis
    by (auto simp: num_chunks_def)
qed


definition example_worker :: "int KVWorker" where
  "example_worker =
     AddCallback 0 0 (Some (PullCallback (Some 9)))
       (snd (new_request 0 2 ((mk_KVWorker (\<lparr>ps_channel_id = 1, ps_global_id = 2, ps_num_ps_servers = 2,
          ps_local_server_ids = {}, ps_server_id_to_global_id = [0 \<mapsto> 4, 1 \<mapsto> 5]\<rparr>))\<lparr>kw_process_map := {0}\<rparr>)))"

lemma example_worker_pending: "pending 0 0 2 (PullCallback (Some 9)) [] example_worker"
  by (simp add: pending_def example_worker_def mk_KVWorker_def AddCallback_def new_request_def NewRequest_def tracker_get_def
      vec_get_def grow_to_def resize_def)


end
