(* ===== verification/KV_Store.thy ===== *)
theory KV_Store
  imports SSP_Server KV_Worker
begin

text \<open>
  The parameter server as a whole: the server factory and the registration of stores (\<^verbatim>\<open>kvstore/kvstore.hpp\<close>), the start-up of a process
  (\<^verbatim>\<open>kvstore/kvstore.cpp\<close>), the dispatch of requests to stores (\<^verbatim>\<open>kvstore/kvmanager.hpp\<close>) and the receiving loop of a server
  (\<^verbatim>\<open>kvstore/servercustomer.cpp\<close>).

  \<open>KVStore\<close> is the state of one process. \<^verbatim>\<open>WorkerInfo\<close> comes from Husky; what the code asks of it is the record \<open>WorkerInfo\<close>.
  A cluster is a map from thread ids to the managers behind the mailboxes, and \<open>cluster_send\<close> delivers messages one after the other.
\<close>

section \<open>Model\<close>

subsection \<open>Servers and managers\<close>

datatype 'v server =
    DefaultS "'v DefaultUpdateServer"
  | BspS "'v BSPServer"
  | SspS "'v SSPServer"

text \<open>\<^verbatim>\<open>KVServer::HandleAndReply\<close>: the virtual call of \<^verbatim>\<open>Process\<close>.\<close>

fun HandleAndReply :: "RangeManager \<Rightarrow> nat \<Rightarrow> int \<Rightarrow> 'v::{zero,plus} bin \<Rightarrow> 'v server \<Rightarrow> error + ('v server \<times> 'v out)" where
  "HandleAndReply rm kv_id ts bin (DefaultS s) = bindE (default_Process rm kv_id ts bin s) (\<lambda>(s, out). Inr (DefaultS s, out))"
| "HandleAndReply rm kv_id ts bin (BspS s) = bindE (bsp_Process rm kv_id ts bin s) (\<lambda>(s, out). Inr (BspS s, out))"
| "HandleAndReply rm kv_id ts bin (SspS s) = bindE (ssp_Process rm kv_id ts bin s) (\<lambda>(s, out). Inr (SspS s, out))"

record 'v KVManager =
  km_kv_store :: "nat \<rightharpoonup> 'v server"

definition mk_KVManager :: "'v KVManager" where
  "mk_KVManager = \<lparr>km_kv_store = Map.empty\<rparr>"

text \<open>\<^verbatim>\<open>unordered_map::insert\<close> keeps an existing entry.\<close>

definition CreateKVManager :: "nat \<Rightarrow> 'v server \<Rightarrow> 'v KVManager \<Rightarrow> 'v KVManager" where
  "CreateKVManager kv_id s m =
     (case km_kv_store m kv_id of None \<Rightarrow> m\<lparr>km_kv_store := (km_kv_store m)(kv_id \<mapsto> s)\<rparr> | Some x \<Rightarrow> m)"

definition manager_Process :: "RangeManager \<Rightarrow> nat \<Rightarrow> int \<Rightarrow> 'v::{zero,plus} bin \<Rightarrow> 'v KVManager \<Rightarrow> error + ('v KVManager \<times> 'v out)" where
  "manager_Process rm kv_id ts bin m =
     (case km_kv_store m kv_id of None \<Rightarrow> Inl AssertFailed
      | Some s \<Rightarrow> bindE (HandleAndReply rm kv_id ts bin s) (\<lambda>(s, out).
          Inr (m\<lparr>km_kv_store := (km_kv_store m)(kv_id \<mapsto> s)\<rparr>, out)))"

definition server_Receiving :: "RangeManager \<Rightarrow> 'v::{zero,plus} bin \<Rightarrow> 'v KVManager \<Rightarrow> error + ('v KVManager \<times> 'v out)" where
  "server_Receiving rm bin m =
     bindE (get_int bin) (\<lambda>(kv_id, bin). bindE (get_int bin) (\<lambda>(ts, bin).
     if kv_id < 0 then Inl AssertFailed else manager_Process rm (nat kv_id) ts bin m))"

subsection \<open>The factory\<close>

definition key_max :: u64 where
  "key_max = - 1"

definition vector_store :: "RangeManager \<Rightarrow> nat \<Rightarrow> nat \<Rightarrow> error + 'v::zero store" where
  "vector_store rm kid server_id =
     bindE (GetMaxKey kid rm) (\<lambda>mk. bindE (assertE (mk \<noteq> key_max)) (\<lambda>_.
     bindE (GetServerSize kid server_id rm) (\<lambda>n. Inr (VecStore (resize (unat n) 0 [])))))"

definition default_server :: "nat \<Rightarrow> nat \<Rightarrow> 'v store \<Rightarrow> bool \<Rightarrow> bool \<Rightarrow> 'v server" where
  "default_server kid server_id store is_vector is_assign =
     DefaultS \<lparr>ds_kv_id = kid, ds_server_id = server_id, ds_store = store, ds_is_vector = is_vector, ds_is_assign = is_assign\<rparr>"

definition ServerFactory :: "RangeManager \<Rightarrow> nat \<Rightarrow> string \<Rightarrow> int \<Rightarrow> int \<Rightarrow> nat \<Rightarrow> error + 'v::zero server" where
  "ServerFactory rm kid hint num_workers staleness server_id =
     (if hint = ''default_assign_map'' then Inr (default_server kid server_id (MapStore Map.empty) False True)
      else if hint = ''default_add_map'' then Inr (default_server kid server_id (MapStore Map.empty) False True)
      else if hint = ''bsp_add_map'' then Inr (BspS (mk_BSPServer server_id num_workers (MapStore Map.empty) False False True))
      else if hint = ''ssp_add_map'' then
        bindE (mk_SSPServer server_id num_workers (MapStore Map.empty) False staleness) (\<lambda>s. Inr (SspS s))
      else if hint = ''default_assign_vector'' then
        bindE (vector_store rm kid server_id) (\<lambda>st. Inr (default_server kid server_id st True True))
      else if hint = ''default_add_vector'' then
        bindE (vector_store rm kid server_id) (\<lambda>st. Inr (default_server kid server_id st True False))
      else if hint = ''bsp_add_vector'' then
        bindE (vector_store rm kid server_id) (\<lambda>st. Inr (BspS (mk_BSPServer server_id num_workers st True False True)))
      else if hint = ''ssp_add_vector'' then
        bindE (vector_store rm kid server_id) (\<lambda>st.
        bindE (mk_SSPServer server_id num_workers st True staleness) (\<lambda>s. Inr (SspS s)))
      else Inl AssertFailed)"

subsection \<open>A process\<close>

record 'v KVStore =
  ks_kv_id :: nat
  ks_kvworker_mailboxes :: "nat list"           \<comment> \<open>thread ids\<close>
  ks_kvworkers :: "'v KVWorker list"
  ks_kvserver_mailboxes :: "nat list"
  ks_kvservers :: "'v KVManager list"
  ks_server_ids :: "nat list"
  ks_num_processes :: int
  ks_is_started :: bool
  ks_peers :: "(nat \<times> nat) list"               \<comment> \<open>\<^verbatim>\<open>register_peer_thread\<close>\<close>
  ks_rm :: RangeManager

definition init_KVStore :: "'v KVStore" where
  "init_KVStore = \<lparr>ks_kv_id = 0, ks_kvworker_mailboxes = [], ks_kvworkers = [], ks_kvserver_mailboxes = [], ks_kvservers = [],
     ks_server_ids = [], ks_num_processes = -1, ks_is_started = False, ks_peers = [], ks_rm = init_RangeManager\<rparr>"

definition kv_channel_id :: int where
  "kv_channel_id = 37"

text \<open>Worker \<open>i\<close> has the thread id \<open>num_workers + i\<close>, server \<open>j\<close> of process \<open>i\<close> the id \<open>2 * num_workers + j * num_processes + i\<close>.\<close>

definition server_tid :: "WorkerInfo \<Rightarrow> nat \<Rightarrow> nat \<Rightarrow> nat" where
  "server_tid wi i j = 2 * wi_num_workers wi + j * wi_num_processes wi + i"

definition server2global :: "WorkerInfo \<Rightarrow> nat \<Rightarrow> nat \<rightharpoonup> int" where
  "server2global wi num_servers_per_process =
     map_of (concat (map (\<lambda>i. map (\<lambda>j. (i + j * wi_num_processes wi, int (server_tid wi i j))) [0..<num_servers_per_process])
       [0..<wi_num_processes wi]))"

definition ps_info :: "WorkerInfo \<Rightarrow> nat \<Rightarrow> nat \<Rightarrow> PSInfo" where
  "ps_info wi num_servers_per_process i =
     \<lparr>ps_channel_id = kv_channel_id, ps_global_id = int (wi_num_workers wi + i),
      ps_num_ps_servers = int (wi_num_processes wi * num_servers_per_process),
      ps_local_server_ids = set (map (\<lambda>j. wi_process_id wi + j * wi_num_processes wi) [0..<num_servers_per_process]),
      ps_server_id_to_global_id = server2global wi num_servers_per_process\<rparr>"

definition Start :: "WorkerInfo \<Rightarrow> nat \<Rightarrow> 'v KVStore \<Rightarrow> 'v KVStore" where
  "Start wi num_servers_per_process ks =
     (let me = wi_process_id wi; n = wi_num_workers wi; P = wi_num_processes wi; S = num_servers_per_process;
          mine = filter (\<lambda>i. wi_proc_of wi i = me) [0..<n];
          remote = filter (\<lambda>i. wi_proc_of wi i \<noteq> me) [0..<n];
          slots = concat (map (\<lambda>i. map (\<lambda>j. (i, server_tid wi i j)) [0..<S]) [0..<P]);
          kvservers = ks_kvservers ks @ replicate S mk_KVManager
      in ks\<lparr>ks_is_started := True, ks_num_processes := int P,
            ks_kvworker_mailboxes := ks_kvworker_mailboxes ks @ map (\<lambda>i. n + i) mine,
            ks_kvserver_mailboxes := ks_kvserver_mailboxes ks @ map snd (filter (\<lambda>p. fst p = me) slots),
            ks_peers := ks_peers ks @ map (\<lambda>i. (wi_proc_of wi i, n + i)) remote @ filter (\<lambda>p. fst p \<noteq> me) slots,
            ks_kvservers := kvservers,
            ks_server_ids := ks_server_ids ks @ map (\<lambda>i. i * P + me) [0..<S],
            ks_kvworkers := ks_kvworkers ks @ map (\<lambda>i. mk_KVWorker (ps_info wi S i)) mine,
            ks_rm := SetNumServers (int (length kvservers) * int P) (ks_rm ks)\<rparr>)"

definition Stop :: "'v KVStore \<Rightarrow> 'v KVStore" where
  "Stop ks = ks\<lparr>ks_is_started := False, ks_kv_id := 0, ks_num_processes := -1, ks_kvworkers := [], ks_kvworker_mailboxes := [],
     ks_kvservers := [], ks_kvserver_mailboxes := [], ks_server_ids := [], ks_rm := Clear (ks_rm ks)\<rparr>"

text \<open>The loops that \<^verbatim>\<open>CreateKVStore\<close> and \<^verbatim>\<open>SetupKVStore\<close> share.\<close>

definition SetupKVStore :: "nat \<Rightarrow> string \<Rightarrow> int \<Rightarrow> int \<Rightarrow> 'v::zero KVStore \<Rightarrow> error + 'v KVStore" where
  "SetupKVStore kid hint num_workers staleness ks =
     bindE (mapE (\<lambda>i. bindE (assertE (i < length (ks_server_ids ks))) (\<lambda>_.
              bindE (ServerFactory (ks_rm ks) kid hint num_workers staleness (ks_server_ids ks ! i)) (\<lambda>s.
              Inr (CreateKVManager kid s (ks_kvservers ks ! i))))) [0..<length (ks_kvservers ks)]) (\<lambda>servers.
     bindE (mapE (AddProcessFunc kid) (ks_kvworkers ks)) (\<lambda>workers.
     Inr (ks\<lparr>ks_kvservers := servers, ks_kvworkers := workers\<rparr>)))"

definition CreateKVStore :: "string \<Rightarrow> int \<Rightarrow> int \<Rightarrow> u64 \<Rightarrow> int \<Rightarrow> 'v::zero KVStore \<Rightarrow> error + (nat \<times> 'v KVStore)" where
  "CreateKVStore hint num_workers staleness max_key chunk_size ks =
     bindE (assertE (ks_is_started ks)) (\<lambda>_.
     bindE (SetMaxKeyAndChunkSize (ks_kv_id ks) max_key chunk_size (ks_rm ks)) (\<lambda>rm.
     bindE (SetupKVStore (ks_kv_id ks) hint num_workers staleness (ks\<lparr>ks_rm := rm\<rparr>)) (\<lambda>ks.
     Inr (ks_kv_id ks, ks\<lparr>ks_kv_id := ks_kv_id ks + 1\<rparr>))))"

definition CreateKVStoreWithoutSetup :: "'v KVStore \<Rightarrow> error + (nat \<times> 'v KVStore)" where
  "CreateKVStoreWithoutSetup ks =
     bindE (assertE (ks_is_started ks)) (\<lambda>_. Inr (ks_kv_id ks, ks\<lparr>ks_kv_id := ks_kv_id ks + 1\<rparr>))"

definition get_kvworker :: "int \<Rightarrow> 'v KVStore \<Rightarrow> error + 'v KVWorker" where
  "get_kvworker i ks =
     bindE (assertE (0 \<le> i \<and> i < int (length (ks_kvworkers ks)))) (\<lambda>_. vec_get (ks_kvworkers ks) (nat i))"

subsection \<open>A cluster\<close>

definition deliver :: "RangeManager \<Rightarrow> int \<times> 'v::{zero,plus} bin \<Rightarrow> (int \<rightharpoonup> 'v KVManager) \<times> 'v out
    \<Rightarrow> error + ((int \<rightharpoonup> 'v KVManager) \<times> 'v out)" where
  "deliver rm = (\<lambda>(dst, bin) (cl, out).
     case cl dst of None \<Rightarrow> Inl BadMessage
     | Some m \<Rightarrow> bindE (server_Receiving rm bin m) (\<lambda>(m, o1). Inr (cl(dst \<mapsto> m), out @ o1)))"

definition cluster_send :: "RangeManager \<Rightarrow> 'v::{zero,plus} out \<Rightarrow> (int \<rightharpoonup> 'v KVManager)
    \<Rightarrow> error + ((int \<rightharpoonup> 'v KVManager) \<times> 'v out)" where
  "cluster_send rm msgs cl = foldE (deliver rm) msgs (cl, [])"

section \<open>Requests through the cluster\<close>

lemma concat_map_if: "concat (map (\<lambda>x. if P x then [f x] else []) xs) = map f (filter P xs)"
  by (induction xs) auto

lemma mset_map_preimage: "mset ys = mset (map f xs) \<Longrightarrow> \<exists>xs'. ys = map f xs' \<and> mset xs' = mset xs"
proof (induction ys arbitrary: xs)
  case (Cons y ys)
  then have "y \<in> set (map f xs)" by (metis list.set_intros(1) set_mset_mset)
  then obtain x where x: "x \<in> set xs" "y = f x" by auto
  then have "mset ys = mset (map f (remove1 x xs))" using arg_cong [OF Cons.prems, of "\<lambda>M. M - {#y#}"] by (simp add: image_mset_Diff)
  then obtain xs' where "ys = map f xs'" "mset xs' = mset (remove1 x xs)" using Cons.IH by blast
  then show ?case using x by (intro exI [of _ "x # xs'"]) (simp add: insert_DiffM)
qed simp

lemma sorted_hds:
  "sorted_wrt (<) (concat xss) \<Longrightarrow> [] \<notin> set xss \<Longrightarrow> sorted_wrt (<) (map hd xss)"
proof (induction xss)
  case (Cons xs xss)
  have "hd xs < hd ys" if "ys \<in> set xss" for ys
  proof -
    have "hd xs \<in> set xs" "hd ys \<in> set ys" using Cons.prems that by (auto intro!: hd_in_set) 
    then show ?thesis using Cons.prems that by (auto simp: sorted_wrt_append)
  qed
  then show ?case using Cons by (auto simp: sorted_wrt_append)
qed simp

text \<open>Messages to different servers can be handled in any order: each server handles its own.\<close>

lemma cluster_send_distinct:
  assumes "distinct (map fst msgs)"
    and "\<And>d b. (d, b) \<in> set msgs \<Longrightarrow> \<exists>m. cl d = Some m \<and> server_Receiving rm b m = Inr (M d, O1 d)"
  shows "cluster_send rm msgs cl = Inr (\<lambda>d. if d \<in> fst ` set msgs then Some (M d) else cl d, concat (map (\<lambda>x. O1 (fst x)) msgs))"
proof -
  have "foldE (deliver rm) msgs (cl, out)
      = Inr (\<lambda>d. if d \<in> fst ` set msgs then Some (M d) else cl d, out @ concat (map (\<lambda>x. O1 (fst x)) msgs))" for out
    using assms
  proof (induction msgs arbitrary: cl out)
    case (Cons x msgs)
    obtain d b where x: "x = (d, b)" by fastforce
    obtain m where m: "cl d = Some m" "server_Receiving rm b m = Inr (M d, O1 d)" using Cons.prems(2) x by auto
    have "foldE (deliver rm) msgs (cl(d \<mapsto> M d), out @ O1 d)
      = Inr (\<lambda>e. if e \<in> fst ` set msgs then Some (M e) else (cl(d \<mapsto> M d)) e, (out @ O1 d) @ concat (map (\<lambda>x. O1 (fst x)) msgs))"
    proof (rule Cons.IH)
      fix e b' assume e: "(e, b') \<in> set msgs"
      then have "e \<noteq> d" using Cons.prems(1) x by force
      then show "\<exists>m. (cl(d \<mapsto> M d)) e = Some m \<and> server_Receiving rm b' m = Inr (M e, O1 e)"
        using Cons.prems(2) [of e b'] e by simp
    qed (use Cons.prems in simp)
    then show ?case using m x by (auto simp: deliver_def fun_eq_iff)
  qed (simp add: fun_eq_iff)
  then show ?thesis by (simp add: cluster_send_def)
qed

subsection \<open>One message\<close>

definition slice_cmd :: "PSInfo \<Rightarrow> bool \<Rightarrow> bool \<Rightarrow> nat \<Rightarrow> int" where
  "slice_cmd info zc cc i = (if zc \<and> i \<in> ps_local_server_ids info then 2 else 0) + (if cc then 0 else 100)"

definition slice_bin :: "PSInfo \<Rightarrow> nat \<Rightarrow> nat \<Rightarrow> bool \<Rightarrow> bool \<Rightarrow> bool \<Rightarrow> nat \<Rightarrow> 'v KVPairs \<Rightarrow> 'v bin" where
  "slice_bin info kv_id ts push zc cc i kvs =
     [FInt (int kv_id), FInt (int ts), FInt (slice_cmd info zc cc i), FBool push, FInt (ps_global_id info)]
     @ (if zc \<and> i \<in> ps_local_server_ids info then [FKVPtr kvs]
        else if push then put_keys (kv_keys kvs) @ put_vals (kv_vals kvs) else put_keys (kv_keys kvs))"

lemma Send_slices:
  "Send info kv_id ts push sliced False zc cc
     = map (\<lambda>i. (get_tid info i, slice_bin info kv_id ts push zc cc i (snd (sliced ! i)))) (filter (\<lambda>i. fst (sliced ! i)) [0..<length sliced])"
proof -
  have "Send info kv_id ts push sliced False zc cc
     = concat (map (\<lambda>i. if fst (sliced ! i) then [(get_tid info i, slice_bin info kv_id ts push zc cc i (snd (sliced ! i)))] else []) [0..<length sliced])"
    unfolding Send_def
    by (rule arg_cong [where f = concat], rule map_cong)
       (auto simp: slice_bin_def slice_cmd_def local_zero_copy_magic_def consistency_control_off_magic_def split: prod.splits)
  then show ?thesis by (simp only: concat_map_if)
qed

lemma slice_cmd_rem: "c_rem (slice_cmd info zc cc i) consistency_control_off_magic = (if zc \<and> i \<in> ps_local_server_ids info then 2 else 0)"
  by (simp add: slice_cmd_def c_rem_def consistency_control_off_magic_def)

text \<open>A server of \<open>default_assign_map\<close>, and that it holds given pairs.\<close>

definition map_server :: "nat \<Rightarrow> 'v KVManager \<Rightarrow> bool" where
  "map_server kv_id m \<longleftrightarrow>
     (\<exists>sv f. km_kv_store m kv_id = Some (DefaultS sv) \<and> \<not> ds_is_vector sv \<and> ds_is_assign sv \<and> ds_store sv = MapStore f)"

definition holds :: "nat \<Rightarrow> 'v KVPairs \<Rightarrow> 'v KVManager \<Rightarrow> bool" where
  "holds kv_id p m \<longleftrightarrow>
     (\<exists>sv f. km_kv_store m kv_id = Some (DefaultS sv) \<and> \<not> ds_is_vector sv \<and> ds_is_assign sv \<and> ds_store sv = MapStore f
        \<and> map f (kv_keys p) = map Some (kv_vals p))"

lemma holds_map_server: "holds kv_id p m \<Longrightarrow> map_server kv_id m"
  by (auto simp: holds_def map_server_def)

lemma put_all_map: "put_all True ws (MapStore f) = Inr (MapStore (f ++ map_of (rev ws)))"
proof (induction ws arbitrary: f)
  case (Cons w ws)
  obtain k v where w: "w = (k, v)" by fastforce
  have e: "f ++ map_of (rev (w # ws)) = f(k \<mapsto> v) ++ map_of (rev ws)"
  proof -
    have "f ++ [k \<mapsto> v] = f(k \<mapsto> v)" by simp
    then show ?thesis using w by (simp only: rev.simps map_of_append map_add_assoc) simp
  qed
  show ?case unfolding e using w by (simp add: store_put_def Cons.IH del: fun_upd_apply)
qed simp

lemma update_map:
  assumes "length (kv_keys p) = length (kv_vals p)" "distinct (kv_keys p)"
  shows "\<exists>f'. update rm kv_id i (put_keys (kv_keys p) @ put_vals (kv_vals p)) (MapStore f) 0 False True = Inr (MapStore f')
     \<and> update rm kv_id i [FKVPtr p] (MapStore f) 2 False True = Inr (MapStore f')
     \<and> map f' (kv_keys p) = map Some (kv_vals p)"
proof -
  let ?ws = "zip (kv_keys p) (kv_vals p)"
  have w: "writes rm kv_id i False 0 (put_keys (kv_keys p) @ put_vals (kv_vals p)) = Inr ?ws"
    "writes rm kv_id i False 2 [FKVPtr p] = Inr ?ws"
    using assms by (simp_all add: writes_def interval_of_def pair_writes_def)
  obtain f' where f': "put_all True ?ws (MapStore f) = Inr (MapStore f')" "f' = f ++ map_of (rev ?ws)"
    by (simp add: put_all_map)
  have "map f' (kv_keys p) = map Some (kv_vals p)"
  proof (rule nth_equalityI)
    fix j assume "j < length (map f' (kv_keys p))"
    then have j: "j < length (kv_keys p)" "j < length (kv_vals p)" using assms by simp_all
    have "(kv_keys p ! j, kv_vals p ! j) \<in> set ?ws" using j by (force simp: set_zip)
    then have "map_of (rev ?ws) (kv_keys p ! j) = Some (kv_vals p ! j)"
      using assms by (intro map_of_is_SomeI) (simp_all flip: rev_map)
    then show "map f' (kv_keys p) ! j = map Some (kv_vals p) ! j" using j f'(2) by simp
  qed (use assms in simp)
  then show ?thesis using w f'(1) by (auto simp: update_writes)
qed

lemma retrieve_map:
  assumes "map f (kv_keys p) = map Some (kv_vals p)"
  shows "retrieve rm kv_id i (put_keys (kv_keys p)) (MapStore f) 0 False = Inr (p, MapStore f)
     \<and> retrieve rm kv_id i [FKVPtr \<lparr>kv_keys = kv_keys p, kv_vals = vs\<rparr>] (MapStore f) 2 False = Inr (p, MapStore f)"
proof -
  have "index_all ks (MapStore f) = Inr (vs, MapStore f)" if "map f ks = map Some vs" for ks vs
    using that by (induction ks arbitrary: vs) auto
  from this [OF assms] show ?thesis by (simp add: retrieve_def interval_of_def retrieve_pairs_def)
qed

lemma server_push:
  assumes "map_server kv_id m" "length (kv_keys p) = length (kv_vals p)" "distinct (kv_keys p)"
  shows "\<exists>m' out. server_Receiving rm (slice_bin info kv_id ts True zc cc i p) m = Inr (m', out) \<and> holds kv_id p m'"
proof -
  obtain sv f where sv: "km_kv_store m kv_id = Some (DefaultS sv)" "\<not> ds_is_vector sv" "ds_is_assign sv" "ds_store sv = MapStore f"
    using assms(1) by (auto simp: map_server_def)
  obtain f' where f': "update rm kv_id (ds_server_id sv) (put_keys (kv_keys p) @ put_vals (kv_vals p)) (MapStore f) 0 False True = Inr (MapStore f')"
    "update rm kv_id (ds_server_id sv) [FKVPtr p] (MapStore f) 2 False True = Inr (MapStore f')"
    "map f' (kv_keys p) = map Some (kv_vals p)" using update_map [OF assms(2,3)] by blast
  show ?thesis
    using sv f' by (simp add: server_Receiving_def slice_bin_def manager_Process_def default_Process_def slice_cmd_rem serve_push_def
        holds_def)
qed

lemma server_pull:
  assumes "holds kv_id p m" "kv_keys q = kv_keys p"
  shows "\<exists>m'. server_Receiving rm (slice_bin info kv_id ts False zc cc i q) m
     = Inr (m', [(ps_global_id info, pull_response kv_id ts (if zc \<and> i \<in> ps_local_server_ids info then 2 else 0, ps_global_id info, p))])
     \<and> holds kv_id p m'"
proof -
  obtain sv f where sv: "km_kv_store m kv_id = Some (DefaultS sv)" "\<not> ds_is_vector sv" "ds_is_assign sv" "ds_store sv = MapStore f"
    "map f (kv_keys p) = map Some (kv_vals p)"
    using assms(1) by (auto simp: holds_def)
  have q: "q = \<lparr>kv_keys = kv_keys p, kv_vals = kv_vals q\<rparr>" using assms(2) by simp
  note r = retrieve_map [OF sv(5), of rm kv_id "ds_server_id sv" "kv_vals q"]
  show ?thesis
    using sv r assms(2) q by (simp add: server_Receiving_def slice_bin_def manager_Process_def default_Process_def slice_cmd_rem serve_pull_def
        holds_def pull_response_def Response_def)
qed

subsection \<open>A push and a pull\<close>

definition map_cluster :: "PSInfo \<Rightarrow> nat \<Rightarrow> nat \<Rightarrow> (int \<rightharpoonup> 'v KVManager) \<Rightarrow> bool" where
  "map_cluster info kv_id s cl \<longleftrightarrow> inj_on (get_tid info) {..<s}
     \<and> (\<forall>i < s. \<exists>m. cl (get_tid info i) = Some m \<and> map_server kv_id m)"

definition slots_of :: "(bool \<times> 'v KVPairs) list \<Rightarrow> nat list" where
  "slots_of sliced = filter (\<lambda>i. fst (sliced ! i)) [0..<length sliced]"

lemma cluster_requests:
  assumes inj: "inj_on t (set is)" "distinct is"
    and step: "\<And>i. i \<in> set is \<Longrightarrow> \<exists>m. cl (t i) = Some m \<and> server_Receiving rm (b i) m = Inr (m' i, out i)"
    and perm: "mset msgs = mset (map (\<lambda>i. (t i, b i)) is)"
  shows "\<exists>cl' o1. cluster_send rm msgs cl = Inr (cl', o1) \<and> (\<forall>i \<in> set is. cl' (t i) = Some (m' i))
     \<and> (\<forall>d. d \<notin> t ` set is \<longrightarrow> cl' d = cl d) \<and> mset o1 = mset (concat (map out is))"
proof -
  let ?inv = "inv_into (set is) t"
  obtain js where js: "msgs = map (\<lambda>i. (t i, b i)) js" "mset js = mset is" using mset_map_preimage [OF perm] by auto
  have set: "set js = set is" "distinct js" using js(2) inj(2) by (metis set_mset_mset, metis mset_eq_imp_distinct_iff)
  have "distinct (map fst msgs)" using set inj(1) js(1) by (simp add: distinct_map comp_def)
  then have "cluster_send rm msgs cl = Inr (\<lambda>d. if d \<in> fst ` set msgs then Some (m' (?inv d)) else cl d, concat (map (\<lambda>x. out (?inv (fst x))) msgs))"
  proof (rule cluster_send_distinct)
    fix d b' assume "(d, b') \<in> set msgs"
    then obtain i where "i \<in> set is" "d = t i" "b' = b i" using js set by auto
    then show "\<exists>m. cl d = Some m \<and> server_Receiving rm b' m = Inr (m' (?inv d), out (?inv d))" using step [of i] inj by simp
  qed
  moreover have "map (\<lambda>x. out (?inv (fst x))) msgs = map out js" using js(1) set inj by simp
  moreover have "mset (concat (map out js)) = mset (concat (map out is))"
    unfolding mset_concat using js(2) by (metis (no_types, lifting) mset_map sum_mset_sum_list)
  moreover have "fst ` set msgs = t ` set is" using js(1) set by (simp add: image_image)
  ultimately show ?thesis using inj by auto
qed

lemma cluster_push:
  assumes cl: "map_cluster info kv_id s cl" and len: "length sliced = s"
    and ok: "\<And>i. i < s \<Longrightarrow> length (kv_keys (snd (sliced ! i))) = length (kv_vals (snd (sliced ! i))) \<and> distinct (kv_keys (snd (sliced ! i)))"
    and perm: "mset msgs = mset (Send info kv_id ts True sliced False zc cc)"
  shows "\<exists>cl' out. cluster_send rm msgs cl = Inr (cl', out)
     \<and> (\<forall>i \<in> set (slots_of sliced). \<exists>m. cl' (get_tid info i) = Some m \<and> holds kv_id (snd (sliced ! i)) m)"
proof -
  let ?b = "\<lambda>i. slice_bin info kv_id ts True zc cc i (snd (sliced ! i))"
  have sub: "set (slots_of sliced) \<subseteq> {..<s}" "distinct (slots_of sliced)" using len by (auto simp: slots_of_def)
  have inj: "inj_on (get_tid info) (set (slots_of sliced))" using inj_on_subset cl sub by (auto simp: map_cluster_def)
  have "\<exists>m out. \<exists>m0. cl (get_tid info i) = Some m0 \<and> server_Receiving rm (?b i) m0 = Inr (m, out) \<and> holds kv_id (snd (sliced ! i)) m"
    if i: "i < s" for i
  proof -
    obtain m where "cl (get_tid info i) = Some m" "map_server kv_id m" using cl i by (auto simp: map_cluster_def)
    then show ?thesis using server_push [of kv_id m "snd (sliced ! i)" rm info ts zc cc i] ok [OF i] by auto
  qed
  then obtain m' out where step: "\<And>i. i < s \<Longrightarrow> \<exists>m0. cl (get_tid info i) = Some m0 \<and> server_Receiving rm (?b i) m0 = Inr (m' i, out i)
      \<and> holds kv_id (snd (sliced ! i)) (m' i)" by metis
  have "\<exists>cl' o1. cluster_send rm msgs cl = Inr (cl', o1) \<and> (\<forall>i \<in> set (slots_of sliced). cl' (get_tid info i) = Some (m' i))
     \<and> (\<forall>d. d \<notin> get_tid info ` set (slots_of sliced) \<longrightarrow> cl' d = cl d) \<and> mset o1 = mset (concat (map out (slots_of sliced)))"
  proof (rule cluster_requests [OF inj sub(2)])
    show "mset msgs = mset (map (\<lambda>i. (get_tid info i, ?b i)) (slots_of sliced))" using perm by (simp add: Send_slices slots_of_def)
  qed (use step sub in auto)
  then show ?thesis using step sub by fastforce
qed

lemma cluster_pull:
  assumes inj: "inj_on (get_tid info) {..<s}" and len: "length pulled = s" "length sliced = s"
    and same: "\<And>i. i < s \<Longrightarrow> fst (pulled ! i) = fst (sliced ! i) \<and> kv_keys (snd (pulled ! i)) = kv_keys (snd (sliced ! i))"
    and cl: "\<And>i. i \<in> set (slots_of sliced) \<Longrightarrow> \<exists>m. cl (get_tid info i) = Some m \<and> holds kv_id (snd (sliced ! i)) m"
    and perm: "mset msgs = mset (Send info kv_id ts False pulled False zc cc)"
  shows "\<exists>cl' out. cluster_send rm msgs cl = Inr (cl', out)
     \<and> mset (map snd out) = mset (map (\<lambda>i. pull_response kv_id ts (if zc \<and> i \<in> ps_local_server_ids info then 2 else 0, ps_global_id info, snd (sliced ! i))) (slots_of sliced))"
proof -
  let ?b = "\<lambda>i. slice_bin info kv_id ts False zc cc i (snd (pulled ! i))"
  let ?r = "\<lambda>i. pull_response kv_id ts (if zc \<and> i \<in> ps_local_server_ids info then 2 else 0, ps_global_id info, snd (sliced ! i))"
  have sub: "set (slots_of sliced) \<subseteq> {..<s}" "distinct (slots_of sliced)" using len by (auto simp: slots_of_def)
  have inj': "inj_on (get_tid info) (set (slots_of sliced))" using inj_on_subset [OF inj sub(1)] .
  have slots: "slots_of pulled = slots_of sliced" unfolding slots_of_def len using same by (intro filter_cong) auto
  have "\<exists>m. \<exists>m0. cl (get_tid info i) = Some m0 \<and> server_Receiving rm (?b i) m0 = Inr (m, [(ps_global_id info, ?r i)])"
    if i: "i \<in> set (slots_of sliced)" for i
  proof -
    obtain m where "cl (get_tid info i) = Some m" "holds kv_id (snd (sliced ! i)) m" using cl [OF i] by blast
    then show ?thesis using server_pull [of kv_id "snd (sliced ! i)" m "snd (pulled ! i)" rm info ts zc cc i] same [of i] i sub by blast
  qed
  then obtain m' where step: "\<And>i. i \<in> set (slots_of sliced) \<Longrightarrow> \<exists>m0. cl (get_tid info i) = Some m0 \<and> server_Receiving rm (?b i) m0 = Inr (m' i, [(ps_global_id info, ?r i)])"
    by metis
  have "\<exists>cl' o1. cluster_send rm msgs cl = Inr (cl', o1) \<and> (\<forall>i \<in> set (slots_of sliced). cl' (get_tid info i) = Some (m' i))
     \<and> (\<forall>d. d \<notin> get_tid info ` set (slots_of sliced) \<longrightarrow> cl' d = cl d)
     \<and> mset o1 = mset (concat (map (\<lambda>i. [(ps_global_id info, ?r i)]) (slots_of sliced)))"
  proof (rule cluster_requests [OF inj' sub(2)])
    show "mset msgs = mset (map (\<lambda>i. (get_tid info i, ?b i)) (slots_of sliced))"
      using perm unfolding Send_slices slots_of_def [symmetric] slots .
  qed (use step in blast)
  then obtain cl' o1 where o1: "cluster_send rm msgs cl = Inr (cl', o1)"
    "mset o1 = mset (concat (map (\<lambda>i. [(ps_global_id info, ?r i)]) (slots_of sliced)))" by blast
  have "concat (map (\<lambda>i. [(ps_global_id info, ?r i)]) xs) = map (\<lambda>i. (ps_global_id info, ?r i)) xs" for xs by (induction xs) auto
  then have "mset (map snd o1) = mset (map ?r (slots_of sliced))" using arg_cong [OF o1(2), of "image_mset snd"] by (simp add: image_mset.compositionality comp_def)
  then show ?thesis using o1(1) by blast
qed


text \<open>The non-empty slices of a request, in order, are its keys and values.\<close>

lemma slots_parts:
  assumes "\<And>i. i < length sliced \<Longrightarrow> \<not> fst (sliced ! i) \<Longrightarrow> g (snd (sliced ! i)) = []"
  shows "concat (map (\<lambda>i. g (snd (sliced ! i))) (slots_of sliced)) = concat (map (\<lambda>x. g (snd x)) sliced)"
proof -
  have "concat (map f (filter P xs)) = concat (map f xs)" if "\<And>x. x \<in> set xs \<Longrightarrow> \<not> P x \<Longrightarrow> f x = []" for f P and xs :: "nat list"
    using that by (induction xs) auto
  from this [of "[0..<length sliced]" "\<lambda>i. fst (sliced ! i)" "\<lambda>i. g (snd (sliced ! i))"] assms
  have "concat (map (\<lambda>i. g (snd (sliced ! i))) (slots_of sliced)) = concat (map (\<lambda>i. g (snd (sliced ! i))) [0..<length sliced])"
    unfolding slots_of_def by simp
  also have "map (\<lambda>i. g (snd (sliced ! i))) [0..<length sliced] = map (\<lambda>x. g (snd x)) sliced"
    by (rule nth_equalityI) simp_all
  finally show ?thesis .
qed

text \<open>Whatever the order of the responses, sorting the parts by their first key restores the request.\<close>

lemma pull_callback_perm:
  assumes "mset ps = mset parts" "sorted_wrt (<) (concat (map kv_keys parts))" "\<forall>p \<in> set parts. kv_keys p \<noteq> []"
  shows "pull_callback ps = concat (map kv_vals parts)"
proof -
  have "sorted_wrt (<) (map hd (map kv_keys parts))" using assms(2,3) by (intro sorted_hds) auto
  then have s: "sorted_wrt (<) (map (\<lambda>p. hd (kv_keys p)) parts)" by (simp add: comp_def)
  then have "distinct (map (\<lambda>p. hd (kv_keys p)) parts)" by (simp add: strict_sorted_iff)
  then have "inj_on (\<lambda>p. hd (kv_keys p)) (set ps)" using assms(1) by (metis distinct_map mset_eq_setD)
  moreover have "sorted (map (\<lambda>p. hd (kv_keys p)) parts)" using s by (simp add: strict_sorted_iff)
  ultimately have "sort_key (\<lambda>p. hd (kv_keys p)) ps = parts" using assms(1) by (intro sort_key_inj_key_eq) auto
  then show ?thesis by (simp add: pull_callback_def)
qed

lemma wait_num_slots: "wait_num sliced = int (length (slots_of sliced))"
proof -
  have "filter fst (map ((!) sliced) [0..<length sliced]) = map ((!) sliced) (slots_of sliced)"
    by (simp add: filter_map slots_of_def comp_def)
  then show ?thesis by (simp add: wait_num_def map_nth)
qed

lemma Pull_pending:
  assumes "kv_id \<in> kw_process_map w" "\<forall>ts. kw_recv_kvs w (kv_id, ts) = None" "GetServerKeyRanges kv_id rm = Inr ranges"
    and pulled: "pulled = Slice \<lparr>kv_keys = keys, kv_vals = []\<rparr> ranges"
  shows "\<exists>ts w'. Pull kv_id keys False zc cc cb rm w = Inr (ts, w', Send (kw_info w) kv_id ts False pulled False zc cc)
     \<and> pending kv_id ts (length (slots_of pulled)) (PullCallback cb) [] w' \<and> kw_results w' = kw_results w"
proof -
  obtain ts t where t: "NewRequest kv_id (wait_num pulled) (kw_tracker w) = (ts, t)" by fastforce
  show ?thesis
    using assms t NewRequest_get [OF t]
    by (auto simp: Pull_def Let_def new_request_def AddCallback_def pending_def wait_num_slots)
qed

lemma ZPush_sends:
  assumes "GetServerKeyRanges kv_id rm = Inr ranges"
  shows "\<exists>ts w'. ZPush kv_id keys vals False zc cc cb rm w
     = Inr (ts, w', Send (kw_info w) kv_id ts True (Slice \<lparr>kv_keys = keys, kv_vals = vals\<rparr> ranges) False zc cc)"
  using assms by (cases "NewRequest kv_id (wait_num (Slice \<lparr>kv_keys = keys, kv_vals = vals\<rparr> ranges)) (kw_tracker w)")
    (simp add: ZPush_def new_request_def Let_def)

text \<open>How the slices of a push and those of a pull of the same keys fit together.\<close>

lemma slices_fit:
  fixes vals :: "'v list"
  assumes t: "table_for rm kv_id N c s" and p: "params_ok N c s"
    and keys: "sorted_wrt (<) keys" "\<forall>k \<in> set keys. unat k < N" "keys \<noteq> []" "length vals = length keys"
  defines "sl \<equiv> Slice \<lparr>kv_keys = keys, kv_vals = vals\<rparr> (map (key_range N c s) [0..<s])"
    and "pl \<equiv> Slice \<lparr>kv_keys = keys, kv_vals = [] :: 'v list\<rparr> (map (key_range N c s) [0..<s])"
  shows "length sl = s" "length pl = s"
    "\<And>i. i < s \<Longrightarrow> length (kv_keys (snd (sl ! i))) = length (kv_vals (snd (sl ! i))) \<and> distinct (kv_keys (snd (sl ! i)))"
    "concat (map (\<lambda>i. kv_keys (snd (sl ! i))) (slots_of sl)) = keys" "concat (map (\<lambda>i. kv_vals (snd (sl ! i))) (slots_of sl)) = vals"
    "\<And>i. i < s \<Longrightarrow> fst (pl ! i) = fst (sl ! i) \<and> kv_keys (snd (pl ! i)) = kv_keys (snd (sl ! i))"
    "slots_of pl = slots_of sl" "\<And>i. i \<in> set (slots_of sl) \<Longrightarrow> kv_keys (snd (sl ! i)) \<noteq> []" "slots_of sl \<noteq> []"
proof -
  have sorted: "sorted keys" "distinct keys" using keys(1) by (simp_all add: strict_sorted_iff)
  have len1: "length vals = 1 * length keys" using keys(4) by simp
  note part = Slice_keys [OF t p sorted(1) keys(3)] and whole = Slice_concat [OF t p keys(2,3) len1]
  show "length sl = s" "length pl = s" by (simp_all add: sl_def pl_def)
  show ok: "length (kv_keys (snd (sl ! i))) = length (kv_vals (snd (sl ! i))) \<and> distinct (kv_keys (snd (sl ! i)))" if "i < s" for i
    using whole(3) [OF that] part(1) [OF that, of vals] sorted(2) by (simp add: sl_def)
  have empty: "kv_keys (snd (sl ! i)) = []" "kv_vals (snd (sl ! i)) = []" if "i < s" "\<not> fst (sl ! i)" for i
    using part(2) [OF that(1), of vals] that(2) ok [OF that(1)] by (auto simp: sl_def)
  show parts: "concat (map (\<lambda>i. kv_keys (snd (sl ! i))) (slots_of sl)) = keys" and "concat (map (\<lambda>i. kv_vals (snd (sl ! i))) (slots_of sl)) = vals"
    using slots_parts [of sl kv_keys] slots_parts [of sl kv_vals] empty whole(1,2) by (simp_all add: sl_def)
  show same: "fst (pl ! i) = fst (sl ! i) \<and> kv_keys (snd (pl ! i)) = kv_keys (snd (sl ! i))" if "i < s" for i
    using part [OF that, of vals] part [OF that, of "[] :: 'v list"] by (simp add: sl_def pl_def)
  show "slots_of pl = slots_of sl" unfolding slots_of_def using same by (intro filter_cong) (auto simp: sl_def pl_def)
  show "kv_keys (snd (sl ! i)) \<noteq> []" if "i \<in> set (slots_of sl)" for i using that part(2) [of i vals] by (auto simp: slots_of_def sl_def)
  show "slots_of sl \<noteq> []" using parts keys(3) by auto
qed

text \<open>The answers to a pull complete it, in whatever order they come.\<close>

lemma answers_complete:
  fixes w :: "'v::{zero,plus} KVWorker" and sl :: "(bool \<times> 'v KVPairs) list" and kv_id ts zc L gid
  defines "answer \<equiv> \<lambda>i. pull_response kv_id ts (if zc \<and> i \<in> L then 2 else 0 :: int, gid, snd (sl ! i))"
  assumes parts: "concat (map (\<lambda>i. kv_keys (snd (sl ! i))) (slots_of sl)) = keys" "concat (map (\<lambda>i. kv_vals (snd (sl ! i))) (slots_of sl)) = vals"
    and keys: "sorted_wrt (<) keys" and slot: "\<And>i. i \<in> set (slots_of sl) \<Longrightarrow> kv_keys (snd (sl ! i)) \<noteq> []" and ne: "slots_of sl \<noteq> []"
    and pend: "pending kv_id ts (length (slots_of sl)) (PullCallback cb) [] w" and bins: "mset bins = mset (map answer (slots_of sl))"
  shows "\<exists>w'. foldE (worker_Receiving rm) bins w = Inr w' \<and> request_done (kw_tracker w') kv_id ts = Inr True \<and> kw_results w' = kw_results w @ [((kv_id, ts), Vals vals)]"
proof -
  let ?r = "\<lambda>i. (if zc \<and> i \<in> L then 2 else 0 :: int, gid, snd (sl ! i))"
  obtain js where js: "bins = map answer js" "mset js = mset (slots_of sl)" using mset_map_preimage [OF bins] by blast
  have set: "set js = set (slots_of sl)" "length js = length (slots_of sl)" using js(2) by (metis set_mset_mset, metis size_mset)
  have "pull_callback (map (\<lambda>i. snd (sl ! i)) js) = concat (map kv_vals (map (\<lambda>i. snd (sl ! i)) (slots_of sl)))"
    using js(2) parts(1) keys slot by (intro pull_callback_perm) (simp_all add: comp_def)
  then have "pull_callback (map (\<lambda>i. snd (sl ! i)) js) = vals" using parts(2) by (simp add: comp_def)
  moreover have all: "length (map ?r js) = length (slots_of sl)" "0 < length (slots_of sl)"
    "\<forall>r \<in> set (map ?r js). plain_cmd (fst r) \<and> kv_keys (snd (snd r)) \<noteq> []"
    using set ne slot by (simp_all add: plain_cmd_def)
  moreover obtain w' where "foldE (\<lambda>r. worker_Receiving rm (pull_response kv_id ts r)) (map ?r js) w = Inr w'"
    "tracker_get (kw_tracker w') kv_id ts = Inr (int (length (slots_of sl)), int (length (slots_of sl)))"
    "kw_results w' = kw_results w @ [((kv_id, ts), Vals (pull_callback (map (\<lambda>r. snd (snd r)) (map ?r js))))]"
    using worker_Receiving_all [OF pend all, of rm] by (elim exE conjE) (rule that; assumption)
  ultimately show ?thesis using request_done_iff [of "kw_tracker w'" kv_id ts] by (intro exI [of _ w']) (simp add: js(1) foldE_map comp_def answer_def)
qed


definition example_info :: PSInfo where
  "example_info = \<lparr>ps_channel_id = 37, ps_global_id = 2, ps_num_ps_servers = 2,
     ps_local_server_ids = {0}, ps_server_id_to_global_id = [0 \<mapsto> 4, 1 \<mapsto> 5]\<rparr>"

definition example_manager :: "nat \<Rightarrow> int KVManager" where
  "example_manager i = CreateKVManager 0 (default_server 0 i (MapStore Map.empty) False True) mk_KVManager"

lemma example_cluster: "map_cluster example_info 0 2 [4 \<mapsto> example_manager 0, 5 \<mapsto> example_manager 1]"
  by (auto simp: map_cluster_def example_info_def get_tid_def inj_on_def less_2_cases_iff map_server_def example_manager_def
      CreateKVManager_def default_server_def mk_KVManager_def)

definition example_client :: "int KVWorker" where
  "example_client = (mk_KVWorker example_info)\<lparr>kw_process_map := {0}\<rparr>"


section \<open>Wiring\<close>

lemma nested_upt_mem:
  "(a, b) \<in> set (concat (map (\<lambda>i. map (\<lambda>j. (f i j, g i j)) [0..<S]) [0..<P])) \<longleftrightarrow> (\<exists>i < P. \<exists>j < S. a = f i j \<and> b = g i j)"
  by (fastforce simp: image_iff)

lemma server_id_inj: "i < P \<Longrightarrow> i' < P \<Longrightarrow> i + j * P = i' + j' * (P :: nat) \<Longrightarrow> i = i' \<and> j = j'"
proof -
  assume i: "i < P" "i' < P" and eq: "i + j * P = i' + j' * P"
  then have "(i + j * P) mod P = (i' + j' * P) mod P" by simp
  then have "i = i'" using i by simp
  then show ?thesis using eq i by simp
qed

lemma server2global_eq:
  assumes "i < wi_num_processes wi" "j < S"
  shows "server2global wi S (i + j * wi_num_processes wi) = Some (int (server_tid wi i j))"
proof -
  let ?P = "wi_num_processes wi"
  let ?xs = "concat (map (\<lambda>i. map (\<lambda>j. (i + j * ?P, int (server_tid wi i j))) [0..<S]) [0..<?P])"
  have mem: "(i + j * ?P, int (server_tid wi i j)) \<in> set ?xs" unfolding nested_upt_mem using assms by blast
  from weak_map_of_SomeI [OF this] obtain v where v: "map_of ?xs (i + j * ?P) = Some v" by (rule exE)
  then have "(i + j * ?P, v) \<in> set ?xs" by (rule map_of_SomeD)
  then obtain i' j' where "i' < ?P" "i + j * ?P = i' + j' * ?P" "v = int (server_tid wi i' j')" unfolding nested_upt_mem by blast
  then have "v = int (server_tid wi i j)" using server_id_inj [OF assms(1)] by blast
  then show ?thesis using v by (simp add: server2global_def)
qed

lemma server_mailboxes:
  assumes "me < P"
  shows "map snd (filter (\<lambda>p. fst p = me) (concat (map (\<lambda>i. map (\<lambda>j. (i, f i j)) [0..<S]) [0..<P]))) = map (f me) [0..<S]"
proof -
  have one: "map snd (filter (\<lambda>p. fst p = me) (map (\<lambda>j. (i, f i j)) [0..<S])) = (if i = me then map (f me) [0..<S] else [])" for i
    by (simp add: filter_map comp_def)
  have pick: "concat (map (\<lambda>i. if i = me then xs else []) [0..<n]) = (if me < n then xs else [])" for n and xs :: "'a list"
    by (induction n) (auto simp: less_Suc_eq)
  show ?thesis using pick [of "map (f me) [0..<S]" P] assms by (simp add: filter_concat map_concat comp_def one)
qed

text \<open>
  C17. The thread ids of a cluster fit together: after \<^verbatim>\<open>Start\<close> on every process (the same worker information but for the process id),
  every server id below the number of servers belongs to exactly one slot \<open>j\<close> of one process \<open>i\<close>; the process has a manager
  and a mailbox for it, the thread id of that mailbox is the one that every worker of the cluster uses to send to this server, and it
  is neither the id of a worker mailbox nor of another server.
\<close>

theorem start_wiring:
  assumes "wi_num_processes wi = P" "k < P * S" "me < P"
    and "ks = (\<lambda>i. Start (wi\<lparr>wi_process_id := i\<rparr>) S (init_KVStore :: 'v KVStore))"
    and "pid = k mod P" "slot = k div P"
  shows "pid < P \<and> slot < S \<and> length (ks_kvservers (ks pid)) = S
     \<and> (\<forall>i < P. \<forall>j < S. ks_server_ids (ks i) ! j = k \<longleftrightarrow> i = pid \<and> j = slot)
     \<and> (\<forall>i < P. \<forall>j < S. ks_kvserver_mailboxes (ks i) ! j = ks_kvserver_mailboxes (ks pid) ! slot \<longleftrightarrow> i = pid \<and> j = slot)
     \<and> (\<forall>w \<in> set (ks_kvworkers (ks me)). get_tid (kw_info w) k = int (ks_kvserver_mailboxes (ks pid) ! slot)
          \<and> ps_num_ps_servers (kw_info w) = rm_num_servers (ks_rm (ks me))
          \<and> (k \<in> ps_local_server_ids (kw_info w) \<longleftrightarrow> pid = me)
          \<and> ps_global_id (kw_info w) \<noteq> get_tid (kw_info w) k)"
proof -
  have pid: "pid < P" "slot < S" "k = pid + slot * P" using assms by (simp_all add: less_mult_imp_div_less mult.commute)
  have ids: "ks_server_ids (ks i) ! j = i + j * P" "ks_kvserver_mailboxes (ks i) ! j = 2 * wi_num_workers wi + j * P + i" if "i < P" "j < S" for i j
    using that assms(1) server_mailboxes [of i P "server_tid (wi\<lparr>wi_process_id := i\<rparr>)" S]
    by (simp_all add: assms(4) Start_def Let_def init_KVStore_def server_tid_def add.commute)
  have key: "i + j * P = k \<longleftrightarrow> i = pid \<and> j = slot" if "i < P" for i j
    using server_id_inj [OF that pid(1)] pid(3) by auto
  have tid: "get_tid (kw_info w) k = int (2 * wi_num_workers wi + k)" "ps_num_ps_servers (kw_info w) = int (P * S)"
    "k \<in> ps_local_server_ids (kw_info w) \<longleftrightarrow> pid = me" "ps_global_id (kw_info w) \<noteq> get_tid (kw_info w) k"
    if w: "w \<in> set (ks_kvworkers (ks me))" for w
  proof -
    let ?wi = "wi\<lparr>wi_process_id := me\<rparr>"
    obtain v where v: "v < wi_num_workers wi" "kw_info w = ps_info ?wi S v"
      using w by (auto simp: assms(4) Start_def Let_def init_KVStore_def mk_KVWorker_def)
    have "server2global ?wi S k = Some (int (server_tid ?wi pid slot))"
      using server2global_eq [of pid ?wi slot S] pid assms(1) by simp
    then show t: "get_tid (kw_info w) k = int (2 * wi_num_workers wi + k)"
      using pid(3) assms(1) by (simp add: v(2) get_tid_def ps_info_def server_tid_def)
    show "k \<in> ps_local_server_ids (kw_info w) \<longleftrightarrow> pid = me"
    proof -
      have "(\<exists>j < S. k = me + j * P) \<longleftrightarrow> pid = me" using key [OF assms(3)] pid(2) by metis
      then show ?thesis using assms(1) by (auto simp: v(2) ps_info_def)
    qed
    show "ps_num_ps_servers (kw_info w) = int (P * S)" "ps_global_id (kw_info w) \<noteq> get_tid (kw_info w) k"
      unfolding t using v assms(1) by (simp_all add: ps_info_def)
  qed
  have rm: "rm_num_servers (ks_rm (ks i)) = int (P * S)" "length (ks_kvservers (ks i)) = S" for i
    using assms(1) by (simp_all add: assms(4) Start_def Let_def init_KVStore_def SetNumServers_def)
  show ?thesis
    using pid ids key tid rm by (auto simp: add.commute)
qed

definition example_info_of :: WorkerInfo where
  "example_info_of = \<lparr>wi_num_workers = 4, wi_num_processes = 2, wi_process_id = 0, wi_proc_of = (\<lambda>i. i div 2)\<rparr>"

theorem start_wiring_witness:
  "list_all (\<lambda>w. get_tid (kw_info w) 5 = int (ks_kvserver_mailboxes (Start (example_info_of\<lparr>wi_process_id := 5 mod 2\<rparr>) 3 (init_KVStore :: int KVStore)) ! (5 div 2)))
     (ks_kvworkers (Start (example_info_of\<lparr>wi_process_id := 0\<rparr>) 3 (init_KVStore :: int KVStore)))"
  using start_wiring [of example_info_of 2 5 3 0, OF _ _ _ refl refl refl, where 'v = int]
  by (simp add: example_info_of_def list_all_iff)

section \<open>Stores of the factory\<close>

lemma interval_of_table:
  assumes "table_for rm kid N c s" "params_ok N c s" "i < s" "key_bound N c s i < 2 ^ 31"
  shows "interval_of rm kid i True = Inr (range_begin (key_range N c s i))"
proof -
  have N: "N < 2 ^ 64" using assms(2) by (simp add: params_ok_def)
  let ?b = "range_begin (key_range N c s i)"
  have "uint ?b < 2 ^ 31" using unat_key_range(1) [OF N] assms(4) by (metis of_nat_less_iff of_nat_numeral of_nat_power uint_nat)
  then have "sint (ucast ?b :: u32) = uint ?b" using sint_ucast_u32 by simp
  then show ?thesis using assms(1,3) by (simp add: interval_of_def GetServerInterval_def vec_get_def table_for_def)
qed

lemma vector_store_table:
  assumes "table_for rm kid N c s" "params_ok N c s" "N < 2 ^ 64 - 1" "i < s"
  shows "vector_store rm kid i = Inr (VecStore (replicate (unat (range_size (key_range N c s i))) (0 :: 'v::zero)))"
proof -
  have "of_nat N \<noteq> key_max"
  proof
    assume "of_nat N = key_max"
    then have "unat (of_nat N :: u64) = unat key_max" by simp
    then show False using assms(3) by (simp add: key_max_def unat_of_nat_u64 unsigned_minus_1_eq_mask mask_eq_exp_minus_1)
  qed
  then show ?thesis
    using assms(1,4) by (simp add: vector_store_def GetMaxKey_def GetServerSize_def vec_get_def table_for_def rm_wf_def resize_def)
qed

text \<open>The keys that go to server \<open>i\<close>, counted.\<close>

lemma keys_of_server_card:
  assumes "table_for rm kid N c s" "params_ok N c s" "i < s"
  shows "card {k'. unat k' < N \<and> GetServerFromKey kid k' rm = Inr (int i)} = key_bound N c s (Suc i) - key_bound N c s i"
proof -
  have "{k' :: u64. unat k' < N \<and> GetServerFromKey kid k' rm = Inr (int i)} = {k'. key_bound N c s i \<le> unat k' \<and> unat k' < key_bound N c s (Suc i)}"
  proof (intro equalityI subsetI)
    fix k' :: u64 assume "k' \<in> {k'. unat k' < N \<and> GetServerFromKey kid k' rm = Inr (int i)}"
    then show "k' \<in> {k'. key_bound N c s i \<le> unat k' \<and> unat k' < key_bound N c s (Suc i)}"
      using GetServerFromKey_bounds [OF assms(1,2), of k'] by auto
  next
    fix k' :: u64 assume k': "k' \<in> {k'. key_bound N c s i \<le> unat k' \<and> unat k' < key_bound N c s (Suc i)}"
    have "unat k' < N" using k' key_bound_le [of N c s "Suc i"] less_le_trans by blast
    then show "k' \<in> {k'. unat k' < N \<and> GetServerFromKey kid k' rm = Inr (int i)}"
      using GetServerFromKey_bounds [OF assms(1,2), of k'] k' tile_unique [of "key_bound N c s" i "unat k'"] key_bound_mono by auto
  qed
  also have "card \<dots> = key_bound N c s (Suc i) - key_bound N c s i"
  proof -
    have b: "key_bound N c s (Suc i) < 2 ^ 64" using assms(2) key_bound_le [of N c s "Suc i"] unfolding params_ok_def by linarith
    have "bij_betw unat {k' :: u64. key_bound N c s i \<le> unat k' \<and> unat k' < key_bound N c s (Suc i)} {key_bound N c s i ..< key_bound N c s (Suc i)}"
      by (rule bij_betw_byWitness [where f' = of_nat]) (use b in \<open>auto simp: unat_of_nat_u64\<close>)
    then show ?thesis by (simp add: bij_betw_same_card)
  qed
  finally show ?thesis .
qed

text \<open>
  The vector stores are large enough: for a table whose ranges start below \<open>2^31\<close>, a vector server that the factory builds
  for server \<open>i\<close> has a slot for every key that \<^verbatim>\<open>GetServerFromKey\<close> sends to server \<open>i\<close>, different keys have
  different slots, and there is no other slot.
\<close>

theorem vector_store_in_bounds:
  fixes k :: u64
  assumes "table_for rm kid N c s" "params_ok N c s" "N < 2 ^ 64 - 1" "unat k < N" "GetServerFromKey kid k rm = Inr (int i)"
    and "\<forall>i < s. key_bound N c s i < 2 ^ 31"
  shows "\<exists>xs iv. vector_store rm kid i = Inr (VecStore xs) \<and> interval_of rm kid i True = Inr iv
     \<and> iv \<le> k \<and> unat (k - iv) = unat k - unat iv \<and> store_valid (VecStore (xs :: 'v::zero list)) (k - iv)
     \<and> length xs = card {k'. unat k' < N \<and> GetServerFromKey kid k' rm = Inr (int i)}"
proof -
  have N: "N < 2 ^ 64" using assms(2) by (simp add: params_ok_def)
  obtain j where "j < s" "GetServerFromKey kid k rm = Inr (int j)" "key_bound N c s j \<le> unat k" "unat k < key_bound N c s (Suc j)"
    using GetServerFromKey_bounds [OF assms(1,2,4)] by auto
  then have i: "i < s" "key_bound N c s i \<le> unat k" "unat k < key_bound N c s (Suc i)" using assms(5) by simp_all
  let ?r = "key_range N c s i"
  have u: "unat (range_begin ?r) = key_bound N c s i" "unat (range_end ?r) = key_bound N c s (Suc i)" using unat_key_range [OF N] by simp_all
  have le: "range_begin ?r \<le> range_end ?r" "range_begin ?r \<le> k" using u i by (simp_all add: u64_le_iff)
  have size: "unat (range_size ?r) = key_bound N c s (Suc i) - key_bound N c s i"
    using unat_sub [OF le(1)] u by (simp add: range_size_def)
  show ?thesis
    using vector_store_table [OF assms(1-3) i(1)] keys_of_server_card [OF assms(1,2) i(1)] interval_of_table [OF assms(1,2) i(1)] assms(6) i le unat_sub [OF le(2)] u size by (auto intro!: exI)
qed

theorem vector_store_in_bounds_witness:
  "\<exists>rm xs iv. SetMaxKeyAndChunkSize 0 13 (int 5) two_servers = Inr rm \<and> vector_store rm 0 1 = Inr (VecStore (xs :: int list))
     \<and> interval_of rm 0 1 True = Inr iv \<and> store_valid (VecStore xs) (11 - iv)"
proof -
  obtain rm where rm: "SetMaxKeyAndChunkSize 0 13 (int 5) two_servers = Inr rm" "table_for rm 0 (unat (13 :: u64)) 5 2"
    using example_table by auto
  obtain j where j: "j < 2" "GetServerFromKey 0 11 rm = Inr (int j)" "unat (11 :: u64) < key_bound (unat (13 :: u64)) 5 2 (Suc j)"
    using GetServerFromKey_bounds [OF rm(2) two_servers_ok(3), of 11] by auto
  have bounds: "key_bound 13 5 2 (Suc 0) = 10" "\<forall>i < 2. key_bound 13 5 2 i < 2 ^ 31"
    by (auto simp: key_bound_def chunk_bound_def num_chunks_def less_2_cases_iff)
  then have "j = 1" using j by (auto simp: less_2_cases_iff)
  then show ?thesis
    using vector_store_in_bounds [OF rm(2) two_servers_ok(3), of 11 1, where 'v = int] j bounds rm(1) by auto
qed

definition factory_hints :: "string list" where
  "factory_hints = [''default_assign_map'', ''default_add_map'', ''bsp_add_map'', ''ssp_add_map'',
     ''default_assign_vector'', ''default_add_vector'', ''bsp_add_vector'', ''ssp_add_vector'']"

fun server_store :: "'v server \<Rightarrow> 'v store" where
  "server_store (DefaultS s) = ds_store s"
| "server_store (BspS s) = bsp_store s"
| "server_store (SspS s) = ssp_store s"

fun server_assigns :: "'v server \<Rightarrow> bool" where
  "server_assigns (DefaultS s) = ds_is_assign s"
| "server_assigns (BspS s) = bsp_is_assign s"
| "server_assigns (SspS s) = False"

text \<open>
  The factory builds an empty server for each of its eight hints and a failed assertion for any other one. Of the five hints
  that ask for addition, \<^verbatim>\<open>default_add_map\<close> alone gives a server that assigns.
\<close>

theorem ServerFactory_servers:
  assumes "table_for rm kid N c s" "params_ok N c s" "N < 2 ^ 64 - 1" "i < s" "0 \<le> staleness" "staleness \<le> 10"
  shows "if hint \<in> set factory_hints
     then \<exists>sv. ServerFactory rm kid hint num_workers staleness i = Inr (sv :: 'v::zero server)
          \<and> (\<forall>k. store_obs (server_store sv) k = 0)
          \<and> (server_assigns sv \<longleftrightarrow> hint \<in> {''default_assign_map'', ''default_assign_vector'', ''default_add_map''})
     else (ServerFactory rm kid hint num_workers staleness i :: error + 'v server) = Inl AssertFailed"
  using assms(5,6) vector_store_table [OF assms(1-4), where 'v = 'v]
  by (auto simp: factory_hints_def ServerFactory_def default_server_def mk_BSPServer_def mk_SSPServer_def nth_or_def)

theorem ServerFactory_servers_witness:
  "\<exists>rm sv. SetMaxKeyAndChunkSize 0 13 (int 5) two_servers = Inr rm
     \<and> ServerFactory rm 0 ''ssp_add_vector'' 4 2 1 = Inr (sv :: int server) \<and> \<not> server_assigns sv"
proof -
  obtain rm where rm: "SetMaxKeyAndChunkSize 0 13 (int 5) two_servers = Inr rm" "table_for rm 0 (unat (13 :: u64)) 5 2"
    using example_table by auto
  from ServerFactory_servers [OF rm(2) two_servers_ok(3), of 1 2 "''ssp_add_vector''" 4, where 'v = int] rm(1)
  show ?thesis by (auto simp: factory_hints_def)
qed

end
