(* ===== verification/Task_Core.thy ===== *)
theory Task_Core
  imports Prelude
begin

text \<open>
  Tasks and instances: \<^verbatim>\<open>core/task.hpp\<close>, \<^verbatim>\<open>core/instance.hpp\<close>, \<^verbatim>\<open>core/instance.cpp\<close>, and the store and the
  factory in which the worker keeps its tasks (\<^verbatim>\<open>worker/task_store.hpp\<close>, \<^verbatim>\<open>worker/task_factory.hpp\<close>,
  \<^verbatim>\<open>Worker::send_tasks_to_cluster_manager\<close>).

  A task is its base part and what its class adds. The member \<open>t_type\<close> is a field of the base part, as in the code, and need not agree
  with the class; \<open>task_wf\<close> says that it does. The user function of a task is a number: it is never sent.
  A default-constructed \<^verbatim>\<open>Instance\<close> holds no task; every use sets the task first, so an instance is made with its task.
  The cluster of an instance is an unordered map; where the code iterates over it, the order of the keys is an argument.
  Messages are sequences of typed fields, as in the theory of the parameter server.
\<close>

section \<open>Model\<close>

subsection \<open>Tasks\<close>

datatype task_type = BasicTaskType | ConfigurableWorkersTaskType | AutoParallelismTaskType

record TaskBase =
  t_id :: int
  t_total_epoch :: int
  t_current_epoch :: int
  t_num_workers :: int
  t_type :: task_type
  t_local :: bool
  t_dmt :: bool

datatype Task =
    Basic TaskBase
  | ConfigurableWorkers TaskBase (worker_num: "int list") (worker_num_type: "string list")
  | AutoParallelism TaskBase (epoch_iters: "int list") (current_stage_iters: int) (batchsizes: "int list")

fun base :: "Task \<Rightarrow> TaskBase" where
  "base (Basic b) = b"
| "base (ConfigurableWorkers b ns ts) = b"
| "base (AutoParallelism b is n bs) = b"

fun map_base :: "(TaskBase \<Rightarrow> TaskBase) \<Rightarrow> Task \<Rightarrow> Task" where
  "map_base f (Basic b) = Basic (f b)"
| "map_base f (ConfigurableWorkers b ns ts) = ConfigurableWorkers (f b) ns ts"
| "map_base f (AutoParallelism b is n bs) = AutoParallelism (f b) is n bs"

definition mk_base :: "int \<Rightarrow> int \<Rightarrow> int \<Rightarrow> task_type \<Rightarrow> TaskBase" where
  "mk_base i total_epoch num_workers ty = \<lparr>t_id = i, t_total_epoch = total_epoch, t_current_epoch = 0, t_num_workers = num_workers,
     t_type = ty, t_local = False, t_dmt = False\<rparr>"

definition mk_Task :: "int \<Rightarrow> int \<Rightarrow> int \<Rightarrow> Task" where
  "mk_Task i total_epoch num_workers = Basic (mk_base i total_epoch num_workers BasicTaskType)"

definition mk_ConfigurableWorkersTask :: "int \<Rightarrow> int \<Rightarrow> int \<Rightarrow> Task" where
  "mk_ConfigurableWorkersTask i total_epoch num_workers =
     ConfigurableWorkers (mk_base i total_epoch num_workers ConfigurableWorkersTaskType) [] []"

definition mk_AutoParallelismTask :: "int \<Rightarrow> Task" where
  "mk_AutoParallelismTask i = AutoParallelism (mk_base i 1 0 AutoParallelismTaskType) [] 0 []"

definition inc_epoch :: "Task \<Rightarrow> Task" where
  "inc_epoch = map_base (\<lambda>b. b\<lparr>t_current_epoch := t_current_epoch b + 1\<rparr>)"

definition set_num_workers :: "int \<Rightarrow> Task \<Rightarrow> Task" where
  "set_num_workers n = map_base (\<lambda>b. b\<lparr>t_num_workers := n\<rparr>)"

definition set_total_epoch :: "int \<Rightarrow> Task \<Rightarrow> Task" where
  "set_total_epoch n = map_base (\<lambda>b. b\<lparr>t_total_epoch := n\<rparr>)"

fun set_epoch_iters :: "int list \<Rightarrow> Task \<Rightarrow> error + Task" where
  "set_epoch_iters iters (AutoParallelism b is n bs) =
     bindE (assertE (iters \<noteq> [])) (\<lambda>_. Inr (set_total_epoch (int (length iters)) (AutoParallelism b iters n bs)))"
| "set_epoch_iters iters _ = Inl UndefinedBehaviour"

fun set_epoch_iters_and_batchsizes :: "int list \<Rightarrow> int list \<Rightarrow> Task \<Rightarrow> error + Task" where
  "set_epoch_iters_and_batchsizes iters sizes (AutoParallelism b is n bs) =
     bindE (assertE (iters \<noteq> [])) (\<lambda>_. bindE (assertE (length iters = length sizes)) (\<lambda>_.
     Inr (set_total_epoch (int (length iters)) (AutoParallelism b iters n sizes))))"
| "set_epoch_iters_and_batchsizes iters sizes _ = Inl UndefinedBehaviour"

fun set_current_stage_iters :: "int \<Rightarrow> Task \<Rightarrow> error + Task" where
  "set_current_stage_iters k (AutoParallelism b is n bs) = Inr (AutoParallelism b is k bs)"
| "set_current_stage_iters k _ = Inl UndefinedBehaviour"

subsection \<open>Messages\<close>

datatype field = TInt int | TBool bool | TType task_type | TSize nat | TStr string

type_synonym stream = "field list"

fun read_int :: "stream \<Rightarrow> error + (int \<times> stream)" where
  "read_int (TInt i # b) = Inr (i, b)"
| "read_int _ = Inl BadMessage"

fun read_bool :: "stream \<Rightarrow> error + (bool \<times> stream)" where
  "read_bool (TBool x # b) = Inr (x, b)"
| "read_bool _ = Inl BadMessage"

fun read_type :: "stream \<Rightarrow> error + (task_type \<times> stream)" where
  "read_type (TType t # b) = Inr (t, b)"
| "read_type _ = Inl BadMessage"

fun read_size :: "stream \<Rightarrow> error + (nat \<times> stream)" where
  "read_size (TSize n # b) = Inr (n, b)"
| "read_size _ = Inl BadMessage"

fun read_str :: "stream \<Rightarrow> error + (string \<times> stream)" where
  "read_str (TStr s # b) = Inr (s, b)"
| "read_str _ = Inl BadMessage"

fun read_items :: "(stream \<Rightarrow> error + ('a \<times> stream)) \<Rightarrow> nat \<Rightarrow> stream \<Rightarrow> error + ('a list \<times> stream)" where
  "read_items rd 0 b = Inr ([], b)"
| "read_items rd (Suc n) b = bindE (rd b) (\<lambda>(x, b). bindE (read_items rd n b) (\<lambda>(xs, b). Inr (x # xs, b)))"

definition write_vec :: "('a \<Rightarrow> stream) \<Rightarrow> 'a list \<Rightarrow> stream" where
  "write_vec wr xs = TSize (length xs) # concat (map wr xs)"

definition read_vec :: "(stream \<Rightarrow> error + ('a \<times> stream)) \<Rightarrow> stream \<Rightarrow> error + ('a list \<times> stream)" where
  "read_vec rd b = bindE (read_size b) (\<lambda>(n, b). read_items rd n b)"

definition write_pair :: "int \<times> int \<Rightarrow> stream" where
  "write_pair p = [TInt (fst p), TInt (snd p)]"

definition read_pair :: "stream \<Rightarrow> error + ((int \<times> int) \<times> stream)" where
  "read_pair b = bindE (read_int b) (\<lambda>(x, b). bindE (read_int b) (\<lambda>(y, b). Inr ((x, y), b)))"

definition base_serialize :: "TaskBase \<Rightarrow> stream" where
  "base_serialize b = [TInt (t_id b), TInt (t_total_epoch b), TInt (t_current_epoch b), TInt (t_num_workers b), TType (t_type b),
     TBool (t_local b), TBool (t_dmt b)]"

definition base_deserialize :: "stream \<Rightarrow> error + (TaskBase \<times> stream)" where
  "base_deserialize b =
     bindE (read_int b) (\<lambda>(i, b). bindE (read_int b) (\<lambda>(te, b). bindE (read_int b) (\<lambda>(ce, b). bindE (read_int b) (\<lambda>(nw, b).
     bindE (read_type b) (\<lambda>(ty, b). bindE (read_bool b) (\<lambda>(lo, b). bindE (read_bool b) (\<lambda>(dm, b).
     Inr (\<lparr>t_id = i, t_total_epoch = te, t_current_epoch = ce, t_num_workers = nw, t_type = ty, t_local = lo, t_dmt = dm\<rparr>, b))))))))"

text \<open>The virtual \<^verbatim>\<open>serialize\<close> of the three classes.\<close>

fun serialize :: "Task \<Rightarrow> stream" where
  "serialize (Basic b) = base_serialize b"
| "serialize (ConfigurableWorkers b ns ts) = base_serialize b @ write_vec (\<lambda>i. [TInt i]) ns @ write_vec (\<lambda>s. [TStr s]) ts"
| "serialize (AutoParallelism b is n bs) = base_serialize b @ write_vec (\<lambda>i. [TInt i]) is @ [TInt n] @ write_vec (\<lambda>i. [TInt i]) bs"

text \<open>\<^verbatim>\<open>task::deserialize\<close>: the type in front decides the class.\<close>

definition deserialize :: "stream \<Rightarrow> error + (Task \<times> stream)" where
  "deserialize b =
     bindE (read_type b) (\<lambda>(ty, b).
     case ty of
       BasicTaskType \<Rightarrow> bindE (base_deserialize b) (\<lambda>(t, b). Inr (Basic t, b))
     | ConfigurableWorkersTaskType \<Rightarrow>
         bindE (base_deserialize b) (\<lambda>(t, b). bindE (read_vec read_int b) (\<lambda>(ns, b). bindE (read_vec read_str b) (\<lambda>(ts, b).
         Inr (ConfigurableWorkers t ns ts, b))))
     | AutoParallelismTaskType \<Rightarrow>
         bindE (base_deserialize b) (\<lambda>(t, b). bindE (read_vec read_int b) (\<lambda>(is, b). bindE (read_int b) (\<lambda>(n, b).
         bindE (read_vec read_int b) (\<lambda>(bs, b). Inr (AutoParallelism t is n bs, b))))))"

definition extract_tasks :: "stream \<Rightarrow> error + (Task list \<times> stream)" where
  "extract_tasks = read_vec deserialize"

subsection \<open>The task store of a worker\<close>

record TaskStore =
  ts_task_map :: "int \<rightharpoonup> Task \<times> nat"
  ts_buffered :: "int list"

definition mk_TaskStore :: TaskStore where
  "mk_TaskStore = \<lparr>ts_task_map = Map.empty, ts_buffered = []\<rparr>"

definition add_task :: "Task \<Rightarrow> nat \<Rightarrow> TaskStore \<Rightarrow> TaskStore" where
  "add_task task func ts =
     (let tid = t_id (base task) in
      case ts_task_map ts tid of
        None \<Rightarrow> ts\<lparr>ts_task_map := (ts_task_map ts)(tid \<mapsto> (task, func)), ts_buffered := ts_buffered ts @ [tid]\<rparr>
      | Some x \<Rightarrow> if tid \<in> set (ts_buffered ts) then ts else ts\<lparr>ts_buffered := ts_buffered ts @ [tid]\<rparr>)"

definition clear_buffered_tasks :: "TaskStore \<Rightarrow> TaskStore" where
  "clear_buffered_tasks ts = ts\<lparr>ts_buffered := []\<rparr>"

text \<open>\<^verbatim>\<open>CreateTask\<close> hands out the ids 0, 1, ...\<close>

definition CreateTask :: "(int \<Rightarrow> Task) \<Rightarrow> int \<Rightarrow> Task \<times> int" where
  "CreateTask mk task_id = (mk task_id, task_id + 1)"

text \<open>The message of \<^verbatim>\<open>send_tasks_to_cluster_manager\<close>; only process 0 sends one.\<close>

definition tasks_message :: "TaskStore \<Rightarrow> error + stream" where
  "tasks_message ts =
     bindE (mapE (\<lambda>i. case ts_task_map ts i of None \<Rightarrow> Inl UndefinedBehaviour
                     | Some (task, func) \<Rightarrow> Inr (TType (t_type (base task)) # serialize task)) (ts_buffered ts)) (\<lambda>bs.
     Inr (TSize (length (ts_buffered ts)) # concat bs))"

definition send_tasks_to_cluster_manager :: "nat \<Rightarrow> TaskStore \<Rightarrow> error + (stream option \<times> TaskStore)" where
  "send_tasks_to_cluster_manager process_id ts =
     (if process_id = 0 then bindE (tasks_message ts) (\<lambda>bin. Inr (Some bin, clear_buffered_tasks ts)) else Inr (None, ts))"

subsection \<open>Instances\<close>

record Instance =
  inst_task :: Task
  inst_cluster :: "int \<rightharpoonup> (int \<times> int) list"     \<comment> \<open>process, (thread, id in this instance)\<close>

definition set_task :: "Task \<Rightarrow> error + Task" where
  "set_task task =
     (case t_type (base task) of
        BasicTaskType \<Rightarrow> Inr (Basic (base task))
      | ConfigurableWorkersTaskType \<Rightarrow> (case task of ConfigurableWorkers b ns ts \<Rightarrow> Inr task | _ \<Rightarrow> Inl UndefinedBehaviour)
      | AutoParallelismTaskType \<Rightarrow> (case task of AutoParallelism b is n bs \<Rightarrow> Inr task | _ \<Rightarrow> Inl UndefinedBehaviour))"

definition new_Instance :: "Task \<Rightarrow> error + Instance" where
  "new_Instance task = bindE (set_task task) (\<lambda>t. Inr \<lparr>inst_task = t, inst_cluster = Map.empty\<rparr>)"

definition inst_id :: "Instance \<Rightarrow> int" where
  "inst_id inst = t_id (base (inst_task inst))"

definition inst_epoch :: "Instance \<Rightarrow> int" where
  "inst_epoch inst = t_current_epoch (base (inst_task inst))"

definition inst_num_workers :: "Instance \<Rightarrow> int" where
  "inst_num_workers inst = t_num_workers (base (inst_task inst))"

definition inst_set_num_workers :: "int \<Rightarrow> Instance \<Rightarrow> Instance" where
  "inst_set_num_workers n inst = inst\<lparr>inst_task := set_num_workers n (inst_task inst)\<rparr>"

definition get_threads :: "int \<Rightarrow> Instance \<Rightarrow> (int \<times> int) list" where
  "get_threads proc_id inst = (case inst_cluster inst proc_id of None \<Rightarrow> [] | Some ts \<Rightarrow> ts)"

definition get_num_threads :: "int list \<Rightarrow> Instance \<Rightarrow> nat" where
  "get_num_threads order inst = sum_list (map (\<lambda>p. length (get_threads p inst)) order)"

definition add_thread :: "int \<Rightarrow> int \<Rightarrow> int \<Rightarrow> Instance \<Rightarrow> Instance" where
  "add_thread proc_id tid i inst =
     inst\<lparr>inst_cluster := (inst_cluster inst)(proc_id \<mapsto> get_threads proc_id inst @ [(tid, i)])\<rparr>"

definition inst_serialize :: "int list \<Rightarrow> Instance \<Rightarrow> stream" where
  "inst_serialize order inst =
     TType (t_type (base (inst_task inst))) # serialize (inst_task inst)
       @ TSize (length order) # concat (map (\<lambda>p. TInt p # write_vec write_pair (get_threads p inst)) order)"

definition read_entry :: "stream \<Rightarrow> error + ((int \<times> (int \<times> int) list) \<times> stream)" where
  "read_entry b = bindE (read_int b) (\<lambda>(k, b). bindE (read_vec read_pair b) (\<lambda>(v, b). Inr ((k, v), b)))"

text \<open>\<^verbatim>\<open>unordered_map::insert\<close> keeps the first entry of a key, and so does \<open>map_of\<close>.\<close>

definition inst_deserialize :: "stream \<Rightarrow> error + (Instance \<times> stream)" where
  "inst_deserialize b =
     bindE (deserialize b) (\<lambda>(t, b). bindE (read_vec read_entry b) (\<lambda>(kvs, b).
     Inr (\<lparr>inst_task = t, inst_cluster = map_of kvs\<rparr>, b)))"

section \<open>Reading what was written\<close>

definition codec :: "('a \<Rightarrow> stream) \<Rightarrow> (stream \<Rightarrow> error + ('a \<times> stream)) \<Rightarrow> ('a \<Rightarrow> bool) \<Rightarrow> bool" where
  "codec wr rd ok \<longleftrightarrow> (\<forall>x b. ok x \<longrightarrow> rd (wr x @ b) = Inr (x, b))"

lemma codecD: "codec wr rd ok \<Longrightarrow> ok x \<Longrightarrow> rd (wr x @ b) = Inr (x, b)"
  by (simp add: codec_def)

lemma read_items_write:
  assumes "codec wr rd ok" "\<forall>x \<in> set xs. ok x"
  shows "read_items rd (length xs) (concat (map wr xs) @ b) = Inr (xs, b)"
  using assms(2) by (induction xs) (simp_all add: codecD [OF assms(1)])

lemma codec_vec:
  assumes "codec wr rd ok"
  shows "codec (write_vec wr) (read_vec rd) (\<lambda>xs. \<forall>x \<in> set xs. ok x)"
  using read_items_write [OF assms] by (simp add: codec_def write_vec_def read_vec_def)

lemma codec_int: "codec (\<lambda>i. [TInt i]) read_int (\<lambda>_. True)"
  by (simp add: codec_def)

lemma codec_str: "codec (\<lambda>s. [TStr s]) read_str (\<lambda>_. True)"
  by (simp add: codec_def)

lemma codec_pair: "codec write_pair read_pair (\<lambda>_. True)"
  by (simp add: codec_def write_pair_def read_pair_def)

lemmas read_int_vec [simp] = codecD [OF codec_vec [OF codec_int], simplified]
lemmas read_str_vec [simp] = codecD [OF codec_vec [OF codec_str], simplified]
lemmas read_pair_vec [simp] = codecD [OF codec_vec [OF codec_pair], simplified]

lemma base_read [simp]: "base_deserialize (base_serialize t @ b) = Inr (t, b)"
  by (simp add: base_deserialize_def base_serialize_def)

text \<open>The type field names the class.\<close>

fun task_wf :: "Task \<Rightarrow> bool" where
  "task_wf (Basic b) \<longleftrightarrow> t_type b = BasicTaskType"
| "task_wf (ConfigurableWorkers b ns ts) \<longleftrightarrow> t_type b = ConfigurableWorkersTaskType"
| "task_wf (AutoParallelism b is n bs) \<longleftrightarrow> t_type b = AutoParallelismTaskType"

lemma codec_task: "codec (\<lambda>t. TType (t_type (base t)) # serialize t) deserialize task_wf"
proof -
  have "deserialize (TType (t_type (base t)) # serialize t @ b) = Inr (t, b)" if "task_wf t" for t b
    using that by (cases t) (simp_all add: deserialize_def)
  then show ?thesis by (simp add: codec_def)
qed

lemma codec_entry: "codec (\<lambda>(k, v). TInt k # write_vec write_pair v) read_entry (\<lambda>_. True)"
  by (auto simp: codec_def read_entry_def)

lemma set_task_wf: "task_wf t \<Longrightarrow> set_task t = Inr t"
  by (cases t) (simp_all add: set_task_def)

lemma task_wf_map_base: "(\<And>b. t_type (f b) = t_type b) \<Longrightarrow> task_wf (map_base f t) = task_wf t"
  by (cases t) simp_all

lemma base_map_base [simp]: "base (map_base f t) = f (base t)"
  by (cases t) simp_all

lemma task_wf_updates [simp]:
  "task_wf (inc_epoch t) = task_wf t" "task_wf (set_num_workers n t) = task_wf t" "task_wf (set_total_epoch n t) = task_wf t"
  by (simp_all add: inc_epoch_def set_num_workers_def set_total_epoch_def task_wf_map_base)

section \<open>The task store\<close>

text \<open>Every buffered id has a task with that id, and no id is buffered twice.\<close>

definition store_wf :: "TaskStore \<Rightarrow> bool" where
  "store_wf ts \<longleftrightarrow> distinct (ts_buffered ts) \<and> set (ts_buffered ts) \<subseteq> dom (ts_task_map ts)
     \<and> (\<forall>i task f. ts_task_map ts i = Some (task, f) \<longrightarrow> t_id (base task) = i \<and> task_wf task)"

lemma store_wf_init: "store_wf mk_TaskStore"
  by (simp add: store_wf_def mk_TaskStore_def)

lemma store_wf_add: "store_wf ts \<Longrightarrow> task_wf task \<Longrightarrow> store_wf (add_task task f ts)"
  by (auto simp: store_wf_def add_task_def Let_def split: option.splits)

lemma tasks_message_codec:
  assumes "store_wf ts"
  shows "tasks_message ts = Inr (write_vec (\<lambda>t. TType (t_type (base t)) # serialize t) (map (\<lambda>i. fst (the (ts_task_map ts i))) (ts_buffered ts)))"
proof -
  have "mapE (\<lambda>i. case ts_task_map ts i of None \<Rightarrow> Inl UndefinedBehaviour
          | Some (task, func) \<Rightarrow> Inr (TType (t_type (base task)) # serialize task)) (ts_buffered ts)
      = Inr (map (\<lambda>i. TType (t_type (base (fst (the (ts_task_map ts i))))) # serialize (fst (the (ts_task_map ts i)))) (ts_buffered ts))"
    using assms by (intro mapE_Inr_map) (force simp: store_wf_def)
  then show ?thesis by (simp add: tasks_message_def write_vec_def comp_def)
qed

text \<open>The store after a sequence of calls: the first task of each id, in the order of the first calls.\<close>

definition first_ids :: "(Task \<times> nat) list \<Rightarrow> int list" where
  "first_ids calls = rev (remdups (rev (map (\<lambda>(t, f). t_id (base t)) calls)))"

definition first_tasks :: "(Task \<times> nat) list \<Rightarrow> int \<rightharpoonup> Task \<times> nat" where
  "first_tasks calls = map_of (map (\<lambda>(t, f). (t_id (base t), (t, f))) calls)"

lemma store_after:
  assumes "list_all (\<lambda>(t, f). task_wf t) calls"
  shows "fold (\<lambda>(t, f). add_task t f) calls mk_TaskStore = \<lparr>ts_task_map = first_tasks calls, ts_buffered = first_ids calls\<rparr>"
  using assms
proof (induction calls rule: rev_induct)
  case Nil
  then show ?case by (simp add: mk_TaskStore_def first_tasks_def first_ids_def)
next
  case (snoc c calls)
  obtain t f where c: "c = (t, f)" by fastforce
  have dom: "first_tasks calls i = None \<longleftrightarrow> i \<notin> set (first_ids calls)" for i
    by (simp add: first_tasks_def first_ids_def map_of_eq_None_iff image_image split_beta)
  have "first_tasks (calls @ [c]) = (case first_tasks calls (t_id (base t)) of None \<Rightarrow> (first_tasks calls)(t_id (base t) \<mapsto> (t, f)) | Some x \<Rightarrow> first_tasks calls)"
    by (auto simp: first_tasks_def c map_add_def fun_eq_iff split: option.splits)
  moreover have "first_ids (calls @ [c]) = (if t_id (base t) \<in> set (first_ids calls) then first_ids calls else first_ids calls @ [t_id (base t)])"
    by (simp add: first_ids_def c)
  ultimately show ?case
    using snoc dom [of "t_id (base t)"] by (auto simp: c add_task_def Let_def split: option.splits)
qed

lemma store_wf_fold:
  assumes "list_all (\<lambda>(t, f). task_wf t) calls"
  shows "store_wf (fold (\<lambda>(t, f). add_task t f) calls mk_TaskStore)"
  using assms by (induction calls rule: rev_induct) (auto simp: store_wf_init intro: store_wf_add)

lemma tasks_read:
  assumes "list_all (\<lambda>(t, f). task_wf t) calls" "ts = fold (\<lambda>(t, f). add_task t f) calls mk_TaskStore"
  shows "\<exists>bin ts'. send_tasks_to_cluster_manager 0 ts = Inr (Some bin, ts') \<and> ts_buffered ts' = []
     \<and> extract_tasks bin = Inr (map (\<lambda>i. fst (the (first_tasks calls i))) (first_ids calls), [])"
proof -
  let ?tasks = "map (\<lambda>i. fst (the (first_tasks calls i))) (first_ids calls)"
  have wf: "store_wf ts" using store_wf_fold [OF assms(1)] assms(2) by simp
  have ts: "ts_task_map ts = first_tasks calls" "ts_buffered ts = first_ids calls" using store_after [OF assms(1)] assms(2) by simp_all
  have "\<forall>t \<in> set ?tasks. task_wf t" using wf ts by (force simp: store_wf_def)
  then have "extract_tasks (write_vec (\<lambda>t. TType (t_type (base t)) # serialize t) ?tasks) = Inr (?tasks, [])"
    using codecD [OF codec_vec [OF codec_task], of ?tasks "[]"] by (simp add: extract_tasks_def)
  then show ?thesis
    using tasks_message_codec [OF wf] ts by (simp add: send_tasks_to_cluster_manager_def clear_buffered_tasks_def)
qed

lemma inst_read:
  assumes "task_wf (inst_task inst)" "distinct order" "set order = dom (inst_cluster inst)"
  shows "inst_deserialize (inst_serialize order inst @ rest) = Inr (inst, rest)"
proof -
  let ?kvs = "map (\<lambda>p. (p, get_threads p inst)) order"
  have "concat (map (\<lambda>p. TInt p # write_vec write_pair (get_threads p inst)) order) = concat (map (\<lambda>(k, v). TInt k # write_vec write_pair v) ?kvs)"
    by (simp add: comp_def)
  then have "read_vec read_entry (TSize (length order) # concat (map (\<lambda>p. TInt p # write_vec write_pair (get_threads p inst)) order) @ rest) = Inr (?kvs, rest)"
    using codecD [OF codec_vec [OF codec_entry], of ?kvs rest] by (simp add: write_vec_def)
  moreover have "map_of ?kvs p = inst_cluster inst p" for p
    using assms(3) map_of_eq_None_iff [of ?kvs p]
    by (cases "inst_cluster inst p") (auto simp: get_threads_def image_image map_of_map_restrict restrict_map_def comp_def)
  then have "map_of ?kvs = inst_cluster inst" ..
  moreover have "deserialize (TType (t_type (base (inst_task inst))) # serialize (inst_task inst) @ b) = Inr (inst_task inst, b)" for b
    using codecD [OF codec_task assms(1), of b] by simp
  ultimately show ?thesis by (simp add: inst_deserialize_def inst_serialize_def)
qed

section \<open>Properties\<close>



text \<open>
  An instance survives its transfer to the workers: whatever the order in which the cluster map is iterated, reading what
  \<^verbatim>\<open>Instance::serialize\<close> wrote gives the same task and the same cluster, and leaves the rest of the stream.
\<close>

theorem instance_roundtrip:
  assumes "task_wf (inst_task inst)" "distinct order" "set order = dom (inst_cluster inst)"
  shows "inst_deserialize (inst_serialize order inst @ rest) = Inr (inst, rest)"
  by (rule inst_read [OF assms])

definition example_instance :: Instance where
  "example_instance = add_thread 1 5 2 (add_thread 0 4 1 (add_thread 1 3 0 \<lparr>inst_task = mk_Task 7 1 3, inst_cluster = Map.empty\<rparr>))"

theorem instance_roundtrip_witness:
  "inst_deserialize (inst_serialize [1, 0] example_instance @ [TInt 9]) = Inr (example_instance, [TInt 9])"
  by (rule instance_roundtrip) (auto simp: example_instance_def add_thread_def mk_Task_def mk_base_def)

end
