(* ===== verification/Available_Workers.thy ===== *)
theory Available_Workers
  imports Task_Core "HOL-Library.Product_Lexorder" "HOL-Library.Multiset"
begin

text \<open>
  The pool of free threads and the placement history of the cluster manager:
  \<^verbatim>\<open>cluster_manager/task_scheduler/available_workers.hpp\<close> and \<^verbatim>\<open>.cpp\<close>, \<^verbatim>\<open>history_manager.hpp\<close> and \<^verbatim>\<open>.cpp\<close>.

  \<open>AvailableWorkers\<close> has the two containers of the class: the set of pairs (thread, process) and the map from a process to the set of its
  free threads. The order in which an unordered container is iterated and the values of \<^verbatim>\<open>rand()\<close> are not determined by the code;
  they are the argument \<open>env\<close> of the operations that depend on them, and \<open>env_ok\<close> says what the standard library promises: every
  element is visited once, and \<^verbatim>\<open>std::sort\<close> gives some ordered permutation. Each call may be given another \<open>env\<close>.

  The invariant \<open>aw_ok\<close> says that the two containers agree. The interface of an operation that takes threads is the
  locale \<open>thread_taking\<close>; all five operations of the class are instances of it.
\<close>

section \<open>Model\<close>

record env =
  iter_workers :: "(int \<times> int) set \<Rightarrow> (int \<times> int) list"
  iter_ints :: "int set \<Rightarrow> int list"
  rand_at :: "nat \<Rightarrow> nat"                   \<comment> \<open>the \<open>k\<close>-th call of \<^verbatim>\<open>rand()\<close>\<close>
  sort_priority :: "(int \<times> int) list \<Rightarrow> (int \<times> int) list"   \<comment> \<open>\<^verbatim>\<open>std::sort\<close> by decreasing second component\<close>

definition env_ok :: "env \<Rightarrow> bool" where
  "env_ok e \<longleftrightarrow> (\<forall>S. finite S \<longrightarrow> set (iter_workers e S) = S \<and> distinct (iter_workers e S))
     \<and> (\<forall>S. finite S \<longrightarrow> set (iter_ints e S) = S \<and> distinct (iter_ints e S))
     \<and> (\<forall>xs. mset (sort_priority e xs) = mset xs \<and> sorted_wrt (\<lambda>x y. snd x \<ge> snd y) (sort_priority e xs))"

text \<open>\<^verbatim>\<open>size() < n\<close> with an \<^verbatim>\<open>int n\<close>: the comparison is unsigned.\<close>

definition as_size :: "int \<Rightarrow> nat" where
  "as_size n = nat (if n < 0 then n + 2 ^ 64 else n)"

subsection \<open>The pool\<close>

record AvailableWorkers =
  aw_workers :: "(int \<times> int) set"              \<comment> \<open>(tid, pid)\<close>
  aw_pid_tids :: "int \<rightharpoonup> int set"

definition mk_AvailableWorkers :: AvailableWorkers where
  "mk_AvailableWorkers = \<lparr>aw_workers = {}, aw_pid_tids = Map.empty\<rparr>"

definition tids_of :: "int \<Rightarrow> AvailableWorkers \<Rightarrow> int set" where
  "tids_of pid aw = (case aw_pid_tids aw pid of None \<Rightarrow> {} | Some S \<Rightarrow> S)"

definition add_worker :: "int \<Rightarrow> int \<Rightarrow> AvailableWorkers \<Rightarrow> AvailableWorkers" where
  "add_worker pid tid aw = aw\<lparr>aw_workers := insert (tid, pid) (aw_workers aw),
     aw_pid_tids := (aw_pid_tids aw)(pid \<mapsto> insert tid (tids_of pid aw))\<rparr>"

definition remove_worker :: "int \<Rightarrow> int \<Rightarrow> AvailableWorkers \<Rightarrow> AvailableWorkers" where
  "remove_worker pid tid aw = aw\<lparr>aw_workers := aw_workers aw - {(tid, pid)},
     aw_pid_tids := (aw_pid_tids aw)(pid \<mapsto> tids_of pid aw - {tid})\<rparr>"

text \<open>The two loops that erase the selected pairs (process, thread) from both containers.\<close>

definition erase_selected :: "(int \<times> int) list \<Rightarrow> AvailableWorkers \<Rightarrow> AvailableWorkers" where
  "erase_selected sel aw = fold (\<lambda>(pid, tid). remove_worker pid tid) sel aw"

text \<open>The local \<^verbatim>\<open>std::map pid_tids_map\<close>: its keys in order, and the threads of a process in the order of the iteration.\<close>

definition pid_keys :: "int \<Rightarrow> AvailableWorkers \<Rightarrow> int list" where
  "pid_keys num_processes aw = sorted_list_of_set ({0..<num_processes} \<union> snd ` aw_workers aw)"

definition pid_list :: "env \<Rightarrow> int \<Rightarrow> AvailableWorkers \<Rightarrow> int list" where
  "pid_list e pid aw = map fst (filter (\<lambda>w. snd w = pid) (iter_workers e (aw_workers aw)))"

definition get_workers_per_process :: "env \<Rightarrow> int \<Rightarrow> int \<Rightarrow> AvailableWorkers \<Rightarrow> (int \<times> int) list \<times> AvailableWorkers" where
  "get_workers_per_process e n num_processes aw =
     (if \<exists>pid \<in> set (pid_keys num_processes aw). length (pid_list e pid aw) < as_size n then ([], aw)
      else let sel = concat (map (\<lambda>pid. map (\<lambda>tid. (pid, tid)) (take (nat n) (pid_list e pid aw))) (pid_keys num_processes aw))
           in (sel, erase_selected sel aw))"

text \<open>The loop of \<^verbatim>\<open>get_workers\<close>: \<open>k\<close> elements at random positions; \<open>S\<close> is what is left of \<^verbatim>\<open>workers_\<close>.\<close>

fun pick_workers :: "env \<Rightarrow> nat \<Rightarrow> nat \<Rightarrow> (int \<times> int) set \<Rightarrow> (int \<times> int) set" where
  "pick_workers e 0 i S = {}"
| "pick_workers e (Suc k) i S =
     (let ws = iter_workers e S; w = ws ! (rand_at e i mod length ws)
      in insert (snd w, fst w) (pick_workers e k (Suc i) (S - {w})))"

definition get_workers :: "env \<Rightarrow> int \<Rightarrow> AvailableWorkers \<Rightarrow> (int \<times> int) list \<times> AvailableWorkers" where
  "get_workers e n aw =
     (if card (aw_workers aw) < as_size n then ([], aw)
      else let sel = sorted_list_of_set (pick_workers e (as_size n) 0 (aw_workers aw)) in (sel, erase_selected sel aw))"

definition get_local_workers :: "env \<Rightarrow> int \<Rightarrow> AvailableWorkers \<Rightarrow> (int \<times> int) list \<times> AvailableWorkers" where
  "get_local_workers e n aw =
     (case List.find (\<lambda>pid. as_size n \<le> card (tids_of pid aw)) (iter_ints e (dom (aw_pid_tids aw))) of
        None \<Rightarrow> ([], aw)
      | Some pid \<Rightarrow> let sel = map (\<lambda>tid. (pid, tid)) (take (as_size n) (iter_ints e (tids_of pid aw))) in (sel, erase_selected sel aw))"

definition get_workers_exact_process :: "env \<Rightarrow> int \<Rightarrow> int \<Rightarrow> AvailableWorkers \<Rightarrow> (int \<times> int) list \<times> AvailableWorkers" where
  "get_workers_exact_process e n exact_process aw =
     (if length (pid_list e exact_process aw) < as_size n then ([], aw)
      else let sel = map (\<lambda>tid. (exact_process, tid)) (take (nat n) (pid_list e exact_process aw)) in (sel, erase_selected sel aw))"

definition get_num_available_workers :: "AvailableWorkers \<Rightarrow> nat" where
  "get_num_available_workers aw = card (aw_workers aw)"

text \<open>\<^verbatim>\<open>pid_tids_[pid]\<close> adds an empty entry for an unknown process.\<close>

definition get_num_available_local_workers :: "int \<Rightarrow> AvailableWorkers \<Rightarrow> nat \<times> AvailableWorkers" where
  "get_num_available_local_workers pid aw =
     (card (tids_of pid aw), aw\<lparr>aw_pid_tids := (aw_pid_tids aw)(pid \<mapsto> tids_of pid aw)\<rparr>)"

definition get_max_local_workers :: "env \<Rightarrow> AvailableWorkers \<Rightarrow> nat" where
  "get_max_local_workers e aw = fold (\<lambda>pid m. max m (card (tids_of pid aw))) (iter_ints e (dom (aw_pid_tids aw))) 0"

subsection \<open>The history\<close>

record HistoryManager =
  hm_history :: "int \<rightharpoonup> int list"
  hm_last_instance :: "int \<rightharpoonup> Instance"
  hm_num_processes :: nat

definition hm_start :: "nat \<Rightarrow> HistoryManager \<Rightarrow> HistoryManager" where
  "hm_start n hm = hm\<lparr>hm_num_processes := n\<rparr>"

definition history_of :: "int \<Rightarrow> HistoryManager \<Rightarrow> int list" where
  "history_of task_id hm = (case hm_history hm task_id of None \<Rightarrow> replicate (hm_num_processes hm) 0 | Some h \<Rightarrow> h)"

definition get_task_history :: "int \<Rightarrow> HistoryManager \<Rightarrow> int list \<times> HistoryManager" where
  "get_task_history task_id hm =
     (history_of task_id hm, hm\<lparr>hm_history := (hm_history hm)(task_id \<mapsto> history_of task_id hm)\<rparr>)"

definition bump_at :: "int \<Rightarrow> int list \<Rightarrow> error + int list" where
  "bump_at pid h = (if 0 \<le> pid \<and> pid < int (length h) then Inr (h[nat pid := h ! nat pid + 1]) else Inl OutOfRange)"

definition update_history :: "int \<Rightarrow> (int \<times> int) list \<Rightarrow> HistoryManager \<Rightarrow> error + HistoryManager" where
  "update_history task_id pid_tids hm =
     bindE (foldE bump_at (remdups_adj (sort (map fst pid_tids))) (history_of task_id hm)) (\<lambda>h.
     Inr (hm\<lparr>hm_history := (hm_history hm)(task_id \<mapsto> h)\<rparr>))"

definition clear_history :: "HistoryManager \<Rightarrow> HistoryManager" where
  "clear_history hm = hm\<lparr>hm_history := Map.empty, hm_last_instance := Map.empty, hm_num_processes := 0\<rparr>"

definition set_last_instance :: "int \<Rightarrow> Instance \<Rightarrow> HistoryManager \<Rightarrow> HistoryManager" where
  "set_last_instance task_id inst hm = hm\<lparr>hm_last_instance := (hm_last_instance hm)(task_id \<mapsto> inst)\<rparr>"

text \<open>The loops of \<^verbatim>\<open>get_preferred_proc\<close> and \<^verbatim>\<open>get_traverse_workers\<close> that look for the smallest entry.\<close>

fun smallest :: "int \<Rightarrow> int list \<Rightarrow> int" where
  "smallest m [] = m"
| "smallest m (x # xs) = smallest (if x < m then x else m) xs"

definition positions_of :: "int \<Rightarrow> int list \<Rightarrow> int list" where
  "positions_of x xs = map int (filter (\<lambda>i. xs ! i = x) [0..<length xs])"

fun traverse :: "env \<Rightarrow> int \<Rightarrow> int list \<Rightarrow> AvailableWorkers \<Rightarrow> (int \<times> int) list \<times> AvailableWorkers" where
  "traverse e n [] aw = ([], aw)"
| "traverse e n (pid # pids) aw =
     (let (sel, aw) = get_workers_exact_process e n pid aw in if sel \<noteq> [] then (sel, aw) else traverse e n pids aw)"

definition get_traverse_workers :: "env \<Rightarrow> int \<Rightarrow> int \<Rightarrow> HistoryManager \<Rightarrow> AvailableWorkers
    \<Rightarrow> error + ((int \<times> int) list \<times> AvailableWorkers \<times> HistoryManager)" where
  "get_traverse_workers e task_id n hm aw =
     (let (h, hm) = get_task_history task_id hm in
      bindE (assertE (h \<noteq> [])) (\<lambda>_.
      let (sel, aw) = traverse e n (positions_of (smallest (h ! 0) h) h) aw in Inr (sel, aw, hm)))"

definition int_limit :: int where
  "int_limit = 2 ^ 31 - 1"

definition get_preferred_proc :: "int \<Rightarrow> HistoryManager \<Rightarrow> int list \<times> HistoryManager" where
  "get_preferred_proc task_id hm =
     (let (h, hm) = get_task_history task_id hm in (positions_of (smallest int_limit h) h, hm))"

section \<open>The two containers agree\<close>

definition aw_ok :: "AvailableWorkers \<Rightarrow> bool" where
  "aw_ok aw \<longleftrightarrow> finite (aw_workers aw) \<and> finite (dom (aw_pid_tids aw))
     \<and> (\<forall>pid tid. tid \<in> tids_of pid aw \<longleftrightarrow> (tid, pid) \<in> aw_workers aw)"

text \<open>The free threads as pairs (process, thread).\<close>

definition free :: "AvailableWorkers \<Rightarrow> (int \<times> int) set" where
  "free aw = (\<lambda>(tid, pid). (pid, tid)) ` aw_workers aw"

lemma free_iff [simp]: "(pid, tid) \<in> free aw \<longleftrightarrow> (tid, pid) \<in> aw_workers aw"
  by (force simp: free_def)

lemma tids_of_free: "aw_ok aw \<Longrightarrow> tids_of pid aw = {tid. (pid, tid) \<in> free aw}"
  by (auto simp: aw_ok_def)

lemma aw_ok_init: "aw_ok mk_AvailableWorkers" "free mk_AvailableWorkers = {}"
  by (simp_all add: aw_ok_def mk_AvailableWorkers_def tids_of_def free_def)

lemma aw_ok_add: "aw_ok aw \<Longrightarrow> aw_ok (add_worker pid tid aw)"
  by (auto simp: aw_ok_def add_worker_def tids_of_def split: if_splits option.splits)

lemma free_add [simp]: "free (add_worker pid tid aw) = insert (pid, tid) (free aw)"
  by (auto simp: free_def add_worker_def)

lemma aw_ok_remove: "aw_ok aw \<Longrightarrow> aw_ok (remove_worker pid tid aw)"
  by (auto simp: aw_ok_def remove_worker_def tids_of_def split: if_splits option.splits)

lemma free_remove [simp]: "free (remove_worker pid tid aw) = free aw - {(pid, tid)}"
  by (auto simp: free_def remove_worker_def)

lemma erase_selected_ok: "aw_ok aw \<Longrightarrow> aw_ok (erase_selected sel aw) \<and> free (erase_selected sel aw) = free aw - set sel"
  unfolding erase_selected_def
  by (induction sel arbitrary: aw) (auto simp: aw_ok_remove)

lemma finite_free: "aw_ok aw \<Longrightarrow> finite (free aw)"
  by (simp add: aw_ok_def free_def)

lemma card_free: "card (free aw) = card (aw_workers aw)"
  unfolding free_def by (rule card_image) (auto simp: inj_on_def)

lemma local_workers_ok:
  assumes "aw_ok aw"
  shows "aw_ok (snd (get_num_available_local_workers pid aw))" "free (snd (get_num_available_local_workers pid aw)) = free aw"
    "fst (get_num_available_local_workers pid aw) = card {tid. (pid, tid) \<in> free aw}"
  using assms tids_of_free [OF assms] by (auto simp: aw_ok_def get_num_available_local_workers_def tids_of_def free_def)

section \<open>Taking threads\<close>

locale thread_taking =
  fixes take_threads :: "env \<Rightarrow> AvailableWorkers \<Rightarrow> (int \<times> int) list \<times> AvailableWorkers"
  assumes selected: "env_ok e \<Longrightarrow> aw_ok aw \<Longrightarrow> take_threads e aw = (sel, aw') \<Longrightarrow> distinct sel \<and> set sel \<subseteq> free aw"
    and left: "env_ok e \<Longrightarrow> aw_ok aw \<Longrightarrow> take_threads e aw = (sel, aw') \<Longrightarrow> aw_ok aw' \<and> free aw' = free aw - set sel"
begin

lemma conserved:
  assumes "env_ok e" "aw_ok aw" "take_threads e aw = (sel, aw')"
  shows "free aw' \<inter> set sel = {}" "free aw' \<union> set sel = free aw" "card (free aw') + length sel = card (free aw)"
proof -
  note s = selected [OF assms] and l = left [OF assms]
  show "free aw' \<inter> set sel = {}" "free aw' \<union> set sel = free aw" using s l by auto
  have "card (free aw - set sel) = card (free aw) - length sel" "length sel \<le> card (free aw)"
    using s card_mono [OF finite_free [OF assms(2)], of "set sel"] by (simp_all add: card_Diff_subset distinct_card)
  then show "card (free aw') + length sel = card (free aw)" using l by simp
qed

end

text \<open>An operation that selects some of the free threads and erases them.\<close>

lemma thread_takingI:
  assumes "\<And>e aw. env_ok e \<Longrightarrow> aw_ok aw \<Longrightarrow> take_threads e aw = ([], aw)
     \<or> (\<exists>sel. take_threads e aw = (sel, erase_selected sel aw) \<and> distinct sel \<and> set sel \<subseteq> free aw)"
  shows "thread_taking take_threads"
proof
  fix e aw sel aw' assume a: "env_ok e" "aw_ok aw" "take_threads e aw = (sel, aw')"
  have "sel = [] \<and> aw' = aw \<or> aw' = erase_selected sel aw \<and> distinct sel \<and> set sel \<subseteq> free aw"
    using assms [OF a(1,2)] a(3) by (metis Pair_inject)
  then show "distinct sel \<and> set sel \<subseteq> free aw" "aw_ok aw' \<and> free aw' = free aw - set sel"
    using erase_selected_ok [OF a(2), of sel] a(2) by (elim disjE; simp)+
qed

lemma pid_list_ok:
  assumes "env_ok e" "aw_ok aw"
  shows "distinct (pid_list e pid aw)" "set (pid_list e pid aw) = {tid. (pid, tid) \<in> free aw}"
proof -
  have it: "set (iter_workers e (aw_workers aw)) = aw_workers aw" "distinct (iter_workers e (aw_workers aw))"
    using assms by (simp_all add: env_ok_def aw_ok_def)
  show "set (pid_list e pid aw) = {tid. (pid, tid) \<in> free aw}" using it by (force simp: pid_list_def)
  show "distinct (pid_list e pid aw)" using it by (auto simp: pid_list_def distinct_map inj_on_def)
qed

lemma length_pid_list: "env_ok e \<Longrightarrow> aw_ok aw \<Longrightarrow> length (pid_list e pid aw) = card {tid. (pid, tid) \<in> free aw}"
  by (metis distinct_card pid_list_ok)

lemma exact_process_selected:
  assumes "env_ok e" "aw_ok aw"
  shows "distinct (map (\<lambda>tid. (pid, tid)) (take k (pid_list e pid aw)))" "set (map (\<lambda>tid. (pid, tid)) (take k (pid_list e pid aw))) \<subseteq> free aw"
proof -
  show "distinct (map (\<lambda>tid. (pid, tid)) (take k (pid_list e pid aw)))"
    using pid_list_ok(1) [OF assms, of pid] by (simp add: distinct_map inj_on_def)
  show "set (map (\<lambda>tid. (pid, tid)) (take k (pid_list e pid aw))) \<subseteq> free aw"
    using pid_list_ok(2) [OF assms, of pid] set_take_subset [of k "pid_list e pid aw"] by auto
qed

interpretation exact: thread_taking "\<lambda>e. get_workers_exact_process e n pid" for n pid
proof (rule thread_takingI)
  fix e aw assume assms: "env_ok e" and aw: "aw_ok aw"
  show "get_workers_exact_process e n pid aw = ([], aw) \<or>
      (\<exists>sel. get_workers_exact_process e n pid aw = (sel, erase_selected sel aw) \<and> distinct sel \<and> set sel \<subseteq> free aw)"
    unfolding get_workers_exact_process_def Let_def using exact_process_selected [OF assms aw, of pid "nat n"] by (auto split: if_splits)
qed

lemma pid_keys_distinct: "aw_ok aw \<Longrightarrow> distinct (pid_keys P aw)"
  by (simp add: pid_keys_def)

interpretation per_process: thread_taking "\<lambda>e. get_workers_per_process e n P" for n P
proof (rule thread_takingI)
  fix e aw assume assms: "env_ok e" and aw: "aw_ok aw"
  let ?sel = "concat (map (\<lambda>pid. map (\<lambda>tid. (pid, tid)) (take (nat n) (pid_list e pid aw))) (pid_keys P aw))"
  have "distinct (concat (map (\<lambda>pid. map (\<lambda>tid. (pid, tid)) (take (nat n) (pid_list e pid aw))) pids))" if "distinct pids" for pids
    using that by (induction pids) (auto simp: distinct_map inj_on_def pid_list_ok [OF assms aw])
  then have "distinct ?sel" using pid_keys_distinct [OF aw] by blast
  moreover have "set ?sel \<subseteq> free aw" using pid_list_ok(2) [OF assms aw] by (auto dest!: in_set_takeD)
  ultimately show "get_workers_per_process e n P aw = ([], aw) \<or>
      (\<exists>sel. get_workers_per_process e n P aw = (sel, erase_selected sel aw) \<and> distinct sel \<and> set sel \<subseteq> free aw)"
    unfolding get_workers_per_process_def Let_def by (auto split: if_splits)
qed

interpretation local_process: thread_taking "\<lambda>e. get_local_workers e n" for n
proof (rule thread_takingI)
  fix e aw assume assms: "env_ok e" and aw: "aw_ok aw"
  have "distinct (map (\<lambda>tid. (pid, tid)) (take (as_size n) (iter_ints e (tids_of pid aw)))) \<and>
      set (map (\<lambda>tid. (pid, tid)) (take (as_size n) (iter_ints e (tids_of pid aw)))) \<subseteq> free aw" for pid
  proof -
    have "finite (tids_of pid aw)" using finite_free [OF aw] finite_vimageI [of "free aw" "Pair pid"]
      by (simp add: tids_of_free [OF aw] vimage_def inj_on_def)
    then have "set (iter_ints e (tids_of pid aw)) = tids_of pid aw" "distinct (iter_ints e (tids_of pid aw))"
      using assms by (simp_all add: env_ok_def)
    then show ?thesis using tids_of_free [OF aw] by (auto simp: distinct_map inj_on_def dest!: in_set_takeD)
  qed
  then show "get_local_workers e n aw = ([], aw) \<or>
      (\<exists>sel. get_local_workers e n aw = (sel, erase_selected sel aw) \<and> distinct sel \<and> set sel \<subseteq> free aw)"
    unfolding get_local_workers_def Let_def by (auto split: option.splits)
qed

lemma pick_workers_ok:
  assumes "env_ok e" "finite S" "k \<le> card S"
  shows "pick_workers e k i S \<subseteq> (\<lambda>(tid, pid). (pid, tid)) ` S \<and> card (pick_workers e k i S) = k \<and> finite (pick_workers e k i S)"
  using assms(2,3)
proof (induction k arbitrary: i S)
  case (Suc k)
  let ?ws = "iter_workers e S"
  have ws: "set ?ws = S" "distinct ?ws" using assms(1) Suc.prems by (simp_all add: env_ok_def)
  then have "?ws \<noteq> []" using Suc.prems by auto
  define w where "w = ?ws ! (rand_at e i mod length ?ws)"
  have w: "w \<in> S" using ws \<open>?ws \<noteq> []\<close> unfolding w_def by (metis length_greater_0_conv mod_less_divisor nth_mem)
  have IH: "pick_workers e k (Suc i) (S - {w}) \<subseteq> (\<lambda>(tid, pid). (pid, tid)) ` (S - {w})"
    "card (pick_workers e k (Suc i) (S - {w})) = k" "finite (pick_workers e k (Suc i) (S - {w}))"
    using Suc.IH [of "S - {w}" "Suc i"] Suc.prems w by auto
  then have "(snd w, fst w) \<notin> pick_workers e k (Suc i) (S - {w})" by (cases w) auto
  then show ?case using IH w by (auto simp: Let_def simp flip: w_def)
qed simp

interpretation anywhere: thread_taking "\<lambda>e. get_workers e n" for n
proof (rule thread_takingI)
  fix e aw assume assms: "env_ok e" and aw: "aw_ok aw"
  show "get_workers e n aw = ([], aw) \<or> (\<exists>sel. get_workers e n aw = (sel, erase_selected sel aw) \<and> distinct sel \<and> set sel \<subseteq> free aw)"
    using pick_workers_ok [OF assms, of "aw_workers aw" "as_size n" 0] aw
    by (auto simp: get_workers_def Let_def aw_ok_def free_def)
qed

interpretation traversal: thread_taking "\<lambda>e. traverse e n pids" for n pids
proof
  have both: "distinct sel \<and> set sel \<subseteq> free aw \<and> aw_ok aw' \<and> free aw' = free aw - set sel"
    if "env_ok e" "aw_ok aw" "traverse e n pids aw = (sel, aw')" for e aw sel aw'
    using that
  proof (induction pids arbitrary: aw)
    case (Cons pid pids)
    obtain s1 aw1 where t: "get_workers_exact_process e n pid aw = (s1, aw1)" by fastforce
    show ?case
      using exact.selected [OF Cons.prems(1,2) t] exact.left [OF Cons.prems(1,2) t] Cons.IH [of aw1] Cons.prems t
      by (cases "s1 = []") auto
  qed simp
  fix e aw sel aw' assume "env_ok e" "aw_ok aw" "traverse e n pids aw = (sel, aw')"
  from both [OF this] show "distinct sel \<and> set sel \<subseteq> free aw" "aw_ok aw' \<and> free aw' = free aw - set sel" by simp_all
qed

subsection \<open>How many threads are taken\<close>

lemma as_size_nonneg: "0 \<le> n \<Longrightarrow> as_size n = nat n"
  by (simp add: as_size_def)

lemma exact_process_amount:
  assumes "env_ok e" "aw_ok aw" "0 \<le> n" "get_workers_exact_process e n pid aw = (sel, aw')"
  shows "length sel = (if nat n \<le> card {tid. (pid, tid) \<in> free aw} then nat n else 0)" "fst ` set sel \<subseteq> {pid}"
  using assms length_pid_list [OF assms(1,2), of pid]
  by (auto simp: get_workers_exact_process_def Let_def as_size_nonneg split: if_splits)

lemma workers_amount:
  assumes "env_ok e" "aw_ok aw" "0 \<le> n" "get_workers e n aw = (sel, aw')"
  shows "length sel = (if nat n \<le> card (free aw) then nat n else 0)"
proof (cases "nat n \<le> card (free aw)")
  case True
  then have c: "nat n \<le> card (aw_workers aw)" by (simp add: card_free)
  have "finite (aw_workers aw)" using assms(2) by (simp add: aw_ok_def)
  from pick_workers_ok [OF assms(1) this c, of 0] show ?thesis
    using assms(3,4) c True by (auto simp: get_workers_def Let_def as_size_nonneg)
next
  case False
  then show ?thesis using assms(3,4) by (auto simp: get_workers_def Let_def as_size_nonneg card_free split: if_splits)
qed

lemma local_amount:
  assumes "env_ok e" "aw_ok aw" "0 \<le> n" "get_local_workers e n aw = (sel, aw')"
  shows "length sel = (if \<exists>pid \<in> dom (aw_pid_tids aw). nat n \<le> card (tids_of pid aw) then nat n else 0)" "\<exists>pid. fst ` set sel \<subseteq> {pid}"
proof -
  let ?find = "List.find (\<lambda>pid. as_size n \<le> card (tids_of pid aw)) (iter_ints e (dom (aw_pid_tids aw)))"
  have it: "set (iter_ints e (dom (aw_pid_tids aw))) = dom (aw_pid_tids aw)" using assms(1,2) by (simp add: env_ok_def aw_ok_def)
  have len: "length (iter_ints e (tids_of pid aw)) = card (tids_of pid aw)" for pid
  proof -
    have "finite (tids_of pid aw)" using finite_free [OF assms(2)] finite_vimageI [of "free aw" "Pair pid"]
      by (simp add: tids_of_free [OF assms(2)] vimage_def inj_on_def)
    then show ?thesis using assms(1) by (metis distinct_card env_ok_def)
  qed
  show "length sel = (if \<exists>pid \<in> dom (aw_pid_tids aw). nat n \<le> card (tids_of pid aw) then nat n else 0)"
  proof (cases ?find)
    case None
    then have "sel = []" using assms(4) by (simp add: get_local_workers_def)
    moreover have "\<not> (\<exists>pid \<in> dom (aw_pid_tids aw). nat n \<le> card (tids_of pid aw))"
      using None it assms(3) by (auto simp: find_None_iff as_size_nonneg)
    ultimately show ?thesis by simp
  next
    case (Some pid)
    then have "pid \<in> dom (aw_pid_tids aw)" "nat n \<le> card (tids_of pid aw)"
      using it assms(3) nth_mem by (auto simp: find_Some_iff as_size_nonneg) 
    then show ?thesis using Some assms(3,4) len [of pid] by (auto simp: get_local_workers_def Let_def as_size_nonneg)
  qed
  show "\<exists>pid. fst ` set sel \<subseteq> {pid}" using assms(4) by (auto simp: get_local_workers_def Let_def split: option.splits)
qed

section \<open>The history\<close>

lemma bump_all:
  assumes "distinct pids"
  shows "foldE bump_at pids h = (if \<forall>p \<in> set pids. 0 \<le> p \<and> p < int (length h)
     then Inr (map (\<lambda>i. if int i \<in> set pids then h ! i + 1 else h ! i) [0..<length h]) else Inl OutOfRange)"
  using assms
proof (induction pids arbitrary: h)
  case Nil
  then show ?case by (simp add: map_nth)
next
  case (Cons p pids)
  show ?case
  proof (cases "0 \<le> p \<and> p < int (length h)")
    case True
    have "map (\<lambda>i. if int i \<in> set pids then h[nat p := h ! nat p + 1] ! i + 1 else h[nat p := h ! nat p + 1] ! i) [0..<length h]
        = map (\<lambda>i. if int i \<in> set (p # pids) then h ! i + 1 else h ! i) [0..<length h]"
      using True Cons.prems by (auto simp: nth_list_update)
    then show ?thesis using True Cons.IH [of "h[nat p := h ! nat p + 1]"] Cons.prems by (simp add: bump_at_def)
  qed (auto simp: bump_at_def)
qed

text \<open>\<^verbatim>\<open>sort\<close> and \<^verbatim>\<open>unique\<close> leave every element once.\<close>

lemma sorted_unique: "sorted xs \<Longrightarrow> distinct (remdups_adj (xs :: int list))"
  by (induction xs rule: remdups_adj.induct) auto

lemma smallest_Min: "smallest m xs = Min (insert m (set xs))"
proof (induction xs arbitrary: m)
  case (Cons x xs)
  then show ?case by (cases "set xs = {}") (auto simp: min_def)
qed simp

text \<open>
  \<^verbatim>\<open>update_history\<close> counts a placement once for every process that has a thread of it, however many threads that
  are; it fails exactly if a process id is outside of the history.
\<close>

lemma update_history_counts:
  "update_history task_id pid_tids hm =
     (if \<forall>p \<in> fst ` set pid_tids. 0 \<le> p \<and> p < int (length (history_of task_id hm))
      then Inr (hm\<lparr>hm_history := (hm_history hm)(task_id \<mapsto>
             map (\<lambda>i. if int i \<in> fst ` set pid_tids then history_of task_id hm ! i + 1 else history_of task_id hm ! i)
               [0..<length (history_of task_id hm)])\<rparr>)
      else Inl OutOfRange)"
proof -
  have "distinct (remdups_adj (sort (map fst pid_tids)))" by (simp add: sorted_unique)
  from bump_all [OF this, of "history_of task_id hm"] show ?thesis unfolding update_history_def by simp
qed

section \<open>Properties\<close>

datatype pool_op = PerProcess int int | Anywhere int | Local int | Traverse int "int list" | Exact int int

fun pool_take :: "env \<Rightarrow> pool_op \<Rightarrow> AvailableWorkers \<Rightarrow> (int \<times> int) list \<times> AvailableWorkers" where
  "pool_take e (PerProcess n P) = get_workers_per_process e n P"
| "pool_take e (Anywhere n) = get_workers e n"
| "pool_take e (Local n) = get_local_workers e n"
| "pool_take e (Traverse n pids) = traverse e n pids"
| "pool_take e (Exact n pid) = get_workers_exact_process e n pid"

interpretation pool: thread_taking "\<lambda>e. pool_take e op" for op
  by (cases op) (simp_all add: per_process.thread_taking_axioms anywhere.thread_taking_axioms local_process.thread_taking_axioms
      traversal.thread_taking_axioms exact.thread_taking_axioms)

text \<open>
  The pool with the threads that its clients hold: threads are added at the start, taken by any operation with any iteration order
  and any random numbers, and given back one by one.
\<close>

inductive pool_reach :: "(int \<times> int) set \<Rightarrow> AvailableWorkers \<Rightarrow> (int \<times> int) list \<Rightarrow> bool" for A where
  start: "distinct ts \<Longrightarrow> set ts = A \<Longrightarrow> pool_reach A (fold (\<lambda>(pid, tid). add_worker pid tid) ts mk_AvailableWorkers) []"
| taken: "pool_reach A aw held \<Longrightarrow> env_ok e \<Longrightarrow> pool_take e op aw = (sel, aw') \<Longrightarrow> pool_reach A aw' (sel @ held)"
| given: "pool_reach A aw held \<Longrightarrow> (pid, tid) \<in> set held \<Longrightarrow> pool_reach A (add_worker pid tid aw) (remove1 (pid, tid) held)"

lemma fold_add_ok:
  "aw_ok aw \<Longrightarrow> aw_ok (fold (\<lambda>(pid, tid). add_worker pid tid) ts aw) \<and> free (fold (\<lambda>(pid, tid). add_worker pid tid) ts aw) = set ts \<union> free aw"
  by (induction ts arbitrary: aw) (auto simp: aw_ok_add)

text \<open>
  C21. No thread is lost and none is handed out twice: in every reachable state of the pool the two containers agree, the
  threads that are held are pairwise different, and every thread is either free or held, not both.
\<close>

theorem pool_conserves_threads:
  assumes "pool_reach A aw held"
  shows "aw_ok aw \<and> distinct held \<and> free aw \<inter> set held = {} \<and> free aw \<union> set held = A"
  using assms
proof induction
  case (start ts)
  then show ?case using fold_add_ok [OF aw_ok_init(1), of ts] aw_ok_init(2) by simp
next
  case (taken aw held e op sel aw')
  then show ?case using pool.selected [OF taken.hyps(2) _ taken.hyps(3)] pool.left [OF taken.hyps(2) _ taken.hyps(3)] by auto
next
  case (given aw held pid tid)
  then show ?case by (auto simp: aw_ok_add)
qed

definition sorted_env :: env where
  "sorted_env = \<lparr>iter_workers = sorted_list_of_set, iter_ints = sorted_list_of_set, rand_at = (\<lambda>k. k), sort_priority = (\<lambda>xs. sort_key (\<lambda>x. - snd x) xs)\<rparr>"

lemma sorted_env_ok: "env_ok sorted_env"
  using sorted_sort_key [of "\<lambda>x :: int \<times> int. - snd x"] by (simp add: env_ok_def sorted_env_def sorted_wrt_map)

theorem pool_conserves_threads_witness:
  "\<exists>aw sel aw'. aw = fold (\<lambda>(pid, tid). add_worker pid tid) [(0, 1), (0, 2), (1, 3)] mk_AvailableWorkers
     \<and> get_workers sorted_env 2 aw = (sel, aw') \<and> distinct sel \<and> free aw' \<union> set sel = {(0, 1), (0, 2), (1, 3)}"
proof -
  let ?aw = "fold (\<lambda>(pid, tid). add_worker pid tid) [(0, 1), (0, 2), (1, 3)] mk_AvailableWorkers"
  obtain sel aw' where t: "get_workers sorted_env 2 ?aw = (sel, aw')" by fastforce
  have "pool_reach {(0, 1), (0, 2), (1, 3)} ?aw []" by (rule pool_reach.start) auto
  then have "pool_reach {(0, 1), (0, 2), (1, 3)} aw' (sel @ [])"
    by (rule pool_reach.taken [OF _ sorted_env_ok, where op = "Anywhere 2"]) (use t in simp)
  from pool_conserves_threads [OF this] t show ?thesis by auto
qed

text \<open>
  What each operation takes, for a request of \<open>n\<close> threads: from one process, exactly \<open>n\<close> of it or nothing when it
  has fewer; from anywhere, \<open>n\<close> or nothing when the pool has fewer; locally, \<open>n\<close> of one process, or nothing when no process has so many.
\<close>

theorem taken_amounts:
  assumes "env_ok e" "aw_ok aw" "0 \<le> n"
  shows "length (fst (get_workers_exact_process e n pid aw)) = (if nat n \<le> card {tid. (pid, tid) \<in> free aw} then nat n else 0)
     \<and> length (fst (get_workers e n aw)) = (if nat n \<le> card (free aw) then nat n else 0)
     \<and> length (fst (get_local_workers e n aw)) = (if \<exists>p \<in> dom (aw_pid_tids aw). nat n \<le> card {tid. (p, tid) \<in> free aw} then nat n else 0)
     \<and> (\<exists>p. fst ` set (fst (get_local_workers e n aw)) \<subseteq> {p})"
proof -
  obtain s1 a1 s2 a2 s3 a3 where r: "get_workers_exact_process e n pid aw = (s1, a1)" "get_workers e n aw = (s2, a2)" "get_local_workers e n aw = (s3, a3)"
    by (metis surj_pair)
  show ?thesis
    using exact_process_amount(1) [OF assms r(1)] workers_amount [OF assms r(2)] local_amount [OF assms r(3)] r
    unfolding tids_of_free [OF assms(2)] by simp
qed

theorem taken_amounts_witness:
  "length (fst (get_workers sorted_env 2 (add_worker 0 1 (add_worker 0 2 mk_AvailableWorkers)))) = 2"
proof -
  let ?aw = "add_worker 0 1 (add_worker 0 2 mk_AvailableWorkers)"
  have ok: "aw_ok ?aw" by (intro aw_ok_add aw_ok_init)
  have "free ?aw = {(0, 1), (0, 2)}" by (simp add: aw_ok_init)
  then show ?thesis using taken_amounts [OF sorted_env_ok ok, of 2] by simp
qed

text \<open>
  \<^verbatim>\<open>get_preferred_proc\<close> gives exactly the processes that the task has visited least often, in increasing order, and at
  least one when there is a process.
\<close>

theorem preferred_proc_least:
  assumes "h = history_of task_id hm" "h \<noteq> []" "\<forall>x \<in> set h. x \<le> int_limit"
  shows "fst (get_preferred_proc task_id hm) \<noteq> [] \<and> sorted_wrt (<) (fst (get_preferred_proc task_id hm))
     \<and> set (fst (get_preferred_proc task_id hm)) = int ` {i. i < length h \<and> (\<forall>j < length h. h ! i \<le> h ! j)}"
proof -
  let ?m = "smallest int_limit h"
  have m: "?m = Min (set h)" using assms(2,3) by (simp add: smallest_Min Min_insert)
  have "?m \<in> set h" using m assms(2) by simp
  then obtain i where "i < length h" "h ! i = ?m" by (auto simp: in_set_conv_nth)
  then have ne: "filter (\<lambda>i. h ! i = ?m) [0..<length h] \<noteq> []" by (auto simp: filter_empty_conv)
  have min: "h ! i = ?m \<longleftrightarrow> (\<forall>j < length h. h ! i \<le> h ! j)" if "i < length h" for i
  proof
    assume "h ! i = ?m"
    then show "\<forall>j < length h. h ! i \<le> h ! j" using m by simp
  next
    assume "\<forall>j < length h. h ! i \<le> h ! j"
    then show "h ! i = ?m" unfolding m using that by (intro Min_eqI [symmetric]) (auto simp: in_set_conv_nth)
  qed
  have pref: "fst (get_preferred_proc task_id hm) = map int (filter (\<lambda>i. h ! i = ?m) [0..<length h])"
    using assms(1) by (simp add: get_preferred_proc_def get_task_history_def positions_of_def)
  have "sorted_wrt (<) (map int (filter (\<lambda>i. h ! i = ?m) [0..<length h]))"
    by (simp add: sorted_wrt_map sorted_wrt_filter)
  then show ?thesis using pref ne min by auto
qed

theorem preferred_proc_least_witness:
  "set (fst (get_preferred_proc 4 \<lparr>hm_history = [4 \<mapsto> [2, 1, 3, 1]], hm_last_instance = Map.empty, hm_num_processes = 4\<rparr>)) = {1, 3}"
  using preferred_proc_least [OF refl, of 4 "\<lparr>hm_history = [4 \<mapsto> [2, 1, 3, 1]], hm_last_instance = Map.empty, hm_num_processes = 4\<rparr>"]
  by (auto simp: history_of_def int_limit_def less_Suc_eq numeral_eq_Suc)

end
