(* ===== verification/Thread_Selection.thy ===== *)
theory Thread_Selection
  imports Available_Workers
begin

text \<open>
  The functions that the schedulers share: \<^verbatim>\<open>cluster_manager/task_scheduler/task_scheduler_utils.cpp\<close>.

  \<open>ClusterInfo\<close> is what these functions and the schedulers ask of Husky's \<^verbatim>\<open>WorkerInfo\<close> and \<^verbatim>\<open>Context\<close>. The loop of
  \<^verbatim>\<open>select_threads_from_subset\<close> that takes one thread after the other has no bound in the code; it is a partial function whose
  value \<open>None\<close> means that it runs forever, and the theorems show when it ends.
\<close>

section \<open>Model\<close>

record ClusterInfo =
  ci_num_workers :: int
  ci_num_processes :: int
  ci_pids :: "int list"
  ci_num_local_workers :: "int \<Rightarrow> int"
  ci_proc_of :: "int \<Rightarrow> int"
  ci_global_tids :: "int list"

definition instance_basic_setup :: "Task \<Rightarrow> error + Instance" where
  "instance_basic_setup task =
     bindE (new_Instance task) (\<lambda>inst.
     Inr (if t_type (base task) = BasicTaskType \<and> t_num_workers (base task) = 0 then inst_set_num_workers 1 inst else inst))"

subsection \<open>Strings\<close>

fun contains :: "string \<Rightarrow> string \<Rightarrow> bool" where
  "contains pat [] = (pat = [])"
| "contains pat (c # cs) = (take (length pat) (c # cs) = pat \<or> contains pat cs)"

fun split_at :: "char \<Rightarrow> string \<Rightarrow> string list" where
  "split_at d [] = [[]]"
| "split_at d (c # cs) = (case split_at d cs of [] \<Rightarrow> [] | p # ps \<Rightarrow> if c = d then [] # p # ps else (c # p) # ps)"

definition is_digit :: "char \<Rightarrow> bool" where
  "is_digit c \<longleftrightarrow> 48 \<le> (of_char c :: nat) \<and> (of_char c :: nat) \<le> 57"

definition is_space :: "char \<Rightarrow> bool" where
  "is_space c \<longleftrightarrow> c = CHR '' '' \<or> c \<in> {CHR 0x09, CHR 0x0A, CHR 0x0B, CHR 0x0C, CHR 0x0D}"

definition digits_value :: "string \<Rightarrow> int" where
  "digits_value ds = foldl (\<lambda>n c. 10 * n + (of_char c - 48)) 0 ds"

text \<open>\<^verbatim>\<open>std::stoi\<close>: white space, a sign, the longest run of digits; what follows is ignored.\<close>

definition stoi :: "string \<Rightarrow> error + int" where
  "stoi s =
     (let s = dropWhile is_space s;
          (neg, s) = (case s of [] \<Rightarrow> (False, s) | c # cs \<Rightarrow> if c = CHR ''-'' then (True, cs) else if c = CHR ''+'' then (False, cs) else (False, s));
          ds = takeWhile is_digit s; v = (if neg then - digits_value ds else digits_value ds)
      in if ds = [] then Inl InvalidArgument else if - (2 ^ 31) \<le> v \<and> v < 2 ^ 31 then Inr v else Inl OutOfRange)"

subsection \<open>Checking the requirements of the tasks\<close>

text \<open>One entry of \<^verbatim>\<open>worker_num_type\<close>: whether the cluster is large enough; \<open>num\<close> is the access \<^verbatim>\<open>worker_num[i]\<close>.\<close>

definition check_requirement :: "ClusterInfo \<Rightarrow> error + int \<Rightarrow> string \<Rightarrow> error + bool" where
  "check_requirement ci num type =
     (if type = ''threads_per_worker'' then bindE num (\<lambda>n. Inr (\<not> ci_num_workers ci < n * ci_num_processes ci))
      else if type = ''threads_per_cluster'' then bindE num (\<lambda>n. Inr (\<not> ci_num_workers ci < n))
      else if type = ''local_threads'' then bindE num (\<lambda>n. Inr (\<exists>pid \<in> set (ci_pids ci). ci_num_local_workers ci pid \<ge> n))
      else if type = ''threads_traverse_cluster'' then bindE num (\<lambda>n. Inr (\<not> (\<exists>pid \<in> set (ci_pids ci). ci_num_local_workers ci pid < n)))
      else if contains ''threads_on_worker'' type then
        (case split_at (CHR '':'') type of
           [a, b] \<Rightarrow> bindE (stoi b) (\<lambda>pos. bindE num (\<lambda>n. Inr (\<not> ci_num_local_workers ci pos < n)))
         | _ \<Rightarrow> Inl (HuskyException ''[task_scheduler_utils] illegal threads_on_worker of worker_num about ConfigurableWorkersTask.''))
      else Inl (HuskyException ''[task_scheduler_utils] illegal threads_on_worker of worker_num_type about ConfigurableWorkersTask.''))"

text \<open>The loop over \<^verbatim>\<open>worker_num_type\<close>, which stops at the first requirement that is not met.\<close>

fun check_requirements :: "ClusterInfo \<Rightarrow> int list \<Rightarrow> nat \<Rightarrow> string list \<Rightarrow> error + bool" where
  "check_requirements ci ns i [] = Inr True"
| "check_requirements ci ns i (ty # tys) =
     bindE (check_requirement ci (vec_get ns i) ty) (\<lambda>ok. if ok then check_requirements ci ns (i + 1) tys else Inr False)"

fun check_task :: "ClusterInfo \<Rightarrow> Task \<Rightarrow> error + bool" where
  "check_task ci task =
     (if t_type (base task) = ConfigurableWorkersTaskType then
        (case task of ConfigurableWorkers b ns tys \<Rightarrow> check_requirements ci ns 0 tys | _ \<Rightarrow> Inl UndefinedBehaviour)
      else Inr (\<not> ci_num_workers ci < t_num_workers (base task)))"

fun global_guarantee_threads :: "ClusterInfo \<Rightarrow> Task list \<Rightarrow> error + unit" where
  "global_guarantee_threads ci [] = Inr ()"
| "global_guarantee_threads ci (task # tasks) =
     bindE (check_task ci task) (\<lambda>ok.
     if ok then global_guarantee_threads ci tasks else Inl (ThreadsOverflow (t_id (base task))))"

subsection \<open>Selecting threads\<close>

type_synonym selection = "(int \<times> int) list \<times> AvailableWorkers \<times> HistoryManager"

definition select_by_type :: "env \<Rightarrow> int \<Rightarrow> int \<Rightarrow> int \<Rightarrow> string \<Rightarrow> HistoryManager \<Rightarrow> AvailableWorkers \<Rightarrow> error + selection" where
  "select_by_type e num_processes task_id n ty hm aw =
     (if ty = ''threads_per_worker'' then (let (sel, aw) = get_workers_per_process e n num_processes aw in Inr (sel, aw, hm))
      else if ty = ''threads_per_cluster'' then (let (sel, aw) = get_workers e n aw in Inr (sel, aw, hm))
      else if ty = ''local_threads'' then (let (sel, aw) = get_local_workers e n aw in Inr (sel, aw, hm))
      else if ty = ''threads_traverse_cluster'' then get_traverse_workers e task_id n hm aw
      else if contains ''threads_on_worker'' ty then
        (case split_at (CHR '':'') ty of
           [x, y] \<Rightarrow> bindE (stoi y) (\<lambda>pid. let (sel, aw) = get_workers_exact_process e n pid aw in Inr (sel, aw, hm))
         | _ \<Rightarrow> Inr ([], aw, hm))
      else Inr ([], aw, hm))"

definition select_configurable :: "env \<Rightarrow> int \<Rightarrow> Instance \<Rightarrow> HistoryManager \<Rightarrow> AvailableWorkers \<Rightarrow> error + selection" where
  "select_configurable e num_processes inst hm aw =
     (case inst_task inst of
        ConfigurableWorkers b ns tys \<Rightarrow>
          if ns = [] then Inl DivideByZero else
          (let pos = as_size (inst_epoch inst) mod length ns in
           bindE (vec_get ns pos) (\<lambda>n. bindE (vec_get tys pos) (\<lambda>ty.
           select_by_type e num_processes (inst_id inst) n ty hm aw)))
      | _ \<Rightarrow> Inl UndefinedBehaviour)"

text \<open>A local task: the first candidate process with enough free threads.\<close>

fun select_local :: "env \<Rightarrow> int \<Rightarrow> int list \<Rightarrow> (int \<times> int) list \<Rightarrow> AvailableWorkers \<Rightarrow> (int \<times> int) list \<times> AvailableWorkers" where
  "select_local e n [] sel aw = (sel, aw)"
| "select_local e n (pid # pids) sel aw =
     (let (sel, aw) = get_workers_exact_process e n pid aw in
      if length sel = as_size n then (sel, aw) else select_local e n pids sel aw)"

text \<open>The other tasks: first the sum and the minimum over the candidates, ...\<close>

fun count_available :: "int list \<Rightarrow> int \<Rightarrow> int \<Rightarrow> AvailableWorkers \<Rightarrow> int \<times> int \<times> AvailableWorkers" where
  "count_available [] min_per_proc sum_avail aw = (min_per_proc, sum_avail, aw)"
| "count_available (pid # pids) min_per_proc sum_avail aw =
     (let (num, aw) = get_num_available_local_workers pid aw in
      count_available pids (if int num < min_per_proc then int num else min_per_proc) (sum_avail + int num) aw)"

text \<open>... then the same number from every candidate, ...\<close>

fun take_each :: "env \<Rightarrow> int \<Rightarrow> int list \<Rightarrow> (int \<times> int) list \<Rightarrow> AvailableWorkers \<Rightarrow> (int \<times> int) list \<times> AvailableWorkers" where
  "take_each e n [] sel aw = (sel, aw)"
| "take_each e n (pid # pids) sel aw =
     (let (tmp, aw) = get_workers_exact_process e n pid aw in take_each e n pids (sel @ tmp) aw)"

text \<open>... then one at a time; the flag says whether the outer loop goes on.\<close>

fun grab_round :: "env \<Rightarrow> nat \<Rightarrow> int list \<Rightarrow> (int \<times> int) list \<Rightarrow> AvailableWorkers \<Rightarrow> error + (bool \<times> (int \<times> int) list \<times> AvailableWorkers)" where
  "grab_round e n [] sel aw = Inr (True, sel, aw)"
| "grab_round e n (pid # pids) sel aw =
     (let (num, aw) = get_num_available_local_workers pid aw in
      if num > 0 then
        (let (tmp, aw) = get_workers_exact_process e 1 pid aw in
         case tmp of [] \<Rightarrow> Inl UndefinedBehaviour
         | t # ts \<Rightarrow> if length (sel @ [t]) = n then Inr (False, sel @ [t], aw) else grab_round e n pids (sel @ [t]) aw)
      else grab_round e n pids sel aw)"

partial_function (option) grab_loop :: "env \<Rightarrow> nat \<Rightarrow> int list \<Rightarrow> (int \<times> int) list \<Rightarrow> AvailableWorkers
    \<Rightarrow> (error + ((int \<times> int) list \<times> AvailableWorkers)) option" where
  "grab_loop e n pids sel aw =
     (case grab_round e n pids sel aw of
        Inl err \<Rightarrow> Some (Inl err)
      | Inr (keep, sel, aw) \<Rightarrow> if keep then grab_loop e n pids sel aw else Some (Inr (sel, aw)))"

text \<open>\<^verbatim>\<open>/\<close> of C++ truncates towards zero.\<close>

definition c_div :: "int \<Rightarrow> int \<Rightarrow> int" where
  "c_div a b = sgn a * sgn b * (\<bar>a\<bar> div \<bar>b\<bar>)"

definition select_spread :: "env \<Rightarrow> int \<Rightarrow> int \<Rightarrow> int list \<Rightarrow> AvailableWorkers \<Rightarrow> (error + ((int \<times> int) list \<times> AvailableWorkers)) option" where
  "select_spread e num_processes required pids aw =
     (if num_processes = 0 then Some (Inl DivideByZero) else
      let (min_per_proc, sum_avail, aw) = count_available pids (c_div required num_processes) 0 aw in
      if sum_avail \<ge> required then
        let (sel, aw) = (if min_per_proc > 0 then take_each e min_per_proc pids [] aw else ([], aw))
        in if length sel \<noteq> as_size required then grab_loop e (as_size required) pids sel aw else Some (Inr (sel, aw))
      else Some (Inr ([], aw)))"

definition select_threads_from_subset :: "env \<Rightarrow> int \<Rightarrow> int \<Rightarrow> int list \<Rightarrow> Instance \<Rightarrow> HistoryManager \<Rightarrow> AvailableWorkers
    \<Rightarrow> (error + selection) option" where
  "select_threads_from_subset e num_processes required candidate_proc inst hm aw =
     (let ty = t_type (base (inst_task inst)) in
      if ty = ConfigurableWorkersTaskType then Some (select_configurable e num_processes inst hm aw)
      else if ty = BasicTaskType \<and> t_local (base (inst_task inst)) then
        (let (sel, aw) = select_local e required candidate_proc [] aw in
         if length sel = as_size required \<or> sel = [] then Some (Inr (sel, aw, hm)) else Some (Inl AssertFailed))
      else bindO (select_spread e num_processes required candidate_proc aw) (\<lambda>(sel, aw). Some (Inr (sel, aw, hm))))"

section \<open>Taking threads in several steps\<close>

definition takes :: "AvailableWorkers \<Rightarrow> (int \<times> int) list \<Rightarrow> AvailableWorkers \<Rightarrow> bool" where
  "takes aw sel aw' \<longleftrightarrow> aw_ok aw' \<and> distinct sel \<and> set sel \<subseteq> free aw \<and> free aw' = free aw - set sel"

lemma takes_Nil: "aw_ok aw' \<Longrightarrow> free aw' = free aw \<Longrightarrow> takes aw [] aw'"
  by (simp add: takes_def)

lemma takes_append: "takes aw s1 aw1 \<Longrightarrow> takes aw1 s2 aw2 \<Longrightarrow> takes aw (s1 @ s2) aw2"
  by (auto simp: takes_def)

lemma takes_free_cong: "takes aw1 sel aw2 \<Longrightarrow> free aw1 = free aw \<Longrightarrow> takes aw sel aw2"
  by (simp add: takes_def)

context thread_taking
begin

lemma takes: "env_ok e \<Longrightarrow> aw_ok aw \<Longrightarrow> take_threads e aw = (sel, aw') \<Longrightarrow> takes aw sel aw'"
  using selected [of e aw sel aw'] left [of e aw sel aw'] by (simp add: takes_def)

end

text \<open>The free threads of some processes.\<close>

definition free_on :: "int list \<Rightarrow> AvailableWorkers \<Rightarrow> (int \<times> int) set" where
  "free_on pids aw = {x \<in> free aw. fst x \<in> set pids}"

lemma finite_free_on: "aw_ok aw \<Longrightarrow> finite (free_on pids aw)"
  by (simp add: free_on_def finite_free)

lemma card_free_on:
  assumes "takes aw sel aw'" "fst ` set sel \<subseteq> set pids" "aw_ok aw"
  shows "card (free_on pids aw') + length sel = card (free_on pids aw)"
proof -
  have s: "set sel \<subseteq> free_on pids aw" "free_on pids aw' = free_on pids aw - set sel"
    using assms(1,2) by (auto simp: takes_def free_on_def)
  then have "card (free_on pids aw') = card (free_on pids aw) - length sel" "length sel \<le> card (free_on pids aw)"
    using assms(1) card_mono [OF finite_free_on [OF assms(3)] s(1)] by (simp_all add: card_Diff_subset distinct_card takes_def)
  then show ?thesis by simp
qed

lemma card_one_process: "card {x \<in> free aw. fst x = pid} = card {tid. (pid, tid) \<in> free aw}"
proof -
  have "{x \<in> free aw. fst x = pid} = Pair pid ` {tid. (pid, tid) \<in> free aw}" by force
  then show ?thesis by (simp add: card_image inj_on_def)
qed

lemma card_free_on_Cons:
  assumes "aw_ok aw" "pid \<notin> set pids"
  shows "card (free_on (pid # pids) aw) = card {tid. (pid, tid) \<in> free aw} + card (free_on pids aw)"
proof -
  have "free_on (pid # pids) aw = {x \<in> free aw. fst x = pid} \<union> free_on pids aw" "{x \<in> free aw. fst x = pid} \<inter> free_on pids aw = {}"
    using assms(2) by (auto simp: free_on_def)
  then show ?thesis using assms(1) card_one_process [of aw pid] by (simp add: card_Un_disjoint finite_free finite_free_on)
qed

lemma count_available_ok:
  assumes "aw_ok aw" "distinct pids" "count_available pids m t aw = (m', t', aw')"
  shows "aw_ok aw' \<and> free aw' = free aw \<and> t' = t + int (card (free_on pids aw)) \<and> m' \<le> m
     \<and> (\<forall>pid \<in> set pids. m' \<le> int (card {tid. (pid, tid) \<in> free aw}))"
  using assms
proof (induction pids arbitrary: m t aw)
  case Nil
  then show ?case by (simp add: free_on_def)
next
  case (Cons pid pids)
  let ?n = "fst (get_num_available_local_workers pid aw)" and ?aw = "snd (get_num_available_local_workers pid aw)"
  note l = local_workers_ok [OF Cons.prems(1), of pid]
  have "count_available pids (if int ?n < m then int ?n else m) (t + int ?n) ?aw = (m', t', aw')"
    using Cons.prems(3) by (simp add: split_beta)
  from Cons.IH [OF l(1) _ this] Cons.prems(2) have
    "aw_ok aw'" "free aw' = free aw" "t' = t + int ?n + int (card (free_on pids ?aw))" "m' \<le> (if int ?n < m then int ?n else m)"
    "\<forall>p \<in> set pids. m' \<le> int (card {tid. (p, tid) \<in> free aw})" using l(2) by auto
  moreover have "free_on pids ?aw = free_on pids aw" using l(2) by (simp add: free_on_def)
  ultimately show ?case using l(3) card_free_on_Cons [OF Cons.prems(1), of pid pids] Cons.prems(2) by (auto split: if_splits)
qed

lemma take_each_ok:
  assumes "env_ok e" "aw_ok aw" "distinct pids" "0 \<le> n" "\<forall>pid \<in> set pids. n \<le> int (card {tid. (pid, tid) \<in> free aw})"
  shows "\<exists>tmp aw'. take_each e n pids sel aw = (sel @ tmp, aw') \<and> takes aw tmp aw' \<and> fst ` set tmp \<subseteq> set pids \<and> length tmp = nat n * length pids"
  using assms(2,3,5)
proof (induction pids arbitrary: sel aw)
  case Nil
  then show ?case by (simp add: takes_Nil)
next
  case (Cons pid pids)
  obtain s1 aw1 where s1: "get_workers_exact_process e n pid aw = (s1, aw1)" by fastforce
  note t1 = exact.takes [OF assms(1) Cons.prems(1) s1]
  note a1 = exact_process_amount [OF assms(1) Cons.prems(1) assms(4) s1]
  have len: "length s1 = nat n" using a1(1) Cons.prems(3) by (auto split: if_splits)
  have same: "{tid. (p, tid) \<in> free aw1} = {tid. (p, tid) \<in> free aw}" if "p \<in> set pids" for p
  proof -
    have "p \<noteq> pid" using that Cons.prems(2) by auto
    then have "(p, tid) \<notin> set s1" for tid using a1(2) by force
    then show ?thesis using t1 by (auto simp: takes_def)
  qed
  obtain s2 aw2 where s2: "take_each e n pids (sel @ s1) aw1 = ((sel @ s1) @ s2, aw2)" "takes aw1 s2 aw2" "fst ` set s2 \<subseteq> set pids"
    "length s2 = nat n * length pids"
  proof -
    have "aw_ok aw1" using t1 by (simp add: takes_def)
    moreover have "\<forall>p \<in> set pids. n \<le> int (card {tid. (p, tid) \<in> free aw1})" using Cons.prems(3) same by simp
    ultimately show ?thesis using Cons.IH [of aw1 "sel @ s1"] Cons.prems(2) that by auto
  qed
  have "take_each e n (pid # pids) sel aw = (sel @ (s1 @ s2), aw2)" using s1 s2(1) by simp
  moreover have "fst ` set (s1 @ s2) \<subseteq> set (pid # pids)" using a1(2) s2(3) by auto
  ultimately show ?case using takes_append [OF t1 s2(2)] len s2(4) by (intro exI [of _ "s1 @ s2"] exI [of _ aw2]) simp
qed

text \<open>One round: it takes at most one thread of each process, and at least one if there is any.\<close>

lemma grab_round_ok:
  assumes "env_ok e" "aw_ok aw" "length sel < n"
  shows "\<exists>keep tmp aw'. grab_round e n pids sel aw = Inr (keep, sel @ tmp, aw') \<and> takes aw tmp aw' \<and> fst ` set tmp \<subseteq> set pids
     \<and> (if keep then length (sel @ tmp) < n else length (sel @ tmp) = n) \<and> (free_on pids aw \<noteq> {} \<longrightarrow> tmp \<noteq> [])"
  using assms(2,3)
proof (induction pids arbitrary: sel aw)
  case Nil
  then show ?case by (intro exI [of _ True] exI [of _ "[]"]) (simp add: takes_Nil free_on_def)
next
  case (Cons pid pids)
  obtain num aw1 where l0: "get_num_available_local_workers pid aw = (num, aw1)" by fastforce
  note l = local_workers_ok [OF Cons.prems(1), of pid, unfolded l0 fst_conv snd_conv]
  have fin: "finite {tid. (pid, tid) \<in> free aw}"
    using finite_vimageI [OF finite_free [OF Cons.prems(1)], of "Pair pid"] by (simp add: vimage_def inj_on_def)
  show ?case
  proof (cases "num > 0")
    case False
    then have "{tid. (pid, tid) \<in> free aw} = {}" using l(3) fin by simp
    then have "free_on (pid # pids) aw = free_on pids aw1" using l(2) by (auto simp: free_on_def)
    moreover obtain keep tmp aw' where "grab_round e n pids sel aw1 = Inr (keep, sel @ tmp, aw')" "takes aw1 tmp aw'" "fst ` set tmp \<subseteq> set pids"
      "if keep then length (sel @ tmp) < n else length (sel @ tmp) = n" "free_on pids aw1 \<noteq> {} \<longrightarrow> tmp \<noteq> []"
      using Cons.IH [OF l(1) Cons.prems(2)] by auto
    ultimately show ?thesis using False l0 takes_free_cong [OF _ l(2)]
      by (intro exI [of _ keep] exI [of _ tmp] exI [of _ aw']) auto
  next
    case True
    obtain t1 aw2 where t1: "get_workers_exact_process e 1 pid aw1 = (t1, aw2)" by fastforce
    have "1 \<le> card {tid. (pid, tid) \<in> free aw1}" using True l(2,3) by simp
    then have "length t1 = 1" "fst ` set t1 \<subseteq> {pid}" using exact_process_amount [OF assms(1) l(1) _ t1] by simp_all
    then obtain x where x: "t1 = [x]" "fst x = pid" by (cases t1) auto
    have tk: "takes aw [x] aw2" using exact.takes [OF assms(1) l(1) t1] x takes_free_cong l(2) by blast
    have step: "grab_round e n (pid # pids) sel aw
        = (if length (sel @ [x]) = n then Inr (False, sel @ [x], aw2) else grab_round e n pids (sel @ [x]) aw2)"
      using True l0 t1 x by simp
    show ?thesis
    proof (cases "length (sel @ [x]) = n")
      case True
      then show ?thesis using step tk x by (intro exI [of _ False] exI [of _ "[x]"] exI [of _ aw2]) simp
    next
      case False
      then have "length (sel @ [x]) < n" using Cons.prems(2) by simp
      moreover have "aw_ok aw2" using tk by (simp add: takes_def)
      ultimately obtain keep tmp aw' where "grab_round e n pids (sel @ [x]) aw2 = Inr (keep, (sel @ [x]) @ tmp, aw')" "takes aw2 tmp aw'"
        "fst ` set tmp \<subseteq> set pids" "if keep then length ((sel @ [x]) @ tmp) < n else length ((sel @ [x]) @ tmp) = n"
        using Cons.IH [of aw2 "sel @ [x]"] by auto
      then show ?thesis using False step x takes_append [OF tk]
        by (intro exI [of _ keep] exI [of _ "x # tmp"] exI [of _ aw']) auto
    qed
  qed
qed

text \<open>The loop ends as soon as the processes have enough free threads.\<close>

lemma grab_loop_ok:
  assumes "env_ok e" "aw_ok aw" "length sel < n" "n \<le> length sel + card (free_on pids aw)"
  shows "\<exists>tmp aw'. grab_loop e n pids sel aw = Some (Inr (sel @ tmp, aw')) \<and> takes aw tmp aw' \<and> fst ` set tmp \<subseteq> set pids
     \<and> length (sel @ tmp) = n"
  using assms(2-4)
proof (induction "n - length sel" arbitrary: sel aw rule: less_induct)
  case less
  obtain keep tmp aw1 where r: "grab_round e n pids sel aw = Inr (keep, sel @ tmp, aw1)" "takes aw tmp aw1" "fst ` set tmp \<subseteq> set pids"
    "if keep then length (sel @ tmp) < n else length (sel @ tmp) = n" "free_on pids aw \<noteq> {} \<longrightarrow> tmp \<noteq> []"
    using grab_round_ok [OF assms(1) less.prems(1,2), of pids] by (elim exE conjE) (rule that)
  show ?case
  proof (cases keep)
    case False
    then show ?thesis using r by (subst grab_loop.simps) auto
  next
    case True
    have "card (free_on pids aw) \<noteq> 0" using less.prems(2,3) by simp
    then have "tmp \<noteq> []" using r(5) by auto
    have ok: "aw_ok aw1" using r(2) by (simp add: takes_def)
    have "n \<le> length (sel @ tmp) + card (free_on pids aw1)" using card_free_on [OF r(2,3) less.prems(1)] less.prems(3) by simp
    moreover have "length (sel @ tmp) < n" "n - length (sel @ tmp) < n - length sel"
      using True r(4) \<open>tmp \<noteq> []\<close> by (simp_all add: diff_less_mono2)
    ultimately obtain tmp2 aw2 where
      "grab_loop e n pids (sel @ tmp) aw1 = Some (Inr ((sel @ tmp) @ tmp2, aw2))" "takes aw1 tmp2 aw2" "fst ` set tmp2 \<subseteq> set pids"
      "length ((sel @ tmp) @ tmp2) = n" using less.hyps [of "sel @ tmp" aw1] ok by (elim meta_impE exE conjE) blast+
    then show ?thesis using True r(1,3) takes_append [OF r(2)]
      by (intro exI [of _ "tmp @ tmp2"] exI [of _ aw2]) (subst grab_loop.simps, auto)
  qed
qed

lemma select_spread_ok:
  assumes "env_ok e" "aw_ok aw" "distinct pids" "int (length pids) \<le> P" "0 < P" "0 \<le> n"
  shows "\<exists>sel aw'. select_spread e P n pids aw = Some (Inr (sel, aw')) \<and> takes aw sel aw' \<and> fst ` set sel \<subseteq> set pids
     \<and> length sel = (if nat n \<le> card (free_on pids aw) then nat n else 0)"
proof -
  obtain m t aw1 where c0: "count_available pids (c_div n P) 0 aw = (m, t, aw1)" by (metis prod_cases3)
  note c = count_available_ok [OF assms(2,3) c0]
  have same: "free_on pids aw1 = free_on pids aw" "{tid. (p, tid) \<in> free aw1} = {tid. (p, tid) \<in> free aw}" for p
    using c by (simp_all add: free_on_def)
  show ?thesis
  proof (cases "nat n \<le> card (free_on pids aw)")
    case False
    then have "\<not> t \<ge> n" using c by linarith
    then show ?thesis using False assms(5) c0 c by (simp add: select_spread_def takes_Nil)
  next
    case True
    have ge: "t \<ge> n" using True c by linarith
    define r where "r = (if m > 0 then take_each e m pids [] aw1 else ([], aw1))"
    have m: "m \<le> n div P" using c assms(5,6) by (simp add: c_div_def sgn_if split: if_splits)
    obtain sel aw2 where r: "r = (sel, aw2)" "takes aw1 sel aw2" "fst ` set sel \<subseteq> set pids" "length sel \<le> nat n"
    proof (cases "m > 0")
      case True
      then obtain tmp aw2 where t: "take_each e m pids [] aw1 = ([] @ tmp, aw2)" "takes aw1 tmp aw2" "fst ` set tmp \<subseteq> set pids" "length tmp = nat m * length pids"
        using take_each_ok [OF assms(1) _ assms(3), of aw1 m "[]"] c same by auto
      have "m * int (length pids) \<le> n div P * P" using m True assms(4) by (intro mult_mono) auto
      also have "\<dots> \<le> n" using div_mult_mod_eq [of n P] pos_mod_sign [OF assms(5), of n] by linarith
      finally have "int (nat m * length pids) \<le> n" using True by simp
      then have "length tmp \<le> nat n" using t(4) by linarith
      then show ?thesis using that [of tmp aw2] t True by (simp add: r_def)
    next
      case False
      then show ?thesis using that [of "[]" aw1] c by (simp add: r_def takes_Nil)
    qed
    have tk: "takes aw sel aw2" using takes_free_cong [OF r(2)] c by blast
    have sp: "select_spread e P n pids aw = (if length sel \<noteq> nat n then grab_loop e (nat n) pids sel aw2 else Some (Inr (sel, aw2)))"
      using assms(5,6) c0 ge r(1) by (simp add: select_spread_def as_size_nonneg r_def split: if_splits)
    show ?thesis
    proof (cases "length sel = nat n")
      case True
      then show ?thesis using sp tk r(3) \<open>nat n \<le> card (free_on pids aw)\<close> by simp
    next
      case False
      have "card (free_on pids aw2) + length sel = card (free_on pids aw)" using card_free_on [OF tk r(3) assms(2)] .
      then obtain tmp aw3 where "grab_loop e (nat n) pids sel aw2 = Some (Inr (sel @ tmp, aw3))" "takes aw2 tmp aw3" "fst ` set tmp \<subseteq> set pids"
        "length (sel @ tmp) = nat n"
        using grab_loop_ok [OF assms(1), of aw2 sel "nat n" pids] tk False r(4) True by (auto simp: takes_def)
      then show ?thesis using False sp True r(3) takes_append [OF tk] by auto
    qed
  qed
qed

lemma select_local_ok:
  assumes "env_ok e" "aw_ok aw" "0 \<le> n" "select_local e n pids [] aw = (sel, aw')"
  shows "takes aw sel aw'" "length sel = (if \<exists>pid \<in> set pids. nat n \<le> card {tid. (pid, tid) \<in> free aw} then nat n else 0)"
    "\<exists>pid. fst ` set sel \<subseteq> {pid}" "fst ` set sel \<subseteq> set pids"
proof -
  have "takes aw sel aw' \<and> length sel = (if \<exists>pid \<in> set pids. nat n \<le> card {tid. (pid, tid) \<in> free aw} then nat n else 0)
      \<and> (\<exists>pid. fst ` set sel \<subseteq> {pid}) \<and> fst ` set sel \<subseteq> set pids"
    using assms(2,4)
  proof (induction pids arbitrary: aw)
    case Nil
    then show ?case by (simp add: takes_Nil)
  next
    case (Cons pid pids)
    obtain s1 aw1 where s1: "get_workers_exact_process e n pid aw = (s1, aw1)" by fastforce
    note t1 = exact.takes [OF assms(1) Cons.prems(1) s1] and a1 = exact_process_amount [OF assms(1) Cons.prems(1) assms(3) s1]
    show ?case
    proof (cases "length s1 = nat n")
      case True
      then have "sel = s1" "aw' = aw1" using Cons.prems(2) s1 assms(3) by (simp_all add: as_size_nonneg)
      then show ?thesis using t1 a1 True by (auto split: if_splits)
    next
      case False
      then have nil: "s1 = []" "\<not> nat n \<le> card {tid. (pid, tid) \<in> free aw}" using a1(1) by (auto split: if_splits)
      then have "free aw1 = free aw" "aw_ok aw1" using t1 by (simp_all add: takes_def)
      moreover have "select_local e n pids [] aw1 = (sel, aw')" using Cons.prems(2) s1 False nil(1) assms(3) by (simp add: as_size_nonneg)
      ultimately show ?thesis using Cons.IH [of aw1] nil(2) takes_free_cong [of aw1 sel aw' aw] by auto
    qed
  qed
  then show "takes aw sel aw'" "length sel = (if \<exists>pid \<in> set pids. nat n \<le> card {tid. (pid, tid) \<in> free aw} then nat n else 0)"
    "\<exists>pid. fst ` set sel \<subseteq> {pid}" "fst ` set sel \<subseteq> set pids" by simp_all
qed

lemma ifE: "(if b then x else y) = z \<Longrightarrow> (x = z \<Longrightarrow> R) \<Longrightarrow> (y = z \<Longrightarrow> R) \<Longrightarrow> R"
  by (cases b) simp_all

lemma with_history: "(let (s, a) = r in Inr (s, a, hm)) = Inr (sel, aw', hm') \<Longrightarrow> r = (sel, aw')"
  by (cases r) simp

lemma traverse_takes:
  assumes "env_ok e" "aw_ok aw" "get_traverse_workers e i n hm aw = Inr (sel, aw', hm')"
  shows "takes aw sel aw'"
  using assms(3) traversal.takes [OF assms(1,2)]
  by (auto simp: get_traverse_workers_def get_task_history_def Let_def res_simps split: prod.splits)

lemma on_worker_takes:
  assumes "env_ok e" "aw_ok aw"
    and "(case parts of [x, y] \<Rightarrow> bindE (stoi y) (\<lambda>pid. let (s, a) = get_workers_exact_process e n pid aw in Inr (s, a, hm)) | _ \<Rightarrow> Inr ([], aw, hm))
       = Inr (sel, aw', hm')"
  shows "takes aw sel aw'"
  using assms(2,3) with_history [THEN exact.takes [OF assms(1,2)]]
  by (auto simp: res_simps takes_Nil split: list.splits)

lemma select_by_type_takes:
  assumes "env_ok e" "aw_ok aw" "select_by_type e P i n ty hm aw = Inr (sel, aw', hm')"
  shows "takes aw sel aw'"
  using assms(3) unfolding select_by_type_def
proof (elim ifE)
qed (rule with_history [THEN per_process.takes [OF assms(1,2)]] with_history [THEN anywhere.takes [OF assms(1,2)]]
       with_history [THEN local_process.takes [OF assms(1,2)]] traverse_takes [OF assms(1,2)] on_worker_takes [OF assms(1,2)],
     assumption | use assms(2) in \<open>auto simp: takes_Nil\<close>)+

lemma select_configurable_takes:
  assumes "env_ok e" "aw_ok aw" "select_configurable e P inst hm aw = Inr (sel, aw', hm')"
  shows "takes aw sel aw'"
  using assms(3) select_by_type_takes [OF assms(1,2)]
  by (auto simp: select_configurable_def Let_def res_simps split: Task.splits if_splits)

section \<open>Properties\<close>

definition valid_candidates :: "int \<Rightarrow> int list \<Rightarrow> bool" where
  "valid_candidates P pids \<longleftrightarrow> 0 < P \<and> distinct pids \<and> int (length pids) \<le> P"

lemma select_spread_takes:
  assumes "env_ok e" "aw_ok aw" "0 \<le> n" "valid_candidates P pids" "select_spread e P n pids aw = Some (Inr (sel, aw'))"
  shows "takes aw sel aw'"
  using select_spread_ok [OF assms(1,2), of pids P n] assms(3-5) by (auto simp: valid_candidates_def)

lemma select_threads_takes:
  assumes "env_ok e" "aw_ok aw" "0 \<le> n" "valid_candidates P pids"
    and sel: "select_threads_from_subset e P n pids inst hm aw = Some (Inr (sel, aw', hm'))"
  shows "takes aw sel aw'"
proof -
  consider "select_configurable e P inst hm aw = Inr (sel, aw', hm')" | "select_local e n pids [] aw = (sel, aw')"
    | "select_spread e P n pids aw = Some (Inr (sel, aw'))"
    using sel by (auto simp: select_threads_from_subset_def Let_def res_simps split: if_splits prod.splits)
  then show ?thesis
    by cases (use select_configurable_takes [OF assms(1,2)] select_local_ok(1) [OF assms(1-3)] select_spread_takes [OF assms(1-4)] in blast)+
qed

lemma select_basic:
  assumes "env_ok e" "aw_ok aw" "0 \<le> n" "valid_candidates P pids" "t_type b = BasicTaskType"
    and "inst_task inst = Basic b"
  shows "\<exists>sel aw'. select_threads_from_subset e P n pids inst hm aw = Some (Inr (sel, aw', hm)) \<and> fst ` set sel \<subseteq> set pids
     \<and> length sel = (if (if t_local b then \<exists>p \<in> set pids. nat n \<le> card {t. (p, t) \<in> free aw}
                        else nat n \<le> card (free_on pids aw)) then nat n else 0)
     \<and> (t_local b \<longrightarrow> (\<exists>p. fst ` set sel \<subseteq> {p}))"
proof (cases "t_local b")
  case True
  obtain sel aw' where s: "select_local e n pids [] aw = (sel, aw')" by fastforce
  note l = select_local_ok [OF assms(1-3) s]
  show ?thesis using True assms(3,5,6) s l by (auto simp: select_threads_from_subset_def as_size_nonneg split: if_splits)
next
  case False
  then show ?thesis
    using select_spread_ok [OF assms(1,2), of pids P n] assms(3-6) by (auto simp: select_threads_from_subset_def valid_candidates_def free_on_def)
qed

text \<open>
  C19. Thread selection is safe for every kind of task: the selected threads are pairwise different, were free, and are exactly
  the ones that are not free any more; the pool stays consistent. The iteration orders and the random numbers are arbitrary.
  Scope: calls that return; for basic tasks all do.
\<close>

theorem select_threads_safe:
  assumes "env_ok e" "aw_ok aw" "0 \<le> n" "valid_candidates P pids"
    and "select_threads_from_subset e P n pids inst hm aw = Some (Inr (sel, aw', hm'))"
  shows "aw_ok aw' \<and> distinct sel \<and> set sel \<subseteq> free aw \<and> free aw' = free aw - set sel"
  using select_threads_takes [OF assms] by (simp add: takes_def)

definition example_pool :: AvailableWorkers where
  "example_pool = fold (\<lambda>(pid, tid). add_worker pid tid) [(0, 1), (0, 2), (1, 3), (2, 4)] mk_AvailableWorkers"

definition example_history :: HistoryManager where
  "example_history = \<lparr>hm_history = Map.empty, hm_last_instance = Map.empty, hm_num_processes = 3\<rparr>"

definition plain_instance :: "Task \<Rightarrow> Instance" where
  "plain_instance t = \<lparr>inst_task = t, inst_cluster = Map.empty\<rparr>"

lemma example_pool_ok: "aw_ok example_pool" "free example_pool = {(0, 1), (0, 2), (1, 3), (2, 4)}"
  using fold_add_ok [OF aw_ok_init(1), of "[(0, 1), (0, 2), (1, 3), (2, 4)]"] aw_ok_init(2) by (auto simp: example_pool_def)

lemma example_candidates: "valid_candidates 3 [0, 1, 2]"
  by (simp add: valid_candidates_def)

text \<open>
  C18. For a task without a configured placement the selection always returns (the loop without a bound ends), and it
  takes exactly the required number of threads, all on candidate processes, whenever the candidates have so many free threads, and
  none otherwise. For a local task all threads are of one process, and it succeeds whenever one candidate has enough.
  Scope: tasks of the basic type, local or not, and different candidate processes.
\<close>

theorem select_threads_exact:
  assumes "env_ok e" "aw_ok aw" "0 \<le> n" "valid_candidates P pids" "t_type b = BasicTaskType"
    and "inst_task inst = Basic b"
  shows "\<exists>sel aw'. select_threads_from_subset e P n pids inst hm aw = Some (Inr (sel, aw', hm)) \<and> fst ` set sel \<subseteq> set pids
     \<and> length sel = (if (if t_local b then \<exists>p \<in> set pids. nat n \<le> card {t. (p, t) \<in> free aw}
                        else nat n \<le> card {x \<in> free aw. fst x \<in> set pids}) then nat n else 0)
     \<and> (t_local b \<longrightarrow> (\<exists>p. fst ` set sel \<subseteq> {p}))"
  using select_basic [OF assms, of hm] unfolding free_on_def by (elim exE conjE) (intro exI conjI; assumption)

theorem select_threads_safe_witness:
  "\<exists>sel aw'. select_threads_from_subset sorted_env 3 3 [0, 1, 2] (plain_instance (mk_Task 7 1 3)) example_history example_pool
     = Some (Inr (sel, aw', example_history)) \<and> distinct sel \<and> free aw' = {(0, 1), (0, 2), (1, 3), (2, 4)} - set sel"
proof -
  obtain sel aw' where s: "select_threads_from_subset sorted_env 3 3 [0, 1, 2] (plain_instance (mk_Task 7 1 3)) example_history example_pool
      = Some (Inr (sel, aw', example_history))"
    using select_spread_ok [OF sorted_env_ok example_pool_ok(1), of "[0, 1, 2]" 3 3]
    by (auto simp: select_threads_from_subset_def plain_instance_def mk_Task_def mk_base_def)
  from select_threads_safe [OF sorted_env_ok example_pool_ok(1) _ example_candidates s] s show ?thesis by (auto simp: example_pool_ok)
qed

theorem select_threads_exact_witness:
  "\<exists>sel aw'. select_threads_from_subset sorted_env 3 4 [0, 1, 2] (plain_instance (mk_Task 7 1 4)) example_history example_pool
     = Some (Inr (sel, aw', example_history)) \<and> length sel = 4"
proof -
  have c: "{x \<in> {(0, 1), (0, 2), (1, 3), (2, 4 :: int)}. fst x \<in> set [0, 1, 2 :: int]} = {(0, 1), (0, 2), (1, 3), (2, 4)}" by auto
  from select_threads_exact [OF sorted_env_ok example_pool_ok(1) _ example_candidates, of 4 "mk_base 7 1 4 BasicTaskType" "plain_instance (mk_Task 7 1 4)" example_history]
  show ?thesis unfolding example_pool_ok(2) c by (auto simp: plain_instance_def mk_Task_def mk_base_def)
qed

end
