(* ===== verification/Schedulers.thy ===== *)
theory Schedulers
  imports Thread_Selection
begin

text \<open>
  What the schedulers of the cluster manager have in common: the interface \<^verbatim>\<open>TaskScheduler\<close>
  (\<^verbatim>\<open>cluster_manager/task_scheduler/task_scheduler.hpp\<close>), the construction of the pool, the placement of an instance on the selected
  threads and the bookkeeping of the running threads.

  \<^verbatim>\<open>task_id_pid_tids_\<close> maps a task to a map from a process to a set of threads; a process without threads and a task without
  processes are erased from it, so it is a set of triples (task, process, thread).

  Where one call takes threads several times, it is given a sequence of \<open>env\<close>, one for each time.

  The locale \<open>scheduler\<close> is the contract of \<^verbatim>\<open>extract_instances\<close> and \<^verbatim>\<open>finish_thread\<close> with respect to threads; the greedy, the sequential
  and the priority scheduler are instances of it. Its lemma is about \<open>sched_run\<close>, any sequence of calls of the two.
\<close>

section \<open>Model\<close>

type_synonym tracking = "(int \<times> int \<times> int) set"      \<comment> \<open>task, process, thread\<close>

text \<open>What every scheduler has: the base class's \<^verbatim>\<open>worker_info\<close>, \<^verbatim>\<open>available_workers_\<close>, \<^verbatim>\<open>task_id_pid_tids_\<close>, and the history singleton.\<close>

record Sched =
  sc_info :: ClusterInfo
  sc_pool :: AvailableWorkers
  sc_track :: tracking
  sc_hist :: HistoryManager

definition init_pool :: "ClusterInfo \<Rightarrow> AvailableWorkers" where
  "init_pool ci = fold (\<lambda>tid. add_worker (ci_proc_of ci tid) tid) (ci_global_tids ci) mk_AvailableWorkers"

text \<open>\<^verbatim>\<open>instance->add_thread(pid, tid, j++)\<close> for the selected threads.\<close>

fun place_from :: "int \<Rightarrow> (int \<times> int) list \<Rightarrow> Instance \<Rightarrow> Instance" where
  "place_from j [] inst = inst"
| "place_from j ((pid, tid) # sel) inst = place_from (j + 1) sel (add_thread pid tid j inst)"

definition tracked :: "int \<Rightarrow> (int \<times> int) list \<Rightarrow> tracking" where
  "tracked task_id sel = (\<lambda>(pid, tid). (task_id, pid, tid)) ` set sel"

definition untracked :: "int \<Rightarrow> tracking \<Rightarrow> bool" where
  "untracked task_id tr \<longleftrightarrow> task_id \<notin> fst ` tr"

definition all_processes :: "int \<Rightarrow> int list" where
  "all_processes n = [0..n - 1]"

text \<open>Selecting the threads for an instance, placing it on them, tracking them and updating the history; \<open>None\<close> if no threads were found.\<close>

definition commit :: "int \<Rightarrow> (int \<times> int) list \<Rightarrow> Instance \<Rightarrow> 'a Sched_scheme \<Rightarrow> error + (Instance \<times> 'a Sched_scheme)" where
  "commit task_id sel inst s =
     bindE (update_history task_id sel (sc_hist s)) (\<lambda>hm.
     Inr (place_from 0 sel inst, s\<lparr>sc_track := sc_track s \<union> tracked task_id sel, sc_hist := hm\<rparr>))"

definition try_place :: "env \<Rightarrow> int \<Rightarrow> int list \<Rightarrow> Instance \<Rightarrow> 'a Sched_scheme \<Rightarrow> (error + (Instance option \<times> 'a Sched_scheme)) option" where
  "try_place e task_id candidates inst s =
     bindO (select_threads_from_subset e (ci_num_processes (sc_info s)) (inst_num_workers inst) candidates inst (sc_hist s) (sc_pool s)) (\<lambda>(sel, aw, hm).
     let s = s\<lparr>sc_pool := aw, sc_hist := hm\<rparr> in
     if sel = [] then Some (Inr (None, s))
     else bindO (Some (commit task_id sel inst s)) (\<lambda>(inst, s). Some (Inr (Some inst, s))))"

text \<open>The least visited processes, and the choice that does not look at the history for a basic task that is not local.\<close>

definition preferred :: "int \<Rightarrow> 'a Sched_scheme \<Rightarrow> int list \<times> 'a Sched_scheme" where
  "preferred task_id s = (let (pids, hm) = get_preferred_proc task_id (sc_hist s) in (pids, s\<lparr>sc_hist := hm\<rparr>))"

definition all_or_preferred :: "int \<Rightarrow> Instance \<Rightarrow> 'a Sched_scheme \<Rightarrow> int list \<times> 'a Sched_scheme" where
  "all_or_preferred task_id inst s =
     (if t_type (base (inst_task inst)) = BasicTaskType \<and> \<not> t_local (base (inst_task inst))
      then (all_processes (ci_num_processes (sc_info s)), s) else preferred task_id s)"

text \<open>\<^verbatim>\<open>task_to_instance\<close> of the sequential and of the auto-parallelism scheduler, which differ in the text of the exception.\<close>

definition task_to_instance :: "string \<Rightarrow> env \<Rightarrow> Task \<Rightarrow> 'a Sched_scheme \<Rightarrow> (error + (Instance \<times> 'a Sched_scheme)) option" where
  "task_to_instance message e task s =
     bindO (Some (instance_basic_setup task)) (\<lambda>inst.
     let (candidate_proc, s) = preferred (inst_id inst) s in
     bindO (try_place e (inst_id inst) candidate_proc inst s) (\<lambda>(r, s).
     case r of None \<Rightarrow> Some (Inl (HuskyException message)) | Some inst \<Rightarrow> Some (Inr (inst, s))))"

text \<open>
  The first part of every \<^verbatim>\<open>finish_thread\<close>. The rest runs if the task has no thread left: \<open>untracked\<close> in the new state.
\<close>

definition release_thread :: "int \<Rightarrow> int \<Rightarrow> 'a Sched_scheme \<Rightarrow> 'a Sched_scheme" where
  "release_thread instance_id tid s =
     (let pid = ci_proc_of (sc_info s) tid in
      s\<lparr>sc_track := sc_track s - {(instance_id, pid, tid)}, sc_pool := add_worker pid tid (sc_pool s)\<rparr>)"

section \<open>Placement\<close>

lemma get_threads_place:
  "get_threads p (place_from j sel inst) = get_threads p inst @ map (\<lambda>i. (snd (sel ! i), j + int i)) (filter (\<lambda>i. fst (sel ! i) = p) [0..<length sel])"
proof (induction sel arbitrary: j inst)
  case (Cons x sel)
  obtain pid tid where x: "x = (pid, tid)" by fastforce
  have upt: "[0..<length (x # sel)] = 0 # map Suc [0..<length sel]" by (simp add: map_Suc_upt upt_conv_Cons del: upt_Suc)
  have "get_threads p (add_thread pid tid j inst) = get_threads p inst @ (if p = pid then [(tid, j)] else [])"
    by (simp add: add_thread_def get_threads_def)
  then show ?case
    unfolding upt unfolding x by (simp add: Cons.IH filter_map comp_def algebra_simps)
qed simp

lemma place_task [simp]: "inst_task (place_from j sel inst) = inst_task inst"
  by (induction j sel inst rule: place_from.induct) (simp_all add: add_thread_def)

section \<open>Threads of a scheduler\<close>

definition placed :: "tracking \<Rightarrow> (int \<times> int) set" where
  "placed tr = snd ` tr"

text \<open>No thread runs two tasks, and no running thread is free.\<close>

definition sched_ok :: "AvailableWorkers \<Rightarrow> tracking \<Rightarrow> bool" where
  "sched_ok aw tr \<longleftrightarrow> aw_ok aw \<and> finite tr \<and> inj_on snd tr \<and> free aw \<inter> placed tr = {}"

definition all_threads :: "AvailableWorkers \<Rightarrow> tracking \<Rightarrow> (int \<times> int) set" where
  "all_threads aw tr = free aw \<union> placed tr"

lemma sched_ok_take:
  assumes "sched_ok aw tr" "takes aw sel aw'"
  shows "sched_ok aw' (tr \<union> tracked i sel)" "all_threads aw' (tr \<union> tracked i sel) = all_threads aw tr"
proof -
  have t: "aw_ok aw'" "set sel \<subseteq> free aw" "free aw' = free aw - set sel" using assms(2) by (simp_all add: takes_def)
  have p: "placed (tr \<union> tracked i sel) = placed tr \<union> set sel" by (auto simp: placed_def tracked_def image_image split_beta image_Un)
  have "inj_on snd (tr \<union> tracked i sel)"
  proof (rule inj_onI)
    fix x y assume xy: "x \<in> tr \<union> tracked i sel" "y \<in> tr \<union> tracked i sel" "snd x = snd y"
    have "snd z \<in> set sel" if "z \<in> tracked i sel" for z using that by (auto simp: tracked_def)
    moreover have "snd z \<notin> set sel" if "z \<in> tr" for z using that t(2) assms(1) by (auto simp: sched_ok_def placed_def)
    ultimately consider "x \<in> tr \<and> y \<in> tr" | "x \<in> tracked i sel \<and> y \<in> tracked i sel" using xy by (metis UnE)
    then show "x = y" by cases (use xy(3) assms(1) in \<open>auto simp: sched_ok_def inj_on_def tracked_def\<close>)
  qed
  moreover have "finite (tracked i sel)" by (simp add: tracked_def)
  ultimately show "sched_ok aw' (tr \<union> tracked i sel)" using assms(1) t p by (auto simp: sched_ok_def)
  show "all_threads aw' (tr \<union> tracked i sel) = all_threads aw tr" using t p by (auto simp: all_threads_def)
qed

lemma sched_ok_give:
  assumes "sched_ok aw tr" "(i, pid, tid) \<in> tr"
  shows "sched_ok (add_worker pid tid aw) (tr - {(i, pid, tid)})" "all_threads (add_worker pid tid aw) (tr - {(i, pid, tid)}) = all_threads aw tr"
proof -
  have "placed (tr - {(i, pid, tid)}) = placed tr - {(pid, tid)}"
    using assms inj_on_image_set_diff [of snd tr tr "{(i, pid, tid)}"] by (simp add: placed_def sched_ok_def)
  moreover have "(pid, tid) \<in> placed tr" using assms(2) by (force simp: placed_def)
  moreover have "inj_on snd (tr - {(i, pid, tid)})" using assms(1) by (auto simp: sched_ok_def inj_on_def)
  ultimately show "sched_ok (add_worker pid tid aw) (tr - {(i, pid, tid)})" "all_threads (add_worker pid tid aw) (tr - {(i, pid, tid)}) = all_threads aw tr"
    using assms(1) by (auto simp: sched_ok_def all_threads_def aw_ok_add)
qed

lemma init_pool_ok: "sched_ok (init_pool ci) {}" "free (init_pool ci) = (\<lambda>tid. (ci_proc_of ci tid, tid)) ` set (ci_global_tids ci)"
proof -
  have "init_pool ci = fold (\<lambda>(pid, tid). add_worker pid tid) (map (\<lambda>tid. (ci_proc_of ci tid, tid)) (ci_global_tids ci)) mk_AvailableWorkers"
    by (simp add: init_pool_def fold_map comp_def)
  then show "sched_ok (init_pool ci) {}" "free (init_pool ci) = (\<lambda>tid. (ci_proc_of ci tid, tid)) ` set (ci_global_tids ci)"
    using fold_add_ok [OF aw_ok_init(1), of "map (\<lambda>tid. (ci_proc_of ci tid, tid)) (ci_global_tids ci)"] aw_ok_init(2)
    by (simp_all add: sched_ok_def placed_def)
qed

section \<open>The shared steps keep the threads\<close>

definition hist_ok :: "HistoryManager \<Rightarrow> bool" where
  "hist_ok hm \<longleftrightarrow> (\<forall>i h. hm_history hm i = Some h \<longrightarrow> length h = hm_num_processes hm)"

definition base_ok :: "'a Sched_scheme \<Rightarrow> bool" where
  "base_ok s \<longleftrightarrow> 0 < ci_num_processes (sc_info s) \<and> hist_ok (sc_hist s) \<and> int (hm_num_processes (sc_hist s)) = ci_num_processes (sc_info s)"

definition threads_ok :: "'a Sched_scheme \<Rightarrow> bool" where
  "threads_ok s \<longleftrightarrow> base_ok s \<and> sched_ok (sc_pool s) (sc_track s)"

definition threads_of :: "'a Sched_scheme \<Rightarrow> (int \<times> int) set" where
  "threads_of s = all_threads (sc_pool s) (sc_track s)"

text \<open>A step of a scheduler: same cluster, threads neither lost nor invented nor shared.\<close>

definition keeps :: "'a Sched_scheme \<Rightarrow> 'b Sched_scheme \<Rightarrow> bool" where
  "keeps s s' \<longleftrightarrow> threads_ok s' \<and> threads_of s' = threads_of s \<and> sc_info s' = sc_info s"

lemma keeps_trans: "keeps s s1 \<Longrightarrow> keeps s1 s2 \<Longrightarrow> keeps s s2"
  by (simp add: keeps_def)

lemma keeps_refl: "threads_ok s \<Longrightarrow> keeps s s"
  by (simp add: keeps_def)

lemma length_history: "hist_ok hm \<Longrightarrow> length (history_of i hm) = hm_num_processes hm"
  by (auto simp: history_of_def hist_ok_def split: option.splits)

lemma hist_ok_get: "hist_ok hm \<Longrightarrow> hist_ok (snd (get_task_history i hm)) \<and> hm_num_processes (snd (get_task_history i hm)) = hm_num_processes hm"
  by (simp add: get_task_history_def hist_ok_def length_history [unfolded hist_ok_def])

lemma hist_ok_update:
  assumes "hist_ok hm" "update_history i sel hm = Inr hm'"
  shows "hist_ok hm' \<and> hm_num_processes hm' = hm_num_processes hm"
  using assms length_history [OF assms(1), of i] by (auto simp: update_history_counts hist_ok_def split: if_splits)

lemma base_ok_hist:
  assumes "base_ok s" "hist_ok hm" "hm_num_processes hm = hm_num_processes (sc_hist s)"
  shows "base_ok (s\<lparr>sc_hist := hm\<rparr>)"
  using assms by (simp add: base_ok_def)

lemma select_threads_hist:
  assumes "hist_ok hm" "select_threads_from_subset e P n pids inst hm aw = Some (Inr (sel, aw', hm'))"
  shows "hist_ok hm' \<and> hm_num_processes hm' = hm_num_processes hm"
proof -
  have t: "hist_ok hm2 \<and> hm_num_processes hm2 = hm_num_processes hm" if "get_traverse_workers e i k hm a = Inr (sl, a2, hm2)" for i k a sl a2 hm2
    using that hist_ok_get [OF assms(1), of i]
    by (auto simp: get_traverse_workers_def Let_def split_beta res_simps)
  have b: "hist_ok hm2 \<and> hm_num_processes hm2 = hm_num_processes hm" if "select_by_type e P i k ty hm a = Inr (sl, a2, hm2)" for i k ty a sl a2 hm2
    using that t [of i k a sl a2 hm2] assms(1)
    by (auto simp: select_by_type_def Let_def split_beta res_simps split: if_splits list.splits)
  show ?thesis
    using assms b by (auto simp: select_threads_from_subset_def select_configurable_def Let_def split_beta res_simps split: if_splits Task.splits)
qed

text \<open>What \<open>try_place\<close> does to the threads.\<close>

definition place_result :: "int \<Rightarrow> Instance \<Rightarrow> 'a Sched_scheme \<Rightarrow> Instance option \<Rightarrow> 'a Sched_scheme \<Rightarrow> bool" where
  "place_result k inst s r s' \<longleftrightarrow> Sched.more s' = Sched.more s \<and> (case r of
     None \<Rightarrow> free (sc_pool s') = free (sc_pool s) \<and> sc_track s' = sc_track s
   | Some inst' \<Rightarrow> (\<exists>sel. sel \<noteq> [] \<and> distinct sel \<and> set sel \<subseteq> free (sc_pool s) \<and> free (sc_pool s') = free (sc_pool s) - set sel
        \<and> sc_track s' = sc_track s \<union> tracked k sel \<and> inst' = place_from 0 sel inst))"

lemma try_place_keeps:
  assumes "threads_ok s" "env_ok e" "0 \<le> inst_num_workers inst" "valid_candidates (ci_num_processes (sc_info s)) pids"
    and run: "try_place e k pids inst s = Some (Inr (r, s'))"
  shows "keeps s s' \<and> place_result k inst s r s'"
proof -
  obtain sel aw hm where sel: "select_threads_from_subset e (ci_num_processes (sc_info s)) (inst_num_workers inst) pids inst (sc_hist s) (sc_pool s)
      = Some (Inr (sel, aw, hm))" and
    rest: "(if sel = [] then Some (Inr (None, s\<lparr>sc_pool := aw, sc_hist := hm\<rparr>))
       else bindO (Some (commit k sel inst (s\<lparr>sc_pool := aw, sc_hist := hm\<rparr>))) (\<lambda>(inst, s). Some (Inr (Some inst, s)))) = Some (Inr (r, s'))"
    using run by (auto simp: try_place_def Let_def res_simps)
  have ok: "sched_ok (sc_pool s) (sc_track s)" "base_ok s" using assms(1) by (simp_all add: threads_ok_def)
  have t: "takes (sc_pool s) sel aw"
    using select_threads_takes [OF assms(2) _ assms(3,4) sel] ok(1) by (simp add: sched_ok_def)
  have h: "hist_ok hm \<and> hm_num_processes hm = hm_num_processes (sc_hist s)"
    using select_threads_hist [OF _ sel] ok(2) by (simp add: base_ok_def)
  note st = sched_ok_take [OF ok(1) t, of k]
  show ?thesis
  proof (cases "sel = []")
    case True
    then show ?thesis using rest st h t ok(2)
      by (auto simp: keeps_def threads_ok_def threads_of_def base_ok_def place_result_def tracked_def takes_def)
  next
    case False
    then obtain hm' where u: "update_history k sel hm = Inr hm'" "r = Some (place_from 0 sel inst)"
      "s' = s\<lparr>sc_pool := aw, sc_track := sc_track s \<union> tracked k sel, sc_hist := hm'\<rparr>"
      using rest by (auto simp: commit_def res_simps)
    have "hist_ok hm' \<and> hm_num_processes hm' = hm_num_processes hm" using hist_ok_update [OF _ u(1)] h by simp
    then have "keeps s s'" using u(3) st h ok(2) by (simp add: keeps_def threads_ok_def threads_of_def base_ok_def)
    moreover have "place_result k inst s r s'" using u False t by (auto simp: place_result_def takes_def)
    ultimately show ?thesis ..
  qed
qed

text \<open>Every known thread is on a process of the cluster.\<close>

definition in_cluster :: "'a Sched_scheme \<Rightarrow> bool" where
  "in_cluster s \<longleftrightarrow> fst ` threads_of s \<subseteq> {0..<ci_num_processes (sc_info s)}"

lemma in_cluster_keeps: "keeps s s' \<Longrightarrow> in_cluster s \<Longrightarrow> in_cluster s'"
  by (simp add: keeps_def in_cluster_def)

lemma try_place_returns:
  assumes "threads_ok s" "env_ok e" "0 < inst_num_workers inst" "valid_candidates (ci_num_processes (sc_info s)) pids"
    and "inst_task inst = Basic b" "t_type b = BasicTaskType" "in_cluster s"
  shows "\<exists>r s'. try_place e k pids inst s = Some (Inr (r, s'))
     \<and> (r = None \<longleftrightarrow> \<not> (if t_local b then \<exists>p \<in> set pids. nat (inst_num_workers inst) \<le> card {t. (p, t) \<in> free (sc_pool s)}
            else nat (inst_num_workers inst) \<le> card (free_on pids (sc_pool s))))"
proof -
  have ok: "aw_ok (sc_pool s)" using assms(1) by (simp add: threads_ok_def sched_ok_def)
  obtain sel aw where sel: "select_threads_from_subset e (ci_num_processes (sc_info s)) (inst_num_workers inst) pids inst (sc_hist s) (sc_pool s)
      = Some (Inr (sel, aw, sc_hist s))" and
    len: "length sel = (if (if t_local b then \<exists>p \<in> set pids. nat (inst_num_workers inst) \<le> card {t. (p, t) \<in> free (sc_pool s)}
            else nat (inst_num_workers inst) \<le> card (free_on pids (sc_pool s))) then nat (inst_num_workers inst) else 0)"
    using select_basic [OF assms(2) ok _ assms(4,6,5)] assms(3) by (metis less_imp_le)
  have "takes (sc_pool s) sel aw" using select_threads_takes [OF assms(2) ok _ assms(4) sel] assms(3) by simp
  then have "fst ` set sel \<subseteq> {0..<ci_num_processes (sc_info s)}"
    using assms(7) by (auto simp: in_cluster_def threads_of_def all_threads_def takes_def)
  moreover have "int (length (history_of k (sc_hist s))) = ci_num_processes (sc_info s)"
    using assms(1) length_history [of "sc_hist s"] by (auto simp: threads_ok_def base_ok_def)
  ultimately have "\<forall>p \<in> fst ` set sel. 0 \<le> p \<and> p < int (length (history_of k (sc_hist s)))" by auto
  then obtain hm where "update_history k sel (sc_hist s) = Inr hm"
    by (simp only: update_history_counts if_P)
  moreover have "sel = [] \<longleftrightarrow> \<not> (if t_local b then \<exists>p \<in> set pids. nat (inst_num_workers inst) \<le> card {t. (p, t) \<in> free (sc_pool s)}
            else nat (inst_num_workers inst) \<le> card (free_on pids (sc_pool s)))"
    using arg_cong [OF len, of "\<lambda>k. k = 0"] assms(3) by simp
  ultimately show ?thesis using sel by (cases "sel = []") (simp_all add: try_place_def commit_def Let_def)
qed

lemma preferred_ok:
  assumes "threads_ok s"
  shows "keeps s (snd (preferred k s)) \<and> place_result k inst s None (snd (preferred k s))
     \<and> valid_candidates (ci_num_processes (sc_info s)) (fst (preferred k s))"
proof -
  have b: "base_ok s" using assms by (simp add: threads_ok_def)
  then have h: "hist_ok (sc_hist s)" by (simp add: base_ok_def)
  let ?h = "history_of k (sc_hist s)"
  have l: "int (length ?h) = ci_num_processes (sc_info s)" using b length_history [OF h] by (simp add: base_ok_def)
  have p: "distinct (positions_of x ?h) \<and> length (positions_of x ?h) \<le> length ?h" for x
    using length_filter_le [of "\<lambda>i. ?h ! i = x" "[0..<length ?h]"] by (simp add: positions_of_def distinct_map inj_on_def)
  have "valid_candidates (ci_num_processes (sc_info s)) (positions_of x ?h)" for x
    using b l p [of x] by (auto simp: valid_candidates_def base_ok_def)
  then show ?thesis
    using assms hist_ok_get [OF h, of k]
    by (simp add: preferred_def get_preferred_proc_def get_task_history_def keeps_def threads_ok_def threads_of_def base_ok_def place_result_def)
qed

lemma valid_all_processes: "0 < P \<Longrightarrow> valid_candidates P (all_processes P)"
  by (simp add: valid_candidates_def all_processes_def)

lemma all_or_preferred_ok:
  assumes "threads_ok s"
  shows "keeps s (snd (all_or_preferred k inst s)) \<and> place_result k inst s None (snd (all_or_preferred k inst s))
     \<and> valid_candidates (ci_num_processes (sc_info s)) (fst (all_or_preferred k inst s))"
  using assms preferred_ok [OF assms] by (simp add: all_or_preferred_def valid_all_processes keeps_refl place_result_def threads_ok_def base_ok_def)

lemma release_thread_ok:
  assumes "threads_ok s" "(i, ci_proc_of (sc_info s) tid, tid) \<in> sc_track s"
  shows "keeps s (release_thread i tid s)"
  using sched_ok_give [OF _ assms(2)] assms(1)
  by (simp add: keeps_def threads_ok_def threads_of_def release_thread_def base_ok_def Let_def)

lemma release_thread_simps [simp]:
  "sc_track (release_thread i tid s) = sc_track s - {(i, ci_proc_of (sc_info s) tid, tid)}"
  "sc_info (release_thread i tid s) = sc_info s" "sc_hist (release_thread i tid s) = sc_hist s"
  "Sched.more (release_thread i tid s) = Sched.more s"
  by (simp_all add: release_thread_def Let_def)

lemma fst_tracked: "sel \<noteq> [] \<Longrightarrow> fst ` (tr \<union> tracked k sel) = insert k (fst ` tr)"
  by (simp add: tracked_def image_Un image_image split_beta image_constant_conv)

lemma untracked_fst:
  "untracked i (tr - {(i, x)}) \<Longrightarrow> fst ` (tr - {(i, x)}) = fst ` tr - {i}"
  "\<not> untracked i (tr - {(i, x)}) \<Longrightarrow> fst ` (tr - {(i, x)}) = fst ` tr"
proof -
  have "fst ` tr - {i} \<subseteq> fst ` (tr - {(i, x)})" "fst ` (tr - {(i, x)}) \<subseteq> fst ` tr" by force+
  then show "untracked i (tr - {(i, x)}) \<Longrightarrow> fst ` (tr - {(i, x)}) = fst ` tr - {i}"
    "\<not> untracked i (tr - {(i, x)}) \<Longrightarrow> fst ` (tr - {(i, x)}) = fst ` tr"
    unfolding untracked_def by blast+
qed

section \<open>Tasks and instances\<close>

lemma setup_instance:
  assumes "instance_basic_setup t = Inr inst"
  shows "inst_id inst = t_id (base t) \<and> (0 \<le> t_num_workers (base t) \<longrightarrow> 0 \<le> inst_num_workers inst)"
  using assms
  by (auto simp: instance_basic_setup_def new_Instance_def set_task_def res_simps inst_id_def inst_num_workers_def inst_set_num_workers_def set_num_workers_def
      split: task_type.splits Task.splits)

text \<open>A task up to its epoch, which is all that changes of it.\<close>

definition task_shape :: "Task \<Rightarrow> Task" where
  "task_shape = map_base (\<lambda>b. b\<lparr>t_current_epoch := 0\<rparr>)"

lemma shape_inc_epoch [simp]: "task_shape (inc_epoch t) = task_shape t"
  by (cases t) (simp_all add: task_shape_def inc_epoch_def)

definition plain_task :: "Task \<Rightarrow> bool" where
  "plain_task t \<longleftrightarrow> (\<exists>b. t = Basic b \<and> t_type b = BasicTaskType \<and> \<not> t_local b)"

definition threads_needed :: "Task \<Rightarrow> int" where
  "threads_needed t = (if t_num_workers (base t) = 0 then 1 else t_num_workers (base t))"

lemma setup_plain:
  assumes "plain_task t" "0 \<le> t_num_workers (base t)"
  obtains inst b where "instance_basic_setup t = Inr inst" "inst_task inst = Basic b" "t_type b = BasicTaskType" "\<not> t_local b"
    "inst_num_workers inst = threads_needed t" "0 < inst_num_workers inst"
proof -
  obtain b where b: "t = Basic b" "t_type b = BasicTaskType" "\<not> t_local b" using assms(1) by (auto simp: plain_task_def)
  let ?i = "\<lparr>inst_task = Basic b, inst_cluster = Map.empty\<rparr>"
  show ?thesis
  proof (cases "t_num_workers b = 0")
    case True
    then show ?thesis using b
      by (intro that [of "inst_set_num_workers 1 ?i" "b\<lparr>t_num_workers := 1\<rparr>"])
        (simp_all add: instance_basic_setup_def new_Instance_def set_task_def inst_set_num_workers_def set_num_workers_def inst_num_workers_def threads_needed_def)
  next
    case False
    then show ?thesis using b assms(2)
      by (intro that [of ?i b]) (simp_all add: instance_basic_setup_def new_Instance_def set_task_def inst_num_workers_def threads_needed_def)
  qed
qed

lemma free_on_all:
  assumes "in_cluster s"
  shows "free_on (all_processes (ci_num_processes (sc_info s))) (sc_pool s) = free (sc_pool s)"
  using assms by (auto simp: free_on_def all_processes_def in_cluster_def threads_of_def all_threads_def)

lemma task_to_instance_keeps:
  assumes "threads_ok s" "env_ok e" "0 \<le> t_num_workers (base t)" "task_to_instance message e t s = Some (Inr (inst', s'))"
  shows "keeps s s' \<and> Sched.more s' = Sched.more s \<and> fst ` sc_track s' = insert (t_id (base t)) (fst ` sc_track s)"
proof -
  obtain inst where inst: "instance_basic_setup t = Inr inst" using assms(4) by (auto simp: task_to_instance_def res_simps)
  define c where "c = preferred (inst_id inst) s"
  note c = preferred_ok [OF assms(1), of "inst_id inst" inst, folded c_def]
  have r: "try_place e (inst_id inst) (fst c) inst (snd c) = Some (Inr (Some inst', s'))"
    using assms(4) inst by (auto simp: task_to_instance_def res_simps split_beta Let_def c_def split: option.splits)
  have k: "keeps (snd c) s' \<and> place_result (inst_id inst) inst (snd c) (Some inst') s'"
    using try_place_keeps [OF _ assms(2) _ _ r] c setup_instance [OF inst] assms(3) by (auto simp: keeps_def)
  then obtain sel where "sel \<noteq> []" "sc_track s' = sc_track (snd c) \<union> tracked (inst_id inst) sel" by (auto simp: place_result_def)
  then have "fst ` sc_track s' = insert (t_id (base t)) (fst ` sc_track s)" using fst_tracked c setup_instance [OF inst] by (simp add: place_result_def)
  then show ?thesis using k c keeps_trans [of s "snd c" s'] by (simp add: place_result_def)
qed

lemma same_shape:
  assumes "map task_shape ts = map task_shape tasks" "t \<in> set ts"
  obtains t' where "t' \<in> set tasks" "plain_task t \<longleftrightarrow> plain_task t'" "t_num_workers (base t) = t_num_workers (base t')"
proof -
  have "task_shape t \<in> task_shape ` set tasks" using assms by (metis imageI list.set_map)
  then obtain t' where t': "t' \<in> set tasks" "task_shape t = task_shape t'" by blast
  have b: "(base t)\<lparr>t_current_epoch := 0\<rparr> = (base t')\<lparr>t_current_epoch := 0\<rparr>" using arg_cong [OF t'(2), of base] by (simp add: task_shape_def)
  have nw: "t_num_workers (base t) = t_num_workers (base t')" "t_type (base t) = t_type (base t')" "t_local (base t) = t_local (base t')"
    using arg_cong [OF b, of t_num_workers] arg_cong [OF b, of t_type] arg_cong [OF b, of t_local] by simp_all
  have "plain_task t \<longleftrightarrow> plain_task t'" using t'(2) nw(2,3) by (cases t; cases t') (auto simp: plain_task_def task_shape_def)
  then show thesis using that t'(1) nw(1) by blast
qed

lemma plain_shape: "list_all plain_task tasks \<Longrightarrow> map task_shape ts = map task_shape tasks \<Longrightarrow> t \<in> set ts \<Longrightarrow> plain_task t"
  by (metis list_all_iff same_shape)

lemma guarantee_plain:
  assumes "global_guarantee_threads ci tasks = Inr ()" "t \<in> set tasks" "plain_task t"
  shows "t_num_workers (base t) \<le> ci_num_workers ci"
  using assms
proof (induction tasks)
  case (Cons x xs)
  then have "global_guarantee_threads ci xs = Inr ()" "check_task ci x = Inr True" by (auto simp: res_simps split: if_splits)
  then show ?case using Cons by (auto simp: plain_task_def)
qed simp

section \<open>The interface\<close>

text \<open>Any sequence of \<^verbatim>\<open>extract_instances\<close>, with any iteration orders, and of \<^verbatim>\<open>finish_thread\<close> for running threads.\<close>

inductive sched_run :: "((nat \<Rightarrow> env) \<Rightarrow> 'a Sched_scheme \<Rightarrow> (error + (Instance list \<times> 'a Sched_scheme)) option)
    \<Rightarrow> (int \<Rightarrow> int \<Rightarrow> 'a Sched_scheme \<Rightarrow> error + 'a Sched_scheme) \<Rightarrow> 'a Sched_scheme \<Rightarrow> 'a Sched_scheme \<Rightarrow> bool" for extr finish s0 where
  start: "sched_run extr finish s0 s0"
| extracted: "sched_run extr finish s0 s \<Longrightarrow> (\<And>k. env_ok (es k)) \<Longrightarrow> extr es s = Some (Inr (insts, s')) \<Longrightarrow> sched_run extr finish s0 s'"
| returned: "sched_run extr finish s0 s \<Longrightarrow> (i, ci_proc_of (sc_info s) tid, tid) \<in> sc_track s \<Longrightarrow> finish i tid s = Inr s'
     \<Longrightarrow> sched_run extr finish s0 s'"

locale scheduler =
  fixes extr :: "(nat \<Rightarrow> env) \<Rightarrow> 'a Sched_scheme \<Rightarrow> (error + (Instance list \<times> 'a Sched_scheme)) option"
    and finish :: "int \<Rightarrow> int \<Rightarrow> 'a Sched_scheme \<Rightarrow> error + 'a Sched_scheme"
    and inv :: "'a Sched_scheme \<Rightarrow> bool"
  assumes extract_keeps: "(\<And>k. env_ok (es k)) \<Longrightarrow> inv s \<Longrightarrow> threads_ok s \<Longrightarrow> extr es s = Some (Inr (insts, s')) \<Longrightarrow> keeps s s' \<and> inv s'"
    and finish_keeps: "inv s \<Longrightarrow> threads_ok s \<Longrightarrow> (i, ci_proc_of (sc_info s) tid, tid) \<in> sc_track s \<Longrightarrow> finish i tid s = Inr s' \<Longrightarrow> keeps s s' \<and> inv s'"
begin

lemma run_keeps:
  assumes "sched_run extr finish s0 s" "inv s0" "threads_ok s0"
  shows "inv s \<and> keeps s0 s"
  using assms(1)
proof induction
  case start
  then show ?case using assms by (simp add: keeps_refl)
next
  case (extracted s es insts s')
  then show ?case using extract_keeps [of es s insts s'] keeps_trans [of s0 s s'] by (simp add: keeps_def)
next
  case (returned s i tid s')
  then show ?case using finish_keeps [of s i tid s'] keeps_trans [of s0 s s'] by (simp add: keeps_def)
qed

text \<open>No thread runs two tasks at a time, no running thread is free, and the threads are those of the start.\<close>

lemma run_threads:
  assumes "sched_run extr finish s0 s" "inv s0" "threads_ok s0"
  shows "inj_on snd (sc_track s) \<and> free (sc_pool s) \<inter> snd ` sc_track s = {}
     \<and> free (sc_pool s) \<union> snd ` sc_track s = free (sc_pool s0) \<union> snd ` sc_track s0"
  using run_keeps [OF assms] by (simp add: keeps_def threads_ok_def sched_ok_def threads_of_def all_threads_def placed_def)

end

section \<open>The cluster and the tasks at the start\<close>

text \<open>What \<^verbatim>\<open>Context\<close> and \<^verbatim>\<open>HistoryManager::start\<close> provide, and what the users' tasks look like when they arrive.\<close>

definition cluster_ok :: "ClusterInfo \<Rightarrow> bool" where
  "cluster_ok ci \<longleftrightarrow> 0 < ci_num_processes ci \<and> ci_global_tids ci \<noteq> [] \<and> distinct (ci_global_tids ci)
     \<and> ci_num_workers ci = int (length (ci_global_tids ci)) \<and> (\<forall>tid \<in> set (ci_global_tids ci). ci_proc_of ci tid \<in> {0..<ci_num_processes ci})"

definition cluster_threads :: "ClusterInfo \<Rightarrow> (int \<times> int) set" where
  "cluster_threads ci = (\<lambda>tid. (ci_proc_of ci tid, tid)) ` set (ci_global_tids ci)"

definition started_history :: "ClusterInfo \<Rightarrow> HistoryManager \<Rightarrow> bool" where
  "started_history ci hm \<longleftrightarrow> hist_ok hm \<and> int (hm_num_processes hm) = ci_num_processes ci"

definition new_task :: "Task \<Rightarrow> bool" where
  "new_task t \<longleftrightarrow> 0 \<le> t_num_workers (base t) \<and> t_current_epoch (base t) = 0 \<and> 1 \<le> t_total_epoch (base t)"

definition new_tasks :: "Task list \<Rightarrow> bool" where
  "new_tasks ts \<longleftrightarrow> distinct (map (\<lambda>t. t_id (base t)) ts) \<and> list_all new_task ts"

text \<open>Three processes with one thread each, and two tasks with two threads each.\<close>

definition example_cluster :: ClusterInfo where
  "example_cluster = \<lparr>ci_num_workers = 3, ci_num_processes = 3, ci_pids = [0, 1, 2], ci_num_local_workers = (\<lambda>_. 1), ci_proc_of = (\<lambda>tid. tid), ci_global_tids = [0, 1, 2]\<rparr>"

definition example_tasks :: "Task list" where
  "example_tasks = [mk_Task 0 2 2, mk_Task 1 1 2]"

lemma example_cluster_ok:
  "cluster_ok example_cluster" "started_history example_cluster example_history" "cluster_threads example_cluster = {(0, 0), (1, 1), (2, 2)}"
  by (simp_all add: cluster_ok_def example_cluster_def started_history_def hist_ok_def example_history_def cluster_threads_def)

end
