(* ===== verification/Greedy_Scheduler.thy ===== *)
theory Greedy_Scheduler
  imports Schedulers
begin

text \<open>
  The greedy scheduler: \<^verbatim>\<open>cluster_manager/task_scheduler/greedy_task_scheduler.hpp\<close> and \<^verbatim>\<open>.cpp\<close>.

  \<open>greedy_sync\<close> is the invariant that ties the status vector to the running threads and to the epochs; \<open>greedy\<close> is the
  interpretation of the scheduler interface.
\<close>

section \<open>Model\<close>

record GreedyTaskScheduler = Sched +
  gr_tasks :: "Task list"
  gr_status :: "int list"        \<comment> \<open>0: ready to run, 1: running, 2: done\<close>

definition mk_GreedyTaskScheduler :: "ClusterInfo \<Rightarrow> HistoryManager \<Rightarrow> GreedyTaskScheduler" where
  "mk_GreedyTaskScheduler ci hm = \<lparr>sc_info = ci, sc_pool = init_pool ci, sc_track = {}, sc_hist = hm, gr_tasks = [], gr_status = []\<rparr>"

definition greedy_init_tasks :: "Task list \<Rightarrow> GreedyTaskScheduler \<Rightarrow> error + GreedyTaskScheduler" where
  "greedy_init_tasks tasks s =
     bindE (global_guarantee_threads (sc_info s) tasks) (\<lambda>_.
     Inr (s\<lparr>gr_tasks := tasks, gr_status := resize (length tasks) 0 []\<rparr>))"

definition greedy_finish_thread :: "int \<Rightarrow> int \<Rightarrow> GreedyTaskScheduler \<Rightarrow> error + GreedyTaskScheduler" where
  "greedy_finish_thread instance_id tid s =
     (let s = release_thread instance_id tid s in
      if untracked instance_id (sc_track s) then
        (let idx = length (takeWhile (\<lambda>t. t_id (base t) \<noteq> instance_id) (gr_tasks s)) in
         if idx = length (gr_tasks s) then Inl UndefinedBehaviour
         else let task = inc_epoch (gr_tasks s ! idx) in
           bindE (vec_set (gr_status s) idx (if t_current_epoch (base task) = t_total_epoch (base task) then 2 else 0)) (\<lambda>status.
           Inr (s\<lparr>gr_tasks := (gr_tasks s)[idx := task], gr_status := status\<rparr>)))
      else Inr s)"

text \<open>One iteration of the loop of \<^verbatim>\<open>extract_instances\<close>.\<close>

fun greedy_step :: "(nat \<Rightarrow> env) \<Rightarrow> nat \<Rightarrow> Instance list \<times> GreedyTaskScheduler \<Rightarrow> (error + (Instance list \<times> GreedyTaskScheduler)) option" where
  "greedy_step es i (instances, s) =
     bindO (Some (vec_get (gr_status s) i)) (\<lambda>status.
     if status \<noteq> 0 then Some (Inr (instances, s)) else
     bindO (Some (instance_basic_setup (gr_tasks s ! i))) (\<lambda>inst.
     let (candidates, s) = all_or_preferred (inst_id inst) inst s in
     bindO (try_place (es i) (inst_id inst) candidates inst s) (\<lambda>(r, s).
     case r of
       None \<Rightarrow> Some (Inr (instances, s))
     | Some inst \<Rightarrow> bindO (Some (vec_set (gr_status s) i 1)) (\<lambda>status. Some (Inr (instances @ [inst], s\<lparr>gr_status := status\<rparr>))))))"

definition greedy_extract_instances :: "(nat \<Rightarrow> env) \<Rightarrow> GreedyTaskScheduler \<Rightarrow> (error + (Instance list \<times> GreedyTaskScheduler)) option" where
  "greedy_extract_instances es s = foldO (greedy_step es) [0..<length (gr_tasks s)] ([], s)"

definition greedy_is_finished :: "GreedyTaskScheduler \<Rightarrow> bool" where
  "greedy_is_finished s = list_all (\<lambda>status. status = 2) (gr_status s)"

section \<open>Status, epochs and running threads agree\<close>

definition entry_sync :: "tracking \<Rightarrow> Task \<Rightarrow> int \<Rightarrow> bool" where
  "entry_sync tr t status \<longleftrightarrow> 0 \<le> t_num_workers (base t) \<and> 0 \<le> t_current_epoch (base t) \<and> t_current_epoch (base t) \<le> t_total_epoch (base t)
     \<and> status \<in> {0, 1, 2} \<and> (status = 1 \<longleftrightarrow> t_id (base t) \<in> fst ` tr) \<and> (status = 2 \<longleftrightarrow> t_current_epoch (base t) = t_total_epoch (base t))"

definition greedy_sync :: "GreedyTaskScheduler \<Rightarrow> bool" where
  "greedy_sync s \<longleftrightarrow> distinct (map (\<lambda>t. t_id (base t)) (gr_tasks s)) \<and> fst ` sc_track s \<subseteq> (\<lambda>t. t_id (base t)) ` set (gr_tasks s)
     \<and> list_all2 (entry_sync (sc_track s)) (gr_tasks s) (gr_status s)"

lemma more_unchanged: "Sched.more s' = Sched.more s \<Longrightarrow> gr_tasks s' = gr_tasks s \<and> gr_status s' = gr_status s"
  by (cases s, cases s') simp

text \<open>What one iteration does: nothing, or it starts the task.\<close>

definition step_result :: "nat \<Rightarrow> GreedyTaskScheduler \<Rightarrow> GreedyTaskScheduler \<Rightarrow> bool" where
  "step_result i s s' \<longleftrightarrow> keeps s s' \<and> gr_tasks s' = gr_tasks s \<and> free (sc_pool s') \<subseteq> free (sc_pool s)
     \<and> (gr_status s' = gr_status s \<and> sc_track s' = sc_track s
        \<or> gr_status s ! i = 0 \<and> gr_status s' = (gr_status s)[i := 1]
          \<and> (\<exists>sel. sel \<noteq> [] \<and> sc_track s' = sc_track s \<union> tracked (t_id (base (gr_tasks s ! i))) sel))"

lemma greedy_step_result:
  assumes "threads_ok s" "env_ok (es i)" "0 \<le> t_num_workers (base (gr_tasks s ! i))"
    and "greedy_step es i (insts, s) = Some (Inr (insts', s'))"
  shows "step_result i s s'"
proof (cases "i < length (gr_status s) \<and> gr_status s ! i = 0")
  case True
  then obtain inst where inst: "instance_basic_setup (gr_tasks s ! i) = Inr inst"
    using assms(4) by (auto simp: vec_get_def res_simps Let_def split_beta)
  define c where "c = all_or_preferred (inst_id inst) inst s"
  note c = all_or_preferred_ok [OF assms(1), of "inst_id inst" inst, folded c_def]
  obtain r s1 where r: "try_place (es i) (inst_id inst) (fst c) inst (snd c) = Some (Inr (r, s1))"
    and s': "s' = (case r of None \<Rightarrow> s1 | Some _ \<Rightarrow> s1\<lparr>gr_status := (gr_status s1)[i := 1]\<rparr>)"
    using assms(4) True inst by (auto simp: vec_get_def vec_set_def res_simps Let_def split_beta c_def split: option.splits if_splits)
  have "keeps (snd c) s1 \<and> place_result (inst_id inst) inst (snd c) r s1"
    using try_place_keeps [OF _ assms(2) _ _ r] c setup_instance [OF inst] assms(3) by (auto simp: keeps_def)
  moreover have "keeps s s1 \<Longrightarrow> keeps s (s1\<lparr>gr_status := st\<rparr>)" for st by (auto simp: keeps_def threads_ok_def base_ok_def threads_of_def)
  ultimately show ?thesis
    using c s' True setup_instance [OF inst] keeps_trans [of s "snd c" s1] more_unchanged [of s1 "snd c"] more_unchanged [of "snd c" s]
    by (auto simp: step_result_def place_result_def split: option.splits)
next
  case False
  then show ?thesis using assms by (auto simp: vec_get_def res_simps step_result_def keeps_refl split: if_splits)
qed

lemma sync_distinct:
  assumes "greedy_sync s" "i < length (gr_tasks s)" "j < length (gr_tasks s)" "t_id (base (gr_tasks s ! i)) = t_id (base (gr_tasks s ! j))"
  shows "i = j"
  using assms by (auto simp: greedy_sync_def distinct_conv_nth)

lemma step_sync:
  assumes "greedy_sync s" "step_result i s s'" "i < length (gr_tasks s)"
  shows "greedy_sync s'"
proof -
  have l: "length (gr_status s) = length (gr_tasks s)" using assms(1) by (auto simp: greedy_sync_def list_all2_lengthD)
  consider "gr_tasks s' = gr_tasks s" "gr_status s' = gr_status s" "sc_track s' = sc_track s"
    | sel where "gr_tasks s' = gr_tasks s" "gr_status s ! i = 0" "gr_status s' = (gr_status s)[i := 1]" "sel \<noteq> []"
        "sc_track s' = sc_track s \<union> tracked (t_id (base (gr_tasks s ! i))) sel"
    using assms(2) by (auto simp: step_result_def)
  then show ?thesis
  proof cases
    case 1
    then show ?thesis using assms(1) by (simp add: greedy_sync_def)
  next
    case 2
    have e: "entry_sync (sc_track s) (gr_tasks s ! j) (gr_status s ! j)" if "j < length (gr_tasks s)" for j
      using assms(1) that by (auto simp: greedy_sync_def list_all2_conv_all_nth)
    have "entry_sync (sc_track s') (gr_tasks s ! j) (gr_status s' ! j)" if j: "j < length (gr_tasks s)" for j
      using e [OF j] 2 l assms(3) sync_distinct [OF assms(1) assms(3) j] j fst_tracked [OF 2(4)]
      by (cases "j = i") (auto simp: entry_sync_def)
    then show ?thesis
      using assms(1,3) 2 l fst_tracked [OF 2(4)] by (simp add: greedy_sync_def list_all2_conv_all_nth)
  qed
qed


section \<open>Extracting\<close>

definition greedy_inv :: "GreedyTaskScheduler \<Rightarrow> bool" where
  "greedy_inv s \<longleftrightarrow> greedy_sync s \<and> in_cluster s"

definition greedy_inv_of :: "Task list \<Rightarrow> GreedyTaskScheduler \<Rightarrow> bool" where
  "greedy_inv_of tasks s \<longleftrightarrow> greedy_inv s \<and> map task_shape (gr_tasks s) = tasks"

lemma step_inv:
  assumes "greedy_inv s" "threads_ok s" "env_ok (es i)" "i < length (gr_tasks s)" "greedy_step es i (insts, s) = Some (Inr (insts', s'))"
  shows "greedy_inv s' \<and> step_result i s s'"
proof -
  have "0 \<le> t_num_workers (base (gr_tasks s ! i))" using assms(1,4) by (auto simp: greedy_inv_def greedy_sync_def list_all2_conv_all_nth entry_sync_def)
  from greedy_step_result [OF assms(2,3) this assms(5)] have r: "step_result i s s'" .
  then have "in_cluster s'" using assms(1) in_cluster_keeps [of s s'] by (simp add: step_result_def greedy_inv_def)
  then show ?thesis using r step_sync [OF _ r assms(4)] assms(1) by (simp add: greedy_inv_def)
qed

lemma greedy_extract_keeps:
  assumes "\<And>k. env_ok (es k)" "greedy_inv s" "threads_ok s" "greedy_extract_instances es s = Some (Inr (insts, s'))"
  shows "keeps s s' \<and> greedy_inv s' \<and> gr_tasks s' = gr_tasks s"
proof -
  let ?I = "\<lambda>(_, s1). keeps s s1 \<and> greedy_inv s1 \<and> gr_tasks s1 = gr_tasks s"
  have "?I (insts, s')"
  proof (rule foldO_invariant [where f = "greedy_step es"])
    show "foldO (greedy_step es) [0..<length (gr_tasks s)] ([], s) = Some (Inr (insts, s'))" using assms(4) by (simp add: greedy_extract_instances_def)
    show "?I ([], s)" using assms(2,3) by (simp add: keeps_refl)
    fix i p p' assume "i \<in> set [0..<length (gr_tasks s)]" "?I p" "greedy_step es i p = Some (Inr p')"
    then show "?I p'" using step_inv [of "snd p" es i "fst p" "fst p'" "snd p'"] assms(1) keeps_trans [of s "snd p" "snd p'"]
      by (auto simp: split_beta step_result_def keeps_def)
  qed
  then show ?thesis by simp
qed

section \<open>Finishing\<close>

lemma find_task:
  assumes "distinct (map (\<lambda>t. t_id (base t)) ts)" "k < length ts"
  shows "length (takeWhile (\<lambda>t. t_id (base t) \<noteq> t_id (base (ts ! k))) ts) = k"
proof -
  have "takeWhile (\<lambda>t. t_id (base t) \<noteq> t_id (base (ts ! k))) ts = take k ts"
    using assms by (intro takeWhile_eq_take_P_nth) (auto simp: distinct_conv_nth)
  then show ?thesis using assms(2) by simp
qed

lemma greedy_finish_sync:
  assumes "greedy_sync s" "(i, ci_proc_of (sc_info s) tid, tid) \<in> sc_track s"
  shows "\<exists>s'. greedy_finish_thread i tid s = Inr s' \<and> greedy_sync s' \<and> sc_info s' = sc_info s
     \<and> sc_pool s' = sc_pool (release_thread i tid s) \<and> sc_track s' = sc_track (release_thread i tid s) \<and> sc_hist s' = sc_hist s
     \<and> map task_shape (gr_tasks s') = map task_shape (gr_tasks s)"
proof -
  let ?s = "release_thread i tid s" and ?tr = "sc_track s - {(i, ci_proc_of (sc_info s) tid, tid)}"
  have u: "gr_tasks ?s = gr_tasks s" "gr_status ?s = gr_status s" using more_unchanged [of ?s s] by simp_all
  have ids: "distinct (map (\<lambda>t. t_id (base t)) (gr_tasks s))" using assms(1) by (simp add: greedy_sync_def)
  have l: "length (gr_status s) = length (gr_tasks s)" using assms(1) by (auto simp: greedy_sync_def list_all2_lengthD)
  have e: "entry_sync (sc_track s) (gr_tasks s ! j) (gr_status s ! j)" if "j < length (gr_tasks s)" for j
    using assms(1) that by (auto simp: greedy_sync_def list_all2_conv_all_nth)
  have run: "i \<in> fst ` sc_track s" using assms(2) by force
  show ?thesis
  proof (cases "untracked i ?tr")
    case False
    then show ?thesis using assms(1) untracked_fst(2) [OF False] u
      by (simp add: greedy_finish_thread_def greedy_sync_def entry_sync_def [abs_def] Let_def)
  next
    case True
    obtain k where k: "k < length (gr_tasks s)" "i = t_id (base (gr_tasks s ! k))"
    proof -
      have "i \<in> (\<lambda>t. t_id (base t)) ` set (gr_tasks s)" using run assms(1) by (auto simp only: greedy_sync_def)
      then show ?thesis using that by (auto simp: in_set_conv_nth)
    qed
    let ?t = "inc_epoch (gr_tasks s ! k)"
    have idx: "length (takeWhile (\<lambda>t. t_id (base t) \<noteq> i) (gr_tasks s)) = k" using find_task [OF ids k(1)] k(2) by simp
    have b: "base ?t = (base (gr_tasks s ! k))\<lparr>t_current_epoch := t_current_epoch (base (gr_tasks s ! k)) + 1\<rparr>" by (simp add: inc_epoch_def)
    let ?st = "if t_current_epoch (base ?t) = t_total_epoch (base ?t) then 2 else 0 :: int"
    let ?s2 = "?s\<lparr>gr_tasks := (gr_tasks s)[k := ?t], gr_status := (gr_status s)[k := ?st]\<rparr>"
    have fin: "greedy_finish_thread i tid s = Inr ?s2" using True idx k(1) l u by (simp add: greedy_finish_thread_def Let_def vec_set_def)
    have "map (\<lambda>t. t_id (base t)) ((gr_tasks s)[k := ?t]) = map (\<lambda>t. t_id (base t)) (gr_tasks s)"
      using b k(1) by (intro nth_equalityI) (auto simp: nth_list_update)
    moreover have "entry_sync ?tr ((gr_tasks s)[k := ?t] ! j) ((gr_status s)[k := ?st] ! j)" if j: "j < length (gr_tasks s)" for j
    proof (cases "j = k")
      case True
      have "t_current_epoch (base (gr_tasks s ! k)) < t_total_epoch (base (gr_tasks s ! k))"
        using e [OF k(1)] run k(2) by (auto simp: entry_sync_def)
      then show ?thesis using e [OF k(1)] True k l untracked_fst(1) [OF \<open>untracked i ?tr\<close>] b by (simp add: entry_sync_def)
    next
      case False
      then have "t_id (base (gr_tasks s ! j)) \<noteq> i" using sync_distinct [OF assms(1) k(1) j] k(2) by auto
      then show ?thesis using e [OF j] False untracked_fst(1) [OF True] by (simp add: entry_sync_def) argo
    qed
    ultimately have "greedy_sync ?s2"
      using assms(1) untracked_fst(1) [OF True] l
      by (auto simp: greedy_sync_def list_all2_conv_all_nth simp flip: set_map)
    moreover have "map task_shape ((gr_tasks s)[k := ?t]) = map task_shape (gr_tasks s)" by (simp add: map_update list_update_same_conv k(1))
    ultimately show ?thesis using fin by simp
  qed
qed

lemma greedy_finish_keeps:
  assumes "greedy_inv s" "threads_ok s" "(i, ci_proc_of (sc_info s) tid, tid) \<in> sc_track s" "greedy_finish_thread i tid s = Inr s'"
  shows "keeps s s' \<and> greedy_inv s' \<and> map task_shape (gr_tasks s') = map task_shape (gr_tasks s)"
proof -
  note r = release_thread_ok [OF assms(2,3)]
  have s: "greedy_sync s' \<and> keeps s s' \<and> map task_shape (gr_tasks s') = map task_shape (gr_tasks s)"
    using greedy_finish_sync [OF _ assms(3)] assms(1,4) r by (auto simp: greedy_inv_def keeps_def threads_ok_def threads_of_def base_ok_def)
  then show ?thesis using in_cluster_keeps [of s s'] assms(1) by (simp add: greedy_inv_def)
qed

interpretation greedy: scheduler greedy_extract_instances greedy_finish_thread "greedy_inv_of tasks" for tasks
proof unfold_locales
  fix es s insts s' assume "\<And>k. env_ok (es k)" "greedy_inv_of tasks s" "threads_ok s" "greedy_extract_instances es s = Some (Inr (insts, s'))"
  then show "keeps s s' \<and> greedy_inv_of tasks s'" using greedy_extract_keeps [of es s insts s'] by (simp add: greedy_inv_of_def)
next
  fix s i tid s' assume "greedy_inv_of tasks s" "threads_ok s" "(i, ci_proc_of (sc_info s) tid, tid) \<in> sc_track s" "greedy_finish_thread i tid s = Inr s'"
  then show "keeps s s' \<and> greedy_inv_of tasks s'" using greedy_finish_keeps [of s i tid s'] by (simp add: greedy_inv_of_def)
qed


section \<open>Greedy scheduling leaves no ready task that fits\<close>

lemma greedy_step_plain:
  assumes "greedy_inv s" "threads_ok s" "env_ok (es i)" "i < length (gr_tasks s)" "plain_task (gr_tasks s ! i)"
  shows "\<exists>insts' s'. greedy_step es i (insts, s) = Some (Inr (insts', s')) \<and> step_result i s s' \<and> greedy_inv s'
     \<and> (gr_status s' ! i = 0 \<longrightarrow> int (card (free (sc_pool s'))) < threads_needed (gr_tasks s ! i))
     \<and> (insts' = insts \<longrightarrow> gr_status s' = gr_status s \<and> free (sc_pool s') = free (sc_pool s)) \<and> length insts \<le> length insts'"
proof -
  have sync: "greedy_sync s" and cl: "in_cluster s" using assms(1) by (simp_all add: greedy_inv_def)
  have l: "length (gr_status s) = length (gr_tasks s)" using sync by (auto simp: greedy_sync_def list_all2_lengthD)
  have pos: "0 \<le> t_num_workers (base (gr_tasks s ! i))" using sync assms(4) by (auto simp: greedy_sync_def list_all2_conv_all_nth entry_sync_def)
  have "\<exists>insts' s'. greedy_step es i (insts, s) = Some (Inr (insts', s'))
     \<and> (gr_status s' ! i = 0 \<longrightarrow> int (card (free (sc_pool s'))) < threads_needed (gr_tasks s ! i))
     \<and> (insts' = insts \<longrightarrow> gr_status s' = gr_status s \<and> free (sc_pool s') = free (sc_pool s)) \<and> length insts \<le> length insts'"
  proof (cases "gr_status s ! i = 0")
    case True
    obtain inst b where inst: "instance_basic_setup (gr_tasks s ! i) = Inr inst" "inst_task inst = Basic b" "t_type b = BasicTaskType" "\<not> t_local b"
      "inst_num_workers inst = threads_needed (gr_tasks s ! i)" "0 < inst_num_workers inst"
      using setup_plain [OF assms(5) pos] by blast
    have c: "all_or_preferred (inst_id inst) inst s = (all_processes (ci_num_processes (sc_info s)), s)" using inst by (simp add: all_or_preferred_def)
    have v: "valid_candidates (ci_num_processes (sc_info s)) (all_processes (ci_num_processes (sc_info s)))"
      using assms(2) by (simp add: valid_all_processes threads_ok_def base_ok_def)
    obtain r s1 where r: "try_place (es i) (inst_id inst) (all_processes (ci_num_processes (sc_info s))) inst s = Some (Inr (r, s1))"
      "r = None \<longleftrightarrow> \<not> nat (inst_num_workers inst) \<le> card (free (sc_pool s))"
      using try_place_returns [OF assms(2,3) inst(6) v inst(2,3) cl, of "inst_id inst"] inst(4) free_on_all [OF cl] by auto
    have p: "place_result (inst_id inst) inst s r s1" using try_place_keeps [OF assms(2,3) _ v r(1)] inst(6) by simp
    then have same: "gr_status s1 = gr_status s" using more_unchanged [of s1 s] by (simp add: place_result_def)
    show ?thesis using True assms(4) inst c r same l p
      by (cases r) (auto simp: vec_get_def vec_set_def place_result_def)
  next
    case False
    then show ?thesis using assms(4) l by (auto simp: vec_get_def)
  qed
  then obtain insts' s' where r: "greedy_step es i (insts, s) = Some (Inr (insts', s'))"
     "gr_status s' ! i = 0 \<longrightarrow> int (card (free (sc_pool s'))) < threads_needed (gr_tasks s ! i)"
     "insts' = insts \<longrightarrow> gr_status s' = gr_status s \<and> free (sc_pool s') = free (sc_pool s)" "length insts \<le> length insts'" by blast
  then show ?thesis using step_inv [of s es i insts insts' s'] assms(1-4) by blast
qed

lemma greedy_extract_plain:
  assumes "\<And>k. env_ok (es k)" "greedy_inv s" "threads_ok s" "\<forall>t \<in> set (gr_tasks s). plain_task t" "n \<le> length (gr_tasks s)"
  shows "\<exists>insts s'. foldO (greedy_step es) [0..<n] ([], s) = Some (Inr (insts, s')) \<and> keeps s s' \<and> greedy_inv s' \<and> gr_tasks s' = gr_tasks s
     \<and> (\<forall>i < n. gr_status s' ! i = 0 \<longrightarrow> int (card (free (sc_pool s'))) < threads_needed (gr_tasks s ! i))
     \<and> (insts = [] \<longrightarrow> gr_status s' = gr_status s \<and> free (sc_pool s') = free (sc_pool s))"
  using assms(5)
proof (induction n)
  case 0
  then show ?case using assms(2,3) by (simp add: keeps_refl)
next
  case (Suc n)
  then obtain insts s1 where IH: "foldO (greedy_step es) [0..<n] ([], s) = Some (Inr (insts, s1))" "keeps s s1" "greedy_inv s1" "gr_tasks s1 = gr_tasks s"
     "\<forall>i < n. gr_status s1 ! i = 0 \<longrightarrow> int (card (free (sc_pool s1))) < threads_needed (gr_tasks s ! i)"
     "insts = [] \<longrightarrow> gr_status s1 = gr_status s \<and> free (sc_pool s1) = free (sc_pool s)"
    by auto
  have ok1: "threads_ok s1" "plain_task (gr_tasks s1 ! n)" "n < length (gr_tasks s1)" using IH Suc.prems assms(4) by (simp_all add: keeps_def)
  obtain insts' s' where s': "greedy_step es n (insts, s1) = Some (Inr (insts', s'))" "step_result n s1 s'" "greedy_inv s'"
     "gr_status s' ! n = 0 \<longrightarrow> int (card (free (sc_pool s'))) < threads_needed (gr_tasks s ! n)"
     "insts' = insts \<longrightarrow> gr_status s' = gr_status s1 \<and> free (sc_pool s') = free (sc_pool s1)" "length insts \<le> length insts'"
    using greedy_step_plain [of s1 es n insts] IH(3,4) ok1 assms(1) [of n] by auto
  have "finite (free (sc_pool s1))" using ok1(1) by (simp add: threads_ok_def sched_ok_def finite_free)
  then have le: "card (free (sc_pool s')) \<le> card (free (sc_pool s1))" using s'(2) by (auto simp: step_result_def intro: card_mono)
  have same: "gr_status s' ! i = gr_status s1 ! i" if "i < n" for i using s'(2) that by (auto simp: step_result_def)
  have "\<forall>i < Suc n. gr_status s' ! i = 0 \<longrightarrow> int (card (free (sc_pool s'))) < threads_needed (gr_tasks s ! i)"
  proof (intro allI impI)
    fix i assume i: "i < Suc n" "gr_status s' ! i = 0"
    show "int (card (free (sc_pool s'))) < threads_needed (gr_tasks s ! i)"
    proof (cases "i = n")
      case True
      then show ?thesis using s'(4) i(2) by simp
    next
      case False
      then have "int (card (free (sc_pool s1))) < threads_needed (gr_tasks s ! i)" using IH(5) i le same [of i] by simp
      then show ?thesis using le by linarith
    qed
  qed
  moreover have "insts' = [] \<longrightarrow> gr_status s' = gr_status s \<and> free (sc_pool s') = free (sc_pool s)"
  proof
    assume "insts' = []"
    moreover from this have "insts = []" using s'(6) by simp
    ultimately show "gr_status s' = gr_status s \<and> free (sc_pool s') = free (sc_pool s)" using s'(5) IH(6) by simp
  qed
  moreover have "keeps s s'" using IH(2) s'(2) keeps_trans [of s s1 s'] by (simp add: step_result_def)
  moreover have "foldO (greedy_step es) [0..<Suc n] ([], s) = Some (Inr (insts', s'))" using IH(1) s'(1) by (simp add: foldO_append)
  ultimately show ?case using s'(2,3) IH(4) by (auto simp: step_result_def)
qed


section \<open>The extracted instances\<close>

lemma try_place_instance: "try_place e k pids inst s = Some (Inr (Some inst', s')) \<Longrightarrow> \<exists>sel. inst' = place_from 0 sel inst"
  by (auto simp: try_place_def commit_def res_simps Let_def split: if_splits)

lemma greedy_step_instances:
  assumes "greedy_step es i (insts, s) = Some (Inr (insts', s'))"
  shows "insts' = insts \<or> (\<exists>inst sel. insts' = insts @ [place_from 0 sel inst] \<and> instance_basic_setup (gr_tasks s ! i) = Inr inst)"
  using assms try_place_instance by (fastforce simp: vec_get_def vec_set_def res_simps Let_def split_beta split: option.splits if_splits)

section \<open>Properties\<close>

lemma greedy_started:
  assumes "cluster_ok ci" "started_history ci hm" "new_tasks tasks" "greedy_init_tasks tasks (mk_GreedyTaskScheduler ci hm) = Inr s"
  shows "greedy_inv s" "threads_ok s" "threads_of s = cluster_threads ci" "sc_info s = ci" "gr_tasks s = tasks" "gr_status s = replicate (length tasks) 0"
proof -
  note i = init_pool_ok [of ci]
  have s: "s = \<lparr>sc_info = ci, sc_pool = init_pool ci, sc_track = {}, sc_hist = hm, gr_tasks = tasks, gr_status = replicate (length tasks) 0\<rparr>"
    using assms(4) by (auto simp: greedy_init_tasks_def mk_GreedyTaskScheduler_def resize_def res_simps)
  show th: "threads_of s = cluster_threads ci" using s i(2) by (simp add: threads_of_def all_threads_def placed_def cluster_threads_def)
  show "sc_info s = ci" "gr_tasks s = tasks" "gr_status s = replicate (length tasks) 0" using s by simp_all
  show "threads_ok s" using s i(1) assms(1,2) by (simp add: threads_ok_def base_ok_def cluster_ok_def started_history_def)
  have "in_cluster s" using th s assms(1) by (auto simp: in_cluster_def cluster_threads_def cluster_ok_def)
  moreover have "greedy_sync s"
    using s assms(3) by (auto simp: greedy_sync_def new_tasks_def new_task_def entry_sync_def list_all2_conv_all_nth list_all_length)
  ultimately show "greedy_inv s" by (simp add: greedy_inv_def)
qed

text \<open>
  C23. Every state that the greedy scheduler reaches, by any sequence of \<^verbatim>\<open>extract_instances\<close> and of \<^verbatim>\<open>finish_thread\<close> for
  running threads, with any iteration orders: no thread works for two tasks or is free while it works, and no thread of the cluster is lost. The status
  of every task agrees with its threads and its epochs: it is running exactly if it has a thread, and done exactly if all its epochs have
  been run, which are never more than it asked for. When \<^verbatim>\<open>is_finished\<close> holds, all threads are free.
  Scope: a cluster with at least one thread and one process, and new tasks with different ids; calls that return.
\<close>

theorem greedy_invariant:
  assumes "cluster_ok ci" "started_history ci hm" "new_tasks tasks" "greedy_init_tasks tasks (mk_GreedyTaskScheduler ci hm) = Inr s0"
    and "sched_run greedy_extract_instances greedy_finish_thread s0 s"
  shows "inj_on snd (sc_track s) \<and> free (sc_pool s) \<inter> snd ` sc_track s = {} \<and> free (sc_pool s) \<union> snd ` sc_track s = cluster_threads ci
     \<and> list_all2 (entry_sync (sc_track s)) (gr_tasks s) (gr_status s)
     \<and> (greedy_is_finished s \<longrightarrow> free (sc_pool s) = cluster_threads ci \<and> list_all (\<lambda>t. t_current_epoch (base t) = t_total_epoch (base t)) (gr_tasks s))"
proof -
  note s0 = greedy_started [OF assms(1-4)]
  have i: "greedy_inv_of (map task_shape tasks) s0" using s0(1,5) by (simp add: greedy_inv_of_def)
  note r = greedy.run_threads [OF assms(5) i s0(2)] and k = greedy.run_keeps [OF assms(5) i s0(2)]
  have all: "free (sc_pool s) \<union> snd ` sc_track s = cluster_threads ci" using r s0(3) by (simp add: threads_of_def all_threads_def placed_def)
  have sync: "greedy_sync s" using k by (simp add: greedy_inv_def greedy_inv_of_def)
  have "sc_track s = {} \<and> list_all (\<lambda>t. t_current_epoch (base t) = t_total_epoch (base t)) (gr_tasks s)" if f: "greedy_is_finished s"
  proof -
    have e: "entry_sync (sc_track s) (gr_tasks s ! j) 2" if "j < length (gr_tasks s)" for j
      using f sync that by (auto simp: greedy_is_finished_def list_all_length greedy_sync_def list_all2_conv_all_nth)
    have "x \<notin> sc_track s" for x
    proof
      assume x: "x \<in> sc_track s"
      then have "fst x \<in> (\<lambda>t. t_id (base t)) ` set (gr_tasks s)" using sync by (auto simp only: greedy_sync_def)
      then obtain j where "j < length (gr_tasks s)" "fst x = t_id (base (gr_tasks s ! j))" by (auto simp: in_set_conv_nth)
      then show False using e [of j] x by (metis entry_sync_def imageI num.distinct(1) numeral_eq_one_iff)
    qed
    then have "sc_track s = {}" by blast
    then show ?thesis using e by (auto simp: list_all_length entry_sync_def)
  qed
  then show ?thesis using r all sync by (auto simp: greedy_sync_def)
qed

lemma plain_fits:
  assumes "cluster_ok ci" "greedy_init_tasks tasks (mk_GreedyTaskScheduler ci hm) = Inr s0" "list_all plain_task tasks"
    and "map task_shape ts = map task_shape tasks" "t \<in> set ts"
  shows "plain_task t \<and> threads_needed t \<le> int (card (cluster_threads ci))"
proof -
  obtain t' where t': "t' \<in> set tasks" "plain_task t \<longleftrightarrow> plain_task t'" and nw: "t_num_workers (base t) = t_num_workers (base t')"
    using same_shape [OF assms(4,5)] .
  have p: "plain_task t'" using assms(3) t'(1) by (simp add: list_all_iff)
  then have "plain_task t" using t'(2) by simp
  moreover have "global_guarantee_threads ci tasks = Inr ()" using assms(2) by (auto simp: greedy_init_tasks_def mk_GreedyTaskScheduler_def res_simps)
  then have "t_num_workers (base t') \<le> ci_num_workers ci" using guarantee_plain [OF _ t'(1) p] by blast
  moreover have "card (cluster_threads ci) = length (ci_global_tids ci)" using assms(1)
    by (simp add: cluster_threads_def cluster_ok_def card_image inj_on_def distinct_card)
  ultimately show ?thesis using assms(1) nw by (auto simp: threads_needed_def cluster_ok_def Suc_le_eq)
qed

text \<open>
  C24. The greedy scheduler makes progress. In every reachable state \<^verbatim>\<open>extract_instances\<close> returns, for basic tasks that are not local; afterwards
  no task is ready for which there are enough free threads; and it starts at least one task whenever no task is running and not all are finished, so the
  cluster never idles forever.
  Scope: a cluster with at least one thread and one process, and new tasks with different ids, of the basic type and not local.
\<close>

theorem greedy_progress:
  assumes "cluster_ok ci" "started_history ci hm" "new_tasks tasks" "greedy_init_tasks tasks (mk_GreedyTaskScheduler ci hm) = Inr s0"
    and "list_all plain_task tasks" "sched_run greedy_extract_instances greedy_finish_thread s0 s" "\<And>k. env_ok (es k)"
  shows "\<exists>insts s'. greedy_extract_instances es s = Some (Inr (insts, s'))
     \<and> list_all2 (\<lambda>t status. status = 0 \<longrightarrow> int (card (free (sc_pool s'))) < threads_needed t) (gr_tasks s') (gr_status s')
     \<and> (sc_track s = {} \<and> \<not> greedy_is_finished s \<longrightarrow> insts \<noteq> [])"
proof -
  note s0 = greedy_started [OF assms(1-4)]
  have "greedy_inv_of (map task_shape tasks) s0" using s0(1,5) by (simp add: greedy_inv_of_def)
  from greedy.run_keeps [OF assms(6) this s0(2)]
  have k: "greedy_inv s" "keeps s0 s" "map task_shape (gr_tasks s) = map task_shape tasks" by (simp_all add: greedy_inv_of_def)
  have t: "threads_ok s" "threads_of s = cluster_threads ci" using k(2) s0(3) by (simp_all add: keeps_def)
  have fits: "plain_task t \<and> threads_needed t \<le> int (card (cluster_threads ci))" if "t \<in> set (gr_tasks s)" for t
    using plain_fits [OF assms(1,4,5) k(3) that] .
  obtain insts s' where r: "greedy_extract_instances es s = Some (Inr (insts, s'))" "greedy_inv s'" "gr_tasks s' = gr_tasks s"
     "\<forall>i < length (gr_tasks s). gr_status s' ! i = 0 \<longrightarrow> int (card (free (sc_pool s'))) < threads_needed (gr_tasks s ! i)"
     "insts = [] \<longrightarrow> gr_status s' = gr_status s \<and> free (sc_pool s') = free (sc_pool s)"
  proof -
    have plain: "\<forall>t \<in> set (gr_tasks s). plain_task t" using fits by simp
    show ?thesis using greedy_extract_plain [of es s, OF _ k(1) t(1) plain order_refl] assms(7) that unfolding greedy_extract_instances_def by blast
  qed
  have l: "length (gr_status s') = length (gr_tasks s)" using r(2,3) by (auto simp: greedy_inv_def greedy_sync_def list_all2_lengthD)
  have "insts \<noteq> []" if idle: "sc_track s = {}" "\<not> greedy_is_finished s"
  proof
    assume nil: "insts = []"
    have e: "list_all2 (entry_sync {}) (gr_tasks s) (gr_status s)" using k(1) idle(1) by (simp add: greedy_inv_def greedy_sync_def)
    obtain i where i: "i < length (gr_tasks s)" "gr_status s ! i = 0"
      using e idle(2) by (auto simp: greedy_is_finished_def list_all_length list_all2_conv_all_nth entry_sync_def)
    have "free (sc_pool s) = cluster_threads ci" using t(2) idle(1) by (simp add: threads_of_def all_threads_def placed_def)
    then have "int (card (cluster_threads ci)) < threads_needed (gr_tasks s ! i)" using r(4,5) nil i by auto
    then show False using fits [of "gr_tasks s ! i"] i(1) by simp
  qed
  then show ?thesis using r l by (auto simp: list_all2_conv_all_nth)
qed


section \<open>An example\<close>

definition example_greedy :: GreedyTaskScheduler where
  "example_greedy = (mk_GreedyTaskScheduler example_cluster example_history)\<lparr>gr_tasks := example_tasks, gr_status := [0, 0]\<rparr>"

lemma example_greedy_init:
  "new_tasks example_tasks" "list_all plain_task example_tasks"
  "greedy_init_tasks example_tasks (mk_GreedyTaskScheduler example_cluster example_history) = Inr example_greedy"
  by (simp_all add: example_cluster_def example_history_def new_tasks_def new_task_def example_tasks_def mk_Task_def
      mk_base_def plain_task_def greedy_init_tasks_def mk_GreedyTaskScheduler_def resize_def example_greedy_def numeral_2_eq_2)

lemma example_extract: "\<exists>insts s. greedy_extract_instances (\<lambda>_. sorted_env) example_greedy = Some (Inr (insts, s))"
proof -
  note g = greedy_started [OF example_cluster_ok(1,2) example_greedy_init(1,3)]
  have p: "\<forall>t \<in> set (gr_tasks example_greedy). plain_task t" using g(5) example_greedy_init(2) by (simp add: list_all_iff)
  show ?thesis using greedy_extract_plain [of "\<lambda>_. sorted_env" example_greedy, OF _ g(1,2) p order_refl] sorted_env_ok
    unfolding greedy_extract_instances_def by blast
qed

theorem greedy_invariant_witness:
  "\<exists>insts s. greedy_extract_instances (\<lambda>_. sorted_env) example_greedy = Some (Inr (insts, s)) \<and> inj_on snd (sc_track s)
     \<and> free (sc_pool s) \<inter> snd ` sc_track s = {} \<and> free (sc_pool s) \<union> snd ` sc_track s = {(0, 0), (1, 1), (2, 2)}"
proof -
  obtain insts s where s: "greedy_extract_instances (\<lambda>_. sorted_env) example_greedy = Some (Inr (insts, s))" using example_extract by blast
  have "sched_run greedy_extract_instances greedy_finish_thread example_greedy s"
    by (rule sched_run.extracted [where es = "\<lambda>_. sorted_env" and s = example_greedy and insts = insts]) (simp_all add: sched_run.start sorted_env_ok s)
  from greedy_invariant [OF example_cluster_ok(1,2) example_greedy_init(1,3) this] s show ?thesis unfolding example_cluster_ok(3) by blast
qed

theorem greedy_progress_witness:
  "\<exists>insts s. greedy_extract_instances (\<lambda>_. sorted_env) example_greedy = Some (Inr (insts, s)) \<and> insts \<noteq> []
     \<and> list_all2 (\<lambda>t status. status = 0 \<longrightarrow> int (card (free (sc_pool s))) < threads_needed t) (gr_tasks s) (gr_status s)"
proof -
  have "sc_track example_greedy = {}" "\<not> greedy_is_finished example_greedy"
    by (simp_all add: example_greedy_def mk_GreedyTaskScheduler_def greedy_is_finished_def)
  with greedy_progress [OF example_cluster_ok(1,2) example_greedy_init(1,3,2) sched_run.start, of "\<lambda>_. sorted_env"] sorted_env_ok show ?thesis by blast
qed

end
