(* ===== verification/Sequential_Scheduler.thy ===== *)
theory Sequential_Scheduler
  imports Schedulers
begin

text \<open>
  The sequential scheduler, which is the default: \<^verbatim>\<open>cluster_manager/task_scheduler/sequential_task_scheduler.hpp\<close> and \<^verbatim>\<open>.cpp\<close>.
\<close>

section \<open>Model\<close>

record SequentialTaskScheduler = Sched +
  sq_tasks_queue :: "Task list"

definition mk_SequentialTaskScheduler :: "ClusterInfo \<Rightarrow> HistoryManager \<Rightarrow> SequentialTaskScheduler" where
  "mk_SequentialTaskScheduler ci hm = \<lparr>sc_info = ci, sc_pool = init_pool ci, sc_track = {}, sc_hist = hm, sq_tasks_queue = []\<rparr>"

definition sequential_init_tasks :: "Task list \<Rightarrow> SequentialTaskScheduler \<Rightarrow> error + SequentialTaskScheduler" where
  "sequential_init_tasks tasks s =
     bindE (global_guarantee_threads (sc_info s) tasks) (\<lambda>_. Inr (s\<lparr>sq_tasks_queue := sq_tasks_queue s @ tasks\<rparr>))"

definition sequential_finish_thread :: "int \<Rightarrow> int \<Rightarrow> SequentialTaskScheduler \<Rightarrow> error + SequentialTaskScheduler" where
  "sequential_finish_thread instance_id tid s =
     (let s = release_thread instance_id tid s in
      if untracked instance_id (sc_track s) then
        (case sq_tasks_queue s of
           [] \<Rightarrow> Inl UndefinedBehaviour
         | task # tasks \<Rightarrow>
             let task = inc_epoch task in
             Inr (s\<lparr>sq_tasks_queue := (if t_current_epoch (base task) = t_total_epoch (base task) then tasks else task # tasks)\<rparr>))
      else Inr s)"

definition sequential_failure :: string where
  "sequential_failure = ''[Sequential Task Scheduler] Cannot assign next instance''"

definition sequential_task_to_instance :: "env \<Rightarrow> Task \<Rightarrow> SequentialTaskScheduler \<Rightarrow> (error + (Instance \<times> SequentialTaskScheduler)) option" where
  [simp]: "sequential_task_to_instance = task_to_instance sequential_failure"

definition sequential_extract_instances :: "(nat \<Rightarrow> env) \<Rightarrow> SequentialTaskScheduler
    \<Rightarrow> (error + (Instance list \<times> SequentialTaskScheduler)) option" where
  "sequential_extract_instances es s =
     (if sq_tasks_queue s = [] \<or> sc_track s \<noteq> {} then Some (Inr ([], s))
      else bindO (sequential_task_to_instance (es 0) (hd (sq_tasks_queue s)) s) (\<lambda>(inst, s). Some (Inr ([inst], s))))"

definition sequential_is_finished :: "SequentialTaskScheduler \<Rightarrow> bool" where
  "sequential_is_finished s \<longleftrightarrow> sq_tasks_queue s = []"

section \<open>One task at a time\<close>

definition queued_ok :: "Task \<Rightarrow> bool" where
  "queued_ok t \<longleftrightarrow> 0 \<le> t_num_workers (base t) \<and> 0 \<le> t_current_epoch (base t) \<and> t_current_epoch (base t) < t_total_epoch (base t)"

text \<open>Only the first task of the queue has threads.\<close>

definition sequential_inv :: "SequentialTaskScheduler \<Rightarrow> bool" where
  "sequential_inv s \<longleftrightarrow> list_all queued_ok (sq_tasks_queue s) \<and> in_cluster s
     \<and> (case sq_tasks_queue s of [] \<Rightarrow> sc_track s = {} | t # ts \<Rightarrow> fst ` sc_track s \<subseteq> {t_id (base t)})"

lemma sq_more_unchanged: "Sched.more s' = Sched.more s \<Longrightarrow> sq_tasks_queue s' = sq_tasks_queue s"
  by (cases s, cases s') simp

lemma sequential_extract_keeps:
  assumes "\<And>k. env_ok (es k)" "sequential_inv s" "threads_ok s" "sequential_extract_instances es s = Some (Inr (insts, s'))"
  shows "keeps s s' \<and> sequential_inv s' \<and> sq_tasks_queue s' = sq_tasks_queue s"
proof (cases "sq_tasks_queue s = [] \<or> sc_track s \<noteq> {}")
  case True
  then show ?thesis using assms by (auto simp: sequential_extract_instances_def keeps_refl)
next
  case False
  then obtain t ts where q: "sq_tasks_queue s = t # ts" "sc_track s = {}" by (auto simp: neq_Nil_conv)
  obtain inst where r: "task_to_instance sequential_failure (es 0) t s = Some (Inr (inst, s'))"
    using assms(4) q by (auto simp: sequential_extract_instances_def res_simps)
  have "0 \<le> t_num_workers (base t)" using assms(2) q by (simp add: sequential_inv_def queued_ok_def)
  note k = task_to_instance_keeps [OF assms(3,1) this r]
  moreover have "sq_tasks_queue s' = sq_tasks_queue s" using k sq_more_unchanged by blast
  ultimately show ?thesis using assms(2) q in_cluster_keeps [of s s'] by (simp add: sequential_inv_def)
qed

lemma sequential_finish:
  assumes "sequential_inv s" "threads_ok s" "(i, ci_proc_of (sc_info s) tid, tid) \<in> sc_track s"
  shows "\<exists>s'. sequential_finish_thread i tid s = Inr s' \<and> keeps s s' \<and> sequential_inv s' \<and> sc_track s' = sc_track s - {(i, ci_proc_of (sc_info s) tid, tid)}"
proof -
  let ?s = "release_thread i tid s"
  have q: "sq_tasks_queue ?s = sq_tasks_queue s" using sq_more_unchanged [of ?s s] by simp
  note k = release_thread_ok [OF assms(2,3)]
  obtain t ts where t: "sq_tasks_queue s = t # ts" "fst ` sc_track s \<subseteq> {t_id (base t)}"
    using assms(1,3) by (auto simp: sequential_inv_def split: list.splits)
  have i: "i = t_id (base t)" using t(2) assms(3) by (metis fst_conv image_subset_iff singletonD)
  have u: "keeps s (?s\<lparr>sq_tasks_queue := x\<rparr>) \<and> in_cluster (?s\<lparr>sq_tasks_queue := x\<rparr>)" for x
    using k assms(1) by (auto simp: keeps_def threads_ok_def threads_of_def base_ok_def in_cluster_def sequential_inv_def)
  show ?thesis
  proof (cases "untracked i (sc_track ?s)")
    case False
    then show ?thesis using k q assms(1) t in_cluster_keeps [OF k] untracked_fst(2) [of i "sc_track s"]
      by (auto simp: sequential_finish_thread_def sequential_inv_def)
  next
    case True
    then have "fst ` sc_track ?s = fst ` sc_track s - {i}" using untracked_fst(1) [of i "sc_track s"] by simp
    then have e: "sc_track ?s = {}" using t(2) i by auto
    then show ?thesis using True q t u assms(1)
      by (auto simp: sequential_finish_thread_def sequential_inv_def Let_def inc_epoch_def queued_ok_def split: list.splits)
  qed
qed

interpretation sequential: scheduler sequential_extract_instances sequential_finish_thread sequential_inv
proof unfold_locales
  fix es s insts s' assume "\<And>k. env_ok (es k)" "sequential_inv s" "threads_ok s" "sequential_extract_instances es s = Some (Inr (insts, s'))"
  then show "keeps s s' \<and> sequential_inv s'" using sequential_extract_keeps [of es s insts s'] by simp
next
  fix s i tid s' assume "sequential_inv s" "threads_ok s" "(i, ci_proc_of (sc_info s) tid, tid) \<in> sc_track s" "sequential_finish_thread i tid s = Inr s'"
  then show "keeps s s' \<and> sequential_inv s'" using sequential_finish [of s i tid] by auto
qed


section \<open>Properties\<close>

lemma sequential_started:
  assumes "cluster_ok ci" "started_history ci hm" "list_all new_task tasks" "sequential_init_tasks tasks (mk_SequentialTaskScheduler ci hm) = Inr s"
  shows "sequential_inv s" "threads_ok s" "threads_of s = cluster_threads ci"
proof -
  note i = init_pool_ok [of ci]
  have s: "s = \<lparr>sc_info = ci, sc_pool = init_pool ci, sc_track = {}, sc_hist = hm, sq_tasks_queue = tasks\<rparr>"
    using assms(4) by (auto simp: sequential_init_tasks_def mk_SequentialTaskScheduler_def res_simps)
  show th: "threads_of s = cluster_threads ci" using s i(2) by (simp add: threads_of_def all_threads_def placed_def cluster_threads_def)
  show "threads_ok s" using s i(1) assms(1,2) by (simp add: threads_ok_def base_ok_def cluster_ok_def started_history_def)
  have "in_cluster s" using th s assms(1) by (auto simp: in_cluster_def cluster_threads_def cluster_ok_def)
  moreover have "queued_ok t" if "new_task t" for t using that by (simp add: new_task_def queued_ok_def)
  then have "list_all queued_ok tasks" using assms(3) by (auto simp: list_all_iff)
  ultimately show "sequential_inv s" using s by (auto simp: sequential_inv_def split: list.splits)
qed

text \<open>
  C27. The sequential scheduler, along any sequence of calls: threads are conserved and never shared; only the first task of the queue has
  threads, so tasks never overlap; every task in the queue has an epoch left to run; and a finished scheduler has all threads free.
  Scope: a cluster with at least one thread and one process, and new tasks; calls that return.
\<close>

theorem sequential_invariant:
  assumes "cluster_ok ci" "started_history ci hm" "list_all new_task tasks" "sequential_init_tasks tasks (mk_SequentialTaskScheduler ci hm) = Inr s0"
    and "sched_run sequential_extract_instances sequential_finish_thread s0 s"
  shows "inj_on snd (sc_track s) \<and> free (sc_pool s) \<inter> snd ` sc_track s = {} \<and> free (sc_pool s) \<union> snd ` sc_track s = cluster_threads ci
     \<and> list_all (\<lambda>t. t_current_epoch (base t) < t_total_epoch (base t)) (sq_tasks_queue s)
     \<and> (case sq_tasks_queue s of [] \<Rightarrow> free (sc_pool s) = cluster_threads ci | t # ts \<Rightarrow> fst ` sc_track s \<subseteq> {t_id (base t)})"
proof -
  note s0 = sequential_started [OF assms(1-4)]
  note r = sequential.run_threads [OF assms(5) s0(1,2)] and k = sequential.run_keeps [OF assms(5) s0(1,2)]
  have all: "free (sc_pool s) \<union> snd ` sc_track s = cluster_threads ci" using r s0(3) by (simp add: threads_of_def all_threads_def placed_def)
  have i: "sequential_inv s" using k by simp
  then have "list_all (\<lambda>t. t_current_epoch (base t) < t_total_epoch (base t)) (sq_tasks_queue s)"
    by (auto simp: sequential_inv_def queued_ok_def list_all_iff)
  moreover have "case sq_tasks_queue s of [] \<Rightarrow> free (sc_pool s) = cluster_threads ci | t # ts \<Rightarrow> fst ` sc_track s \<subseteq> {t_id (base t)}"
    using i all by (auto simp: sequential_inv_def split: list.splits)
  ultimately show ?thesis using r all by simp
qed

text \<open>
  C28. When the sequential scheduler places its first task (a basic task that is not local, no task running): it succeeds exactly if the
  processes that the task has visited least have enough threads, and otherwise ends with an exception, although the whole cluster is free.
  Scope: a basic task that is not local at the head of the queue, and no task running.
\<close>

theorem sequential_exact:
  assumes "cluster_ok ci" "started_history ci hm" "list_all new_task tasks" "sequential_init_tasks tasks (mk_SequentialTaskScheduler ci hm) = Inr s0"
    and "sched_run sequential_extract_instances sequential_finish_thread s0 s" "\<And>k. env_ok (es k)"
    and "sq_tasks_queue s = t # ts" "plain_task t" "sc_track s = {}"
  shows "if threads_needed t \<le> int (card {x \<in> cluster_threads ci. fst x \<in> set (fst (get_preferred_proc (t_id (base t)) (sc_hist s)))})
     then \<exists>inst s'. sequential_extract_instances es s = Some (Inr ([inst], s'))
     else sequential_extract_instances es s = Some (Inl (HuskyException sequential_failure))"
proof -
  note s0 = sequential_started [OF assms(1-4)]
  have k: "sequential_inv s" "threads_ok s" "threads_of s = cluster_threads ci"
    using sequential.run_keeps [OF assms(5) s0(1,2)] s0(3) by (simp_all add: keeps_def)
  have fr: "free (sc_pool s) = cluster_threads ci" using k(3) assms(9) by (simp add: threads_of_def all_threads_def placed_def)
  have pos: "0 \<le> t_num_workers (base t)" using k(1) assms(7) by (simp add: sequential_inv_def queued_ok_def)
  obtain inst b where inst: "instance_basic_setup t = Inr inst" "inst_task inst = Basic b" "t_type b = BasicTaskType" "\<not> t_local b"
    "inst_num_workers inst = threads_needed t" "0 < inst_num_workers inst"
    using setup_plain [OF assms(8) pos] by blast
  define c where "c = preferred (inst_id inst) s"
  note c = preferred_ok [OF k(2), of "inst_id inst" inst, folded c_def]
  have c1: "fst c = fst (get_preferred_proc (t_id (base t)) (sc_hist s))" "sc_pool (snd c) = sc_pool s"
    using setup_instance [OF inst(1)] by (simp_all add: c_def preferred_def split_beta)
  have kc: "threads_ok (snd c)" "in_cluster (snd c)" "valid_candidates (ci_num_processes (sc_info (snd c))) (fst c)"
    using c k(1) in_cluster_keeps [of s "snd c"] by (simp_all add: keeps_def sequential_inv_def)
  obtain r s1 where r: "try_place (es 0) (inst_id inst) (fst c) inst (snd c) = Some (Inr (r, s1))"
    "r = None \<longleftrightarrow> \<not> nat (inst_num_workers inst) \<le> card (free_on (fst c) (sc_pool (snd c)))"
    using try_place_returns [OF kc(1) assms(6) [of 0] inst(6) kc(3) inst(2,3) kc(2), of "inst_id inst"] inst(4) by auto
  have "r = None \<longleftrightarrow> \<not> threads_needed t \<le> int (card {x \<in> cluster_threads ci. fst x \<in> set (fst c)})"
    using r(2) inst(5,6) c1(2) fr by (auto simp: free_on_def)
  then show ?thesis
    using assms(7,9) inst(1) r(1) c1(1)
    by (cases r) (auto simp: sequential_extract_instances_def task_to_instance_def split_beta Let_def c_def)
qed

section \<open>Examples\<close>

definition visited_history :: HistoryManager where
  "visited_history = \<lparr>hm_history = [0 \<mapsto> [1, 1, 0]], hm_last_instance = Map.empty, hm_num_processes = 3\<rparr>"

definition example_sequential :: "HistoryManager \<Rightarrow> SequentialTaskScheduler" where
  "example_sequential hm = (mk_SequentialTaskScheduler example_cluster hm)\<lparr>sq_tasks_queue := [mk_Task 0 2 2]\<rparr>"

lemma example_sequential_init:
  "list_all new_task [mk_Task 0 2 2]"
  "sequential_init_tasks [mk_Task 0 2 2] (mk_SequentialTaskScheduler example_cluster hm) = Inr (example_sequential hm)"
  "started_history example_cluster visited_history"
  by (simp_all add: new_task_def mk_Task_def mk_base_def sequential_init_tasks_def mk_SequentialTaskScheduler_def example_sequential_def example_cluster_def
      started_history_def hist_ok_def visited_history_def)

theorem sequential_invariant_witness:
  "\<exists>s. sequential_init_tasks [mk_Task 0 2 2] (mk_SequentialTaskScheduler example_cluster example_history) = Inr s
     \<and> free (sc_pool s) \<union> snd ` sc_track s = {(0, 0), (1, 1), (2, 2)} \<and> fst ` sc_track s \<subseteq> {0}"
  using sequential_invariant [OF example_cluster_ok(1,2) example_sequential_init(1,2) sched_run.start] example_sequential_init(2) [of example_history]
  unfolding example_cluster_ok by (simp add: example_sequential_def mk_SequentialTaskScheduler_def)

text \<open>
  The task ran an epoch on the processes 0 and 1, so only process 2 is a candidate for the next one: the scheduler gives up, with three free threads and
  a task that needs two.
\<close>

theorem sequential_exact_witness:
  "sequential_extract_instances (\<lambda>_. sorted_env) (example_sequential visited_history)
     = Some (Inl (HuskyException sequential_failure))"
proof -
  let ?s = "example_sequential visited_history"
  have q: "sq_tasks_queue ?s = [mk_Task 0 2 2]" "plain_task (mk_Task 0 2 2)" "sc_track ?s = {}"
    by (simp_all add: example_sequential_def mk_SequentialTaskScheduler_def plain_task_def mk_Task_def mk_base_def)
  have pref: "fst (get_preferred_proc 0 visited_history) = [2]" 
    by (simp add: get_preferred_proc_def get_task_history_def history_of_def visited_history_def positions_of_def int_limit_def)
  have t: "t_id (base (mk_Task 0 2 2)) = 0" "threads_needed (mk_Task 0 2 2) = 2" "sc_hist ?s = visited_history"
    by (simp_all add: mk_Task_def mk_base_def threads_needed_def example_sequential_def mk_SequentialTaskScheduler_def)
  have "{x \<in> {(0, 0), (1, 1), (2, 2)}. fst x \<in> {2}} = {(2 :: int, 2 :: int)}" by auto
  then show ?thesis
    using sequential_exact [OF example_cluster_ok(1) example_sequential_init(3,1,2) sched_run.start _ q, of "\<lambda>_. sorted_env"] sorted_env_ok
    unfolding example_cluster_ok t pref by simp
qed

end
