(* ===== verification/Priority_Scheduler.thy ===== *)
theory Priority_Scheduler
  imports Schedulers
begin

text \<open>
  The priority scheduler and its task manager: \<^verbatim>\<open>cluster_manager/task_scheduler/priority_task_scheduler.hpp\<close> and \<^verbatim>\<open>.cpp\<close>,
  \<^verbatim>\<open>task_manager.hpp\<close> and \<^verbatim>\<open>.cpp\<close>.

  The record has the members of both classes; \<^verbatim>\<open>task_id_pid_tids_\<close> of the task manager is \<open>sc_track\<close> and \<^verbatim>\<open>num_tasks_\<close> is always the length
  of \<open>tm_tasks\<close>. \<open>pr_sync\<close> is the invariant of the task manager, up to tasks that have threads and are not yet marked as running.
\<close>

section \<open>Model\<close>

record TaskManager = Sched +
  tm_tasks :: "Task list"                   \<comment> \<open>indexed by task id\<close>
  tm_priority :: "(int \<times> int) list"        \<comment> \<open>task id, priority\<close>
  tm_status :: "int list"                   \<comment> \<open>0: ready, 1: running, 2: finished, 3: angry\<close>
  tm_rejected :: "int list"
  tm_angry_list :: "int list"

definition mk_PriorityTaskScheduler :: "ClusterInfo \<Rightarrow> HistoryManager \<Rightarrow> TaskManager" where
  "mk_PriorityTaskScheduler ci hm = \<lparr>sc_info = ci, sc_pool = init_pool ci, sc_track = {}, sc_hist = hm,
     tm_tasks = [], tm_priority = [], tm_status = [], tm_rejected = [], tm_angry_list = []\<rparr>"

definition angry_threshold :: int where
  "angry_threshold = 5"

definition add_tasks :: "Task list \<Rightarrow> TaskManager \<Rightarrow> TaskManager" where
  "add_tasks tasks s =
     (let all = tm_tasks s @ tasks in
      s\<lparr>tm_priority := tm_priority s @ map (\<lambda>t. (t_id (base t), 0)) tasks, tm_tasks := all,
        tm_status := resize (length all) 0 (tm_status s), tm_rejected := resize (length all) 0 (tm_rejected s)\<rparr>)"

definition tm_is_finished :: "TaskManager \<Rightarrow> bool" where
  "tm_is_finished s = list_all (\<lambda>status. status = 2) (tm_status s)"

definition is_task_id :: "int \<Rightarrow> TaskManager \<Rightarrow> bool" where
  "is_task_id task_id s \<longleftrightarrow> 0 \<le> task_id \<and> task_id < int (length (tm_tasks s))"

text \<open>The rest of \<^verbatim>\<open>finish_thread\<close>, after the thread has been released.\<close>

definition tm_finish_epoch :: "int \<Rightarrow> TaskManager \<Rightarrow> error + TaskManager" where
  "tm_finish_epoch task_id s =
     (if \<not> is_task_id task_id s then Inl UndefinedBehaviour
      else let task = inc_epoch (tm_tasks s ! nat task_id) in
        bindE (vec_set (tm_status s) (nat task_id) (if t_current_epoch (base task) = t_total_epoch (base task) then 2 else 0)) (\<lambda>status.
        Inr (s\<lparr>tm_tasks := (tm_tasks s)[nat task_id := task], tm_status := status\<rparr>)))"

definition priority_finish_thread :: "int \<Rightarrow> int \<Rightarrow> TaskManager \<Rightarrow> error + TaskManager" where
  "priority_finish_thread instance_id tid s =
     (let s = release_thread instance_id tid s in if untracked instance_id (sc_track s) then tm_finish_epoch instance_id s else Inr s)"

definition status_at :: "int \<Rightarrow> TaskManager \<Rightarrow> error + int" where
  "status_at task_id s = (if 0 \<le> task_id then vec_get (tm_status s) (nat task_id) else Inl OutOfRange)"

definition order_by_priority :: "env \<Rightarrow> TaskManager \<Rightarrow> error + (int list \<times> TaskManager)" where
  "order_by_priority e s =
     (let s = s\<lparr>tm_priority := sort_priority e (tm_priority s)\<rparr> in
      bindE (mapE (\<lambda>p. bindE (status_at (fst p) s) (\<lambda>status. Inr (fst p, status))) (tm_priority s)) (\<lambda>xs.
      Inr (map fst (filter (\<lambda>x. snd x = 0) xs), s)))"

text \<open>\<^verbatim>\<open>std::find_if\<close> and an assignment to what it found.\<close>

fun update_first :: "int \<Rightarrow> (int \<Rightarrow> int) \<Rightarrow> (int \<times> int) list \<Rightarrow> (int \<times> int) list" where
  "update_first k f [] = []"
| "update_first k f ((i, p) # ps) = (if i = k then (i, f p) # ps else (i, p) # update_first k f ps)"

definition get_task_by_id :: "int \<Rightarrow> TaskManager \<Rightarrow> error + Task" where
  "get_task_by_id task_id s = bindE (assertE (is_task_id task_id s)) (\<lambda>_. Inr (tm_tasks s ! nat task_id))"

definition suc_sched :: "int \<Rightarrow> TaskManager \<Rightarrow> error + TaskManager" where
  "suc_sched task_id s =
     bindE (assertE (is_task_id task_id s)) (\<lambda>_.
     bindE (vec_set (tm_status s) (nat task_id) 1) (\<lambda>status.
     bindE (vec_set (tm_rejected s) (nat task_id) 0) (\<lambda>rejected.
     Inr (s\<lparr>tm_status := status, tm_rejected := rejected, tm_priority := update_first task_id (\<lambda>_. 0) (tm_priority s),
            tm_angry_list := filter (\<lambda>i. i \<noteq> task_id) (tm_angry_list s)\<rparr>))))"

definition fail_sched :: "int \<Rightarrow> TaskManager \<Rightarrow> error + TaskManager" where
  "fail_sched task_id s =
     bindE (assertE (is_task_id task_id s)) (\<lambda>_.
     bindE (vec_get (tm_rejected s) (nat task_id)) (\<lambda>times.
     let s = s\<lparr>tm_rejected := (tm_rejected s)[nat task_id := times + 1]\<rparr> in
     case map_of (tm_priority s) task_id of
       None \<Rightarrow> Inr s
     | Some p \<Rightarrow>
         let s = s\<lparr>tm_priority := update_first task_id (\<lambda>p. p + 1) (tm_priority s)\<rparr> in
         if p + 1 \<ge> angry_threshold \<and> task_id \<notin> set (tm_angry_list s) then
           bindE (vec_set (tm_status s) (nat task_id) 3) (\<lambda>status.
           Inr (s\<lparr>tm_angry_list := tm_angry_list s @ [task_id], tm_status := status\<rparr>))
         else Inr s))"

text \<open>
  The queries for one task. \<^verbatim>\<open>record_and_track\<close> is \<open>commit\<close> of the theory of the schedulers, called by \<open>try_place\<close>.
\<close>

definition get_task_priority :: "int \<Rightarrow> TaskManager \<Rightarrow> error + int" where
  "get_task_priority task_id s = bindE (assertE (is_task_id task_id s)) (\<lambda>_.
     Inr (case map_of (tm_priority s) task_id of None \<Rightarrow> -1 | Some p \<Rightarrow> p))"

definition get_task_status :: "int \<Rightarrow> TaskManager \<Rightarrow> error + int" where
  "get_task_status task_id s = bindE (assertE (is_task_id task_id s)) (\<lambda>_. vec_get (tm_status s) (nat task_id))"

definition get_task_rej_times :: "int \<Rightarrow> TaskManager \<Rightarrow> error + int" where
  "get_task_rej_times task_id s = bindE (assertE (is_task_id task_id s)) (\<lambda>_. vec_get (tm_rejected s) (nat task_id))"

definition get_tracking_threads :: "int \<Rightarrow> int \<Rightarrow> TaskManager \<Rightarrow> int set" where
  "get_tracking_threads task_id proc_id s = {tid. (task_id, proc_id, tid) \<in> sc_track s}"

subsection \<open>Extracting instances\<close>

text \<open>One task of the angry list. The state of the loop: instances, successful tasks, locked processes.\<close>

fun angry_step :: "env \<Rightarrow> int \<Rightarrow> Instance list \<times> int list \<times> int set \<times> TaskManager
    \<Rightarrow> (error + (Instance list \<times> int list \<times> int set \<times> TaskManager)) option" where
  "angry_step e task_id (instances, success_tasks, process_lock, s) =
     bindO (Some (get_task_by_id task_id s)) (\<lambda>task.
     bindO (Some (instance_basic_setup task)) (\<lambda>inst.
     let (proc_ids, s) = all_or_preferred task_id inst s in
     bindO (try_place e task_id (filter (\<lambda>pid. pid \<notin> process_lock) proc_ids) inst s) (\<lambda>(r, s).
     case r of
       None \<Rightarrow> Some (Inr (instances, success_tasks, process_lock \<union> set proc_ids, s))
     | Some inst \<Rightarrow> Some (Inr (instances @ [inst], success_tasks @ [task_id], process_lock, s)))))"

text \<open>One task of the second part.\<close>

fun ready_step :: "env \<Rightarrow> int set \<Rightarrow> int \<Rightarrow> Instance list \<times> TaskManager \<Rightarrow> (error + (Instance list \<times> TaskManager)) option" where
  "ready_step e process_lock task_id (instances, s) =
     bindO (Some (get_task_by_id task_id s)) (\<lambda>task.
     bindO (Some (instance_basic_setup task)) (\<lambda>inst.
     let (proc_ids, s) = preferred task_id s in
     bindO (try_place e task_id (filter (\<lambda>pid. pid \<notin> process_lock) proc_ids) inst s) (\<lambda>(r, s).
     case r of
       None \<Rightarrow> bindO (Some (fail_sched task_id s)) (\<lambda>s. Some (Inr (instances, s)))
     | Some inst \<Rightarrow> bindO (Some (suc_sched task_id s)) (\<lambda>s. Some (Inr (instances @ [inst], s))))))"

definition angry_phase :: "(nat \<Rightarrow> env) \<Rightarrow> TaskManager \<Rightarrow> (error + (Instance list \<times> int set \<times> TaskManager)) option" where
  "angry_phase es s =
     bindO (foldO (\<lambda>(k, task_id). angry_step (es k) task_id) (List.enumerate 0 (tm_angry_list s)) ([], [], {}, s)) (\<lambda>(instances, success_tasks, process_lock, s).
     bindO (Some (foldE suc_sched success_tasks s)) (\<lambda>s. Some (Inr (instances, process_lock, s))))"

definition priority_extract_instances :: "(nat \<Rightarrow> env) \<Rightarrow> TaskManager \<Rightarrow> (error + (Instance list \<times> TaskManager)) option" where
  "priority_extract_instances es s =
     bindO (angry_phase (\<lambda>k. es (2 * k)) s) (\<lambda>(instances, process_lock, s).
     bindO (Some (order_by_priority (es 0) s)) (\<lambda>(ordered_task, s).
     foldO (\<lambda>(k, task_id). ready_step (es (2 * k + 1)) process_lock task_id) (List.enumerate 0 ordered_task) (instances, s)))"

section \<open>The invariant of the task manager\<close>

definition pr_entry :: "int set \<Rightarrow> TaskManager \<Rightarrow> nat \<Rightarrow> bool" where
  "pr_entry S s k \<longleftrightarrow>
     (let b = base (tm_tasks s ! k); status = tm_status s ! k; rejected = tm_rejected s ! k in
      t_id b = int k \<and> 0 \<le> t_num_workers b \<and> 0 \<le> t_current_epoch b \<and> t_current_epoch b \<le> t_total_epoch b
      \<and> map_of (tm_priority s) (int k) = Some rejected \<and> 0 \<le> rejected \<and> rejected \<le> angry_threshold
      \<and> (status = 0 \<or> status = 1 \<or> status = 2 \<or> status = 3) \<and> (status = 3 \<longleftrightarrow> rejected = angry_threshold) \<and> (status = 3 \<longleftrightarrow> int k \<in> set (tm_angry_list s))
      \<and> (status = 2 \<longleftrightarrow> t_current_epoch b = t_total_epoch b) \<and> (status = 1 \<or> int k \<in> S \<longleftrightarrow> int k \<in> fst ` sc_track s)
      \<and> (int k \<in> S \<longrightarrow> status = 0 \<or> status = 3))"

definition task_ids :: "TaskManager \<Rightarrow> int set" where
  "task_ids s = {0..<int (length (tm_tasks s))}"

definition pr_sync :: "int set \<Rightarrow> TaskManager \<Rightarrow> bool" where
  "pr_sync S s \<longleftrightarrow> length (tm_status s) = length (tm_tasks s) \<and> length (tm_rejected s) = length (tm_tasks s)
     \<and> distinct (map fst (tm_priority s)) \<and> fst ` set (tm_priority s) = task_ids s \<and> distinct (tm_angry_list s)
     \<and> set (tm_angry_list s) \<subseteq> task_ids s \<and> fst ` sc_track s \<subseteq> task_ids s \<and> (\<forall>k < length (tm_tasks s). pr_entry S s k)"

lemma task_ids_iff [simp]: "i \<in> task_ids s \<longleftrightarrow> is_task_id i s"
  by (auto simp: task_ids_def is_task_id_def)

lemma pr_entryD: "pr_sync S s \<Longrightarrow> is_task_id i s \<Longrightarrow> pr_entry S s (nat i)"
  by (simp add: pr_sync_def is_task_id_def nat_less_iff)

lemma pr_nonneg:
  assumes "pr_sync S s" "is_task_id i s"
  shows "0 \<le> t_num_workers (base (tm_tasks s ! nat i))"
  using pr_entryD [OF assms] by (simp add: pr_entry_def Let_def)

lemma update_first_simps [simp]:
  "map fst (update_first k f ps) = map fst ps"
  by (induction k f ps rule: update_first.induct) auto

lemma fst_update_first [simp]: "fst ` set (update_first k f ps) = fst ` set ps"
  by (metis list.set_map update_first_simps)

lemma map_of_update_first:
  "map_of (update_first k f ps) i = (if i = k then map_option f (map_of ps k) else map_of ps i)"
  by (induction k f ps rule: update_first.induct) auto


text \<open>The parts of the state that the bookkeeping does not touch.\<close>

definition same_base :: "TaskManager \<Rightarrow> TaskManager \<Rightarrow> bool" where
  "same_base s s' \<longleftrightarrow> tm_tasks s' = tm_tasks s \<and> sc_info s' = sc_info s \<and> sc_pool s' = sc_pool s \<and> sc_track s' = sc_track s \<and> sc_hist s' = sc_hist s"

lemma same_base_keeps: "same_base s s' \<Longrightarrow> threads_ok s \<Longrightarrow> in_cluster s \<Longrightarrow> keeps s s' \<and> in_cluster s'"
  by (simp add: same_base_def keeps_def threads_ok_def threads_of_def base_ok_def in_cluster_def)

lemma nat_id: "is_task_id i s \<Longrightarrow> nat i < length (tm_tasks s) \<and> int (nat i) = i"
  by (simp add: is_task_id_def nat_less_iff)

lemma pr_entry_cong:
  assumes "tm_tasks s' ! k = tm_tasks s ! k" "tm_status s' ! k = tm_status s ! k" "tm_rejected s' ! k = tm_rejected s ! k"
    and "map_of (tm_priority s') (int k) = map_of (tm_priority s) (int k)" "int k \<in> set (tm_angry_list s') \<longleftrightarrow> int k \<in> set (tm_angry_list s)"
    and "int k \<in> fst ` sc_track s' \<longleftrightarrow> int k \<in> fst ` sc_track s" "int k \<in> S' \<longleftrightarrow> int k \<in> S"
  shows "pr_entry S' s' k \<longleftrightarrow> pr_entry S s k"
  unfolding pr_entry_def assms ..

lemma suc_sched_sync:
  assumes "pr_sync S s" "is_task_id i s" "i \<in> S"
  shows "\<exists>s'. suc_sched i s = Inr s' \<and> pr_sync (S - {i}) s' \<and> same_base s s'
     \<and> tm_status s' = (tm_status s)[nat i := 1] \<and> tm_rejected s' = (tm_rejected s)[nat i := 0]"
proof -
  note n = nat_id [OF assms(2)]
  have l: "length (tm_status s) = length (tm_tasks s)" "length (tm_rejected s) = length (tm_tasks s)" using assms(1) by (simp_all add: pr_sync_def)
  let ?s = "s\<lparr>tm_status := (tm_status s)[nat i := 1], tm_rejected := (tm_rejected s)[nat i := 0], tm_priority := update_first i (\<lambda>_. 0) (tm_priority s),
     tm_angry_list := filter (\<lambda>j. j \<noteq> i) (tm_angry_list s)\<rparr>"
  have run: "suc_sched i s = Inr ?s" using assms(2) n l by (simp add: suc_sched_def vec_set_def)
  have "pr_entry (S - {i}) ?s k" if k: "k < length (tm_tasks s)" for k
  proof (cases "k = nat i")
    case True
    then show ?thesis using pr_entryD [OF assms(1,2)] n l assms(3)
      by (auto simp: pr_entry_def Let_def map_of_update_first angry_threshold_def)
  next
    case False
    then have "int k \<noteq> i" using n by auto
    moreover have "pr_entry S s k" using assms(1) k by (simp add: pr_sync_def)
    ultimately show ?thesis using False by (subst pr_entry_cong [where s = s and S = S]) (simp_all add: map_of_update_first)
  qed
  then have "pr_sync (S - {i}) ?s" using assms(1) by (auto simp: pr_sync_def task_ids_def)
  then show ?thesis using run by (simp add: same_base_def)
qed

lemma fail_sched_sync:
  assumes "pr_sync S s" "is_task_id i s" "i \<notin> S" "tm_status s ! nat i = 0"
  shows "\<exists>s'. fail_sched i s = Inr s' \<and> pr_sync S s' \<and> same_base s s' \<and> tm_rejected s' = (tm_rejected s)[nat i := tm_rejected s ! nat i + 1]
     \<and> tm_status s' = (tm_status s)[nat i := if tm_rejected s ! nat i + 1 \<ge> angry_threshold then 3 else 0]"
proof -
  note n = nat_id [OF assms(2)] and e = pr_entryD [OF assms(1,2)]
  have l: "length (tm_status s) = length (tm_tasks s)" "length (tm_rejected s) = length (tm_tasks s)" using assms(1) by (simp_all add: pr_sync_def)
  have na: "i \<notin> set (tm_angry_list s)" "tm_rejected s ! nat i \<noteq> angry_threshold" "0 \<le> tm_rejected s ! nat i" "tm_rejected s ! nat i \<le> angry_threshold"
    and p: "map_of (tm_priority s) i = Some (tm_rejected s ! nat i)"
    using e n assms(4) by (auto simp: pr_entry_def Let_def)
  let ?angry = "tm_rejected s ! nat i + 1 \<ge> angry_threshold"
  let ?s = "s\<lparr>tm_rejected := (tm_rejected s)[nat i := tm_rejected s ! nat i + 1], tm_priority := update_first i (\<lambda>p. p + 1) (tm_priority s),
     tm_angry_list := (if ?angry then tm_angry_list s @ [i] else tm_angry_list s), tm_status := (tm_status s)[nat i := if ?angry then 3 else 0]\<rparr>"
  have run: "fail_sched i s = Inr ?s"
  proof (cases ?angry)
    case True
    then show ?thesis using assms(2) n l na(1) p by (simp add: fail_sched_def vec_set_def vec_get_def Let_def)
  next
    case False
    have "(tm_status s)[nat i := 0] = tm_status s" using assms(4) by (metis list_update_id)
    then have "?s = s\<lparr>tm_rejected := (tm_rejected s)[nat i := tm_rejected s ! nat i + 1], tm_priority := update_first i (\<lambda>p. p + 1) (tm_priority s)\<rparr>"
      using False by (intro TaskManager.equality) simp_all
    then show ?thesis using False assms(2) n l p by (simp add: fail_sched_def vec_get_def Let_def)
  qed
  have "pr_entry S ?s k" if k: "k < length (tm_tasks s)" for k
  proof (cases "k = nat i")
    case True
    then show ?thesis using e n l assms(3,4) na
      by (auto simp: pr_entry_def Let_def map_of_update_first)
  next
    case False
    then have "int k \<noteq> i" using n by auto
    moreover have "pr_entry S s k" using assms(1) k by (simp add: pr_sync_def)
    ultimately show ?thesis using False by (subst pr_entry_cong [where s = s and S = S]) (simp_all add: map_of_update_first)
  qed
  then have "pr_sync S ?s" using assms(1,2) na(1) by (auto simp: pr_sync_def task_ids_def is_task_id_def)
  then show ?thesis using run by (simp add: same_base_def)
qed

text \<open>Placing threads for a task puts it into the set of tasks that are not yet marked.\<close>

lemma pm_more_unchanged:
  "Sched.more s' = Sched.more s \<Longrightarrow> tm_tasks s' = tm_tasks s \<and> tm_priority s' = tm_priority s \<and> tm_status s' = tm_status s
     \<and> tm_rejected s' = tm_rejected s \<and> tm_angry_list s' = tm_angry_list s"
  by (cases s, cases s') simp

lemma place_sync:
  assumes "pr_sync S s" "is_task_id i s" "tm_status s ! nat i = 0 \<or> tm_status s ! nat i = 3" "place_result i inst s r s'"
  shows "pr_sync (if r = None then S else insert i S) s'"
proof -
  have m: "tm_tasks s' = tm_tasks s \<and> tm_priority s' = tm_priority s \<and> tm_status s' = tm_status s
     \<and> tm_rejected s' = tm_rejected s \<and> tm_angry_list s' = tm_angry_list s"
    using assms(4) pm_more_unchanged by (auto simp: place_result_def)
  note n = nat_id [OF assms(2)]
  show ?thesis
  proof (cases r)
    case None
    then have t: "sc_track s' = sc_track s" using assms(4) by (simp add: place_result_def)
    have "pr_entry S s' = pr_entry S s" by (rule ext) (simp add: pr_entry_def m t)
    then show ?thesis using None assms(1) m t by (simp add: pr_sync_def task_ids_def)
  next
    case (Some x)
    then obtain sel where "sel \<noteq> []" "sc_track s' = sc_track s \<union> tracked i sel" using assms(4) by (auto simp: place_result_def)
    then have tr: "fst ` sc_track s' = insert i (fst ` sc_track s)" by (simp add: fst_tracked)
    have "pr_entry (insert i S) s' k" if k: "k < length (tm_tasks s)" for k
    proof -
      have e: "pr_entry S s k" using assms(1) k by (simp add: pr_sync_def)
      show ?thesis
      proof (cases "k = nat i")
        case True
        from assms(3) show ?thesis by (elim disjE) (use True e m tr n in \<open>simp_all add: pr_entry_def Let_def\<close>)
      next
        case False
        then have "int k \<noteq> i" using n by auto
        then show ?thesis using e m tr by (subst pr_entry_cong [where s = s and S = S]) simp_all
      qed
    qed
    moreover have "task_ids s' = task_ids s" using m by (simp add: task_ids_def)
    ultimately show ?thesis using Some assms(1,2) m tr by (simp add: pr_sync_def)
  qed
qed


section \<open>One task\<close>

definition pr_ok :: "int set \<Rightarrow> TaskManager \<Rightarrow> bool" where
  "pr_ok S s \<longleftrightarrow> pr_sync S s \<and> threads_ok s \<and> in_cluster s"

definition basic_task :: "Task \<Rightarrow> bool" where
  "basic_task t \<longleftrightarrow> (\<exists>b. t = Basic b \<and> t_type b = BasicTaskType)"

lemma valid_filter: "valid_candidates P pids \<Longrightarrow> valid_candidates P (filter Q pids)"
proof -
  have le: "int (length (filter Q pids)) \<le> int (length pids)" by simp
  show "valid_candidates P pids \<Longrightarrow> valid_candidates P (filter Q pids)" by (auto simp: valid_candidates_def intro: order_trans [OF le])
qed

lemma setup_basic:
  assumes "basic_task t" "0 \<le> t_num_workers (base t)"
  obtains inst b where "instance_basic_setup t = Inr inst" "inst_task inst = Basic b" "t_type b = BasicTaskType" "0 < inst_num_workers inst"
proof -
  obtain b where b: "t = Basic b" "t_type b = BasicTaskType" using assms(1) by (auto simp: basic_task_def)
  show ?thesis
  proof (cases "t_num_workers b = 0")
    case True
    then show ?thesis using b
      by (intro that [of "inst_set_num_workers 1 \<lparr>inst_task = Basic b, inst_cluster = Map.empty\<rparr>" "b\<lparr>t_num_workers := 1\<rparr>"])
        (simp_all add: instance_basic_setup_def new_Instance_def set_task_def inst_set_num_workers_def set_num_workers_def inst_num_workers_def)
  next
    case False
    then show ?thesis using b assms(2)
      by (intro that [of "\<lparr>inst_task = Basic b, inst_cluster = Map.empty\<rparr>" b])
        (simp_all add: instance_basic_setup_def new_Instance_def set_task_def inst_num_workers_def)
  qed
qed

text \<open>Selecting the candidates (\<open>c\<close>) and placing, for both parts of \<^verbatim>\<open>extract_instances\<close>.\<close>

lemma placing:
  assumes "pr_ok S s" "env_ok e" "is_task_id i s" "tm_status s ! nat i = 0 \<or> tm_status s ! nat i = 3"
    and prep: "instance_basic_setup (tm_tasks s ! nat i) = Inr inst"
    and c: "keeps s (snd c) \<and> place_result i inst s None (snd c) \<and> valid_candidates (ci_num_processes (sc_info s)) (fst c)"
  shows "try_place e i (filter Q (fst c)) inst (snd c) = Some (Inr (r, s')) \<Longrightarrow>
       pr_ok (if r = None then S else insert i S) s' \<and> keeps s s' \<and> place_result i inst (snd c) r s'
       \<and> tm_tasks s' = tm_tasks s \<and> tm_status s' = tm_status s \<and> tm_rejected s' = tm_rejected s \<and> tm_angry_list s' = tm_angry_list s"
    and "basic_task (tm_tasks s ! nat i) \<Longrightarrow> \<exists>r s'. try_place e i (filter Q (fst c)) inst (snd c) = Some (Inr (r, s'))"
proof -
  have sync: "pr_sync S s" "threads_ok s" "in_cluster s" using assms(1) by (simp_all add: pr_ok_def)
  have pos: "0 \<le> t_num_workers (base (tm_tasks s ! nat i))" using pr_nonneg [OF sync(1) assms(3)] .
  have m: "tm_tasks (snd c) = tm_tasks s \<and> tm_priority (snd c) = tm_priority s \<and> tm_status (snd c) = tm_status s
     \<and> tm_rejected (snd c) = tm_rejected s \<and> tm_angry_list (snd c) = tm_angry_list s"
    using c pm_more_unchanged by (auto simp: place_result_def)
  have ok: "threads_ok (snd c)" "in_cluster (snd c)" "pr_sync S (snd c)" "is_task_id i (snd c)"
    "valid_candidates (ci_num_processes (sc_info (snd c))) (filter Q (fst c))"
    using c place_sync [OF sync(1) assms(3,4), of inst None "snd c"] in_cluster_keeps [of s "snd c"] sync(3) assms(3) m valid_filter
    by (auto simp: keeps_def is_task_id_def)
  {
    assume r: "try_place e i (filter Q (fst c)) inst (snd c) = Some (Inr (r, s'))"
    have k: "keeps (snd c) s' \<and> place_result i inst (snd c) r s'"
      using try_place_keeps [OF ok(1) assms(2) _ ok(5) r] setup_instance [OF prep] pos by simp
    have m': "tm_tasks s' = tm_tasks (snd c) \<and> tm_status s' = tm_status (snd c) \<and> tm_rejected s' = tm_rejected (snd c) \<and> tm_angry_list s' = tm_angry_list (snd c)"
      using k pm_more_unchanged [of s' "snd c"] by (simp add: place_result_def)
    have "pr_sync (if r = None then S else insert i S) s'"
      by (rule place_sync [OF ok(3,4), where inst = inst]) (use k m assms(4) in simp_all)
    then show "pr_ok (if r = None then S else insert i S) s' \<and> keeps s s' \<and> place_result i inst (snd c) r s'
       \<and> tm_tasks s' = tm_tasks s \<and> tm_status s' = tm_status s \<and> tm_rejected s' = tm_rejected s \<and> tm_angry_list s' = tm_angry_list s"
      using k c m m' keeps_trans [of s "snd c" s'] in_cluster_keeps [of s s'] sync(3) by (auto simp: pr_ok_def keeps_def)
  }
  assume "basic_task (tm_tasks s ! nat i)"
  then obtain b where b: "inst_task inst = Basic b" "t_type b = BasicTaskType" "0 < inst_num_workers inst"
    using setup_basic [OF _ pos] prep by (metis Inr_inject)
  show "\<exists>r s'. try_place e i (filter Q (fst c)) inst (snd c) = Some (Inr (r, s'))"
    using try_place_returns [OF ok(1) assms(2) b(3) ok(5) b(1,2) ok(2)] by blast
qed

definition ready_result :: "int \<Rightarrow> TaskManager \<Rightarrow> TaskManager \<Rightarrow> bool" where
  "ready_result i s s' \<longleftrightarrow>
     (tm_status s' = (tm_status s)[nat i := 1] \<and> tm_rejected s' = (tm_rejected s)[nat i := 0]
      \<or> tm_rejected s' = (tm_rejected s)[nat i := tm_rejected s ! nat i + 1]
        \<and> tm_status s' = (tm_status s)[nat i := if tm_rejected s ! nat i + 1 \<ge> angry_threshold then 3 else 0])"

lemma ready_step_result:
  assumes "pr_ok {} s" "env_ok e" "is_task_id i s" "tm_status s ! nat i = 0"
  shows "ready_step e lock i (insts, s) = Some (Inr (insts', s')) \<Longrightarrow> pr_ok {} s' \<and> keeps s s' \<and> tm_tasks s' = tm_tasks s \<and> ready_result i s s'"
    and "basic_task (tm_tasks s ! nat i) \<Longrightarrow> \<exists>insts' s'. ready_step e lock i (insts, s) = Some (Inr (insts', s'))"
proof -
  have task: "get_task_by_id i s = Inr (tm_tasks s ! nat i)" using assms(3) by (simp add: get_task_by_id_def)
  have pos: "0 \<le> t_num_workers (base (tm_tasks s ! nat i))" using pr_nonneg [of "{}"] assms(1,3) by (simp add: pr_ok_def)
  have c: "keeps s (snd (preferred i s)) \<and> place_result i inst s None (snd (preferred i s)) \<and> valid_candidates (ci_num_processes (sc_info s)) (fst (preferred i s))" for inst
    using preferred_ok [of s i inst] assms(1) by (simp add: pr_ok_def)
  have finish: "\<exists>s2. (case r of None \<Rightarrow> fail_sched i s1 | Some _ \<Rightarrow> suc_sched i s1) = Inr s2 \<and> pr_ok {} s2 \<and> keeps s s2 \<and> tm_tasks s2 = tm_tasks s \<and> ready_result i s s2"
    if inst: "instance_basic_setup (tm_tasks s ! nat i) = Inr inst"
      and r: "try_place e i (filter (\<lambda>pid. pid \<notin> lock) (fst (preferred i s))) inst (snd (preferred i s)) = Some (Inr (r, s1))" for inst r s1
  proof -
    note p = placing(1) [OF assms(1-3) disjI1 [OF assms(4)] inst c [of inst] r]
    have t: "is_task_id i s1" using p assms(3) by (simp add: is_task_id_def)
    show ?thesis
    proof (cases r)
      case None
      then obtain s2 where "fail_sched i s1 = Inr s2" "pr_sync {} s2" "same_base s1 s2"
        "tm_rejected s2 = (tm_rejected s1)[nat i := tm_rejected s1 ! nat i + 1]"
        "tm_status s2 = (tm_status s1)[nat i := if tm_rejected s1 ! nat i + 1 \<ge> angry_threshold then 3 else 0]"
        using fail_sched_sync [of "{}" s1 i] p t assms(4) by (auto simp: pr_ok_def)
      then show ?thesis using None p same_base_keeps [of s1 s2] keeps_trans [of s s1 s2] by (auto simp: pr_ok_def ready_result_def same_base_def keeps_def)
    next
      case (Some x)
      then obtain s2 where "suc_sched i s1 = Inr s2" "pr_sync {} s2" "same_base s1 s2"
        "tm_status s2 = (tm_status s1)[nat i := 1]" "tm_rejected s2 = (tm_rejected s1)[nat i := 0]"
        using suc_sched_sync [of "{i}" s1 i] p t by (auto simp: pr_ok_def)
      then show ?thesis using Some p same_base_keeps [of s1 s2] keeps_trans [of s s1 s2] by (auto simp: pr_ok_def ready_result_def same_base_def keeps_def)
    qed
  qed
  {
    assume run: "ready_step e lock i (insts, s) = Some (Inr (insts', s'))"
    then obtain inst r s1 where "instance_basic_setup (tm_tasks s ! nat i) = Inr inst"
      "try_place e i (filter (\<lambda>pid. pid \<notin> lock) (fst (preferred i s))) inst (snd (preferred i s)) = Some (Inr (r, s1))"
      "(case r of None \<Rightarrow> fail_sched i s1 | Some _ \<Rightarrow> suc_sched i s1) = Inr s'"
      using task by (auto simp: res_simps Let_def split_beta split: option.splits)
    then show "pr_ok {} s' \<and> keeps s s' \<and> tm_tasks s' = tm_tasks s \<and> ready_result i s s'" using finish by fastforce
  }
  assume b: "basic_task (tm_tasks s ! nat i)"
  then obtain inst where inst: "instance_basic_setup (tm_tasks s ! nat i) = Inr inst" using setup_basic [OF _ pos] by metis
  from placing(2) [OF assms(1-3) disjI1 [OF assms(4)] inst c [of inst] b, of "\<lambda>pid. pid \<notin> lock"]
  obtain r s1 where r: "try_place e i (filter (\<lambda>pid. pid \<notin> lock) (fst (preferred i s))) inst (snd (preferred i s)) = Some (Inr (r, s1))" by blast
  then show "\<exists>insts' s'. ready_step e lock i (insts, s) = Some (Inr (insts', s'))"
    using task inst finish [OF inst r] by (cases r) (auto simp: split_beta Let_def)
qed


section \<open>The two parts of \<^verbatim>\<open>extract_instances\<close>\<close>

text \<open>A ready task starts, or it is rejected once more; at the threshold it becomes angry.\<close>

definition waited :: "TaskManager \<Rightarrow> TaskManager \<Rightarrow> nat \<Rightarrow> bool" where
  "waited s s' k \<longleftrightarrow> tm_status s' ! k = 1 \<and> tm_rejected s' ! k = 0
     \<or> tm_rejected s' ! k = tm_rejected s ! k + 1 \<and> tm_status s' ! k = (if tm_rejected s ! k + 1 \<ge> angry_threshold then 3 else 0)"

definition unchanged :: "TaskManager \<Rightarrow> TaskManager \<Rightarrow> nat \<Rightarrow> bool" where
  "unchanged s s' k \<longleftrightarrow> tm_status s' ! k = tm_status s ! k \<and> tm_rejected s' ! k = tm_rejected s ! k"

definition ready_rel :: "int set \<Rightarrow> TaskManager \<Rightarrow> TaskManager \<Rightarrow> bool" where
  "ready_rel X s s' \<longleftrightarrow> pr_ok {} s' \<and> keeps s s' \<and> tm_tasks s' = tm_tasks s
     \<and> (\<forall>k < length (tm_tasks s). if int k \<in> X then waited s s' k else unchanged s s' k)"

lemma ready_rel_refl: "pr_ok {} s \<Longrightarrow> ready_rel {} s s"
  by (simp add: ready_rel_def unchanged_def keeps_refl pr_ok_def)

lemma ready_rel_insert:
  assumes "ready_rel {i} s s1" "ready_rel X s1 s'" "i \<notin> X"
  shows "ready_rel (insert i X) s s'"
proof -
  have "if int k \<in> insert i X then waited s s' k else unchanged s s' k" if "k < length (tm_tasks s)" for k
  proof -
    have "if int k = i then waited s s1 k else unchanged s s1 k" "if int k \<in> X then waited s1 s' k else unchanged s1 s' k"
      using assms(1,2) that by (simp_all add: ready_rel_def)
    then show ?thesis using assms(3) by (cases "int k = i"; cases "int k \<in> X") (simp_all add: waited_def unchanged_def)
  qed
  then show ?thesis using assms keeps_trans [of s s1 s'] by (simp add: ready_rel_def)
qed

lemma ready_step_rel:
  assumes "pr_ok {} s" "env_ok e" "is_task_id i s" "tm_status s ! nat i = 0" "ready_step e lock i (insts, s) = Some (Inr (insts', s'))"
  shows "ready_rel {i} s s'"
proof -
  note r = ready_step_result(1) [OF assms]
  have l: "length (tm_status s) = length (tm_tasks s)" "length (tm_rejected s) = length (tm_tasks s)" using assms(1) by (simp_all add: pr_ok_def pr_sync_def)
  have "if int k = i then waited s s' k else unchanged s s' k" if "k < length (tm_tasks s)" for k
  proof -
    have "int k = i \<longleftrightarrow> nat i = k" using nat_id [OF assms(3)] by auto
    then show ?thesis using r l that unfolding ready_result_def waited_def unchanged_def by (auto simp: nth_list_update)
  qed
  then show ?thesis using r by (simp add: ready_rel_def)
qed

text \<open>The tasks of a list that are still to be tried.\<close>

definition to_try :: "(nat \<times> int) list \<Rightarrow> TaskManager \<Rightarrow> bool" where
  "to_try xs s \<longleftrightarrow> distinct (map snd xs) \<and> (\<forall>i \<in> snd ` set xs. is_task_id i s \<and> tm_status s ! nat i = 0)"

lemma to_try_step:
  assumes "to_try ((k, i) # xs) s" "ready_rel {i} s s1"
  shows "to_try xs s1"
proof -
  have "is_task_id j s1 \<and> tm_status s1 ! nat j = 0" if j: "j \<in> snd ` set xs" for j
  proof -
    have ji: "is_task_id j s" "tm_status s ! nat j = 0" "j \<noteq> i" using assms(1) j by (auto simp: to_try_def)
    then have "unchanged s s1 (nat j)" using assms(2) nat_id [OF ji(1)] by (simp add: ready_rel_def)
    then show ?thesis using ji assms(2) by (simp add: unchanged_def is_task_id_def ready_rel_def)
  qed
  then show ?thesis using assms(1) by (simp add: to_try_def)
qed

lemma ready_loop:
  assumes "\<And>k. env_ok (f k)" "pr_ok {} s" "to_try xs s"
    and "foldO (\<lambda>(k, i). ready_step (f k) lock i) xs (insts, s) = Some (Inr (insts', s'))"
  shows "ready_rel (snd ` set xs) s s'"
  using assms(2-4)
proof (induction xs arbitrary: s insts)
  case Nil
  then show ?case by (simp add: ready_rel_refl)
next
  case (Cons x xs)
  obtain k i where x: "x = (k, i)" by fastforce
  obtain insts1 s1 where s1: "ready_step (f k) lock i (insts, s) = Some (Inr (insts1, s1))"
    "foldO (\<lambda>(k, i). ready_step (f k) lock i) xs (insts1, s1) = Some (Inr (insts', s'))" using Cons.prems(3) x by (auto simp: res_simps)
  have i: "is_task_id i s" "tm_status s ! nat i = 0" "i \<notin> snd ` set xs" using Cons.prems(2) x by (auto simp: to_try_def)
  note st = ready_step_rel [OF Cons.prems(1) assms(1) [of k] i(1,2) s1(1)]
  have "ready_rel (snd ` set xs) s1 s'"
    by (rule Cons.IH [OF _ _ s1(2)]) (use st Cons.prems(2) x to_try_step [of k i xs s s1] in \<open>simp_all add: ready_rel_def\<close>)
  then show ?case using ready_rel_insert [OF st _ i(3)] x by simp
qed

lemma ready_loop_returns:
  assumes "\<And>k. env_ok (f k)" "pr_ok {} s" "to_try xs s" "\<forall>t \<in> set (tm_tasks s). basic_task t"
  shows "\<exists>insts' s'. foldO (\<lambda>(k, i). ready_step (f k) lock i) xs (insts, s) = Some (Inr (insts', s'))"
  using assms(2-4)
proof (induction xs arbitrary: s insts)
  case (Cons x xs)
  obtain k i where x: "x = (k, i)" by fastforce
  have i: "is_task_id i s" "tm_status s ! nat i = 0" using Cons.prems(2) x by (simp_all add: to_try_def)
  have "basic_task (tm_tasks s ! nat i)" using Cons.prems(3) nat_id [OF i(1)] by simp
  from ready_step_result(2) [OF Cons.prems(1) assms(1) [of k] i this]
  obtain insts1 s1 where s1: "ready_step (f k) lock i (insts, s) = Some (Inr (insts1, s1))" by blast
  note st = ready_step_rel [OF Cons.prems(1) assms(1) [of k] i s1]
  have "\<exists>insts' s'. foldO (\<lambda>(k, i). ready_step (f k) lock i) xs (insts1, s1) = Some (Inr (insts', s'))"
    by (rule Cons.IH) (use st Cons.prems x to_try_step [of k i xs s s1] in \<open>simp_all add: ready_rel_def\<close>)
  then show ?case using s1 x by simp
qed simp

subsection \<open>Angry tasks\<close>

definition same_marks :: "TaskManager \<Rightarrow> TaskManager \<Rightarrow> bool" where
  "same_marks s s' \<longleftrightarrow> tm_tasks s' = tm_tasks s \<and> tm_status s' = tm_status s \<and> tm_rejected s' = tm_rejected s \<and> tm_angry_list s' = tm_angry_list s"

lemma angry_step_result:
  assumes "pr_ok S s" "env_ok e" "is_task_id i s" "tm_status s ! nat i = 3"
  shows "angry_step e i (insts, succ, lock, s) = Some (Inr (insts', succ', lock', s')) \<Longrightarrow>
      keeps s s' \<and> same_marks s s' \<and> (succ' = succ \<and> pr_ok S s' \<or> succ' = succ @ [i] \<and> pr_ok (insert i S) s')"
    and "basic_task (tm_tasks s ! nat i) \<Longrightarrow> \<exists>r. angry_step e i (insts, succ, lock, s) = Some (Inr r)"
proof -
  have task: "get_task_by_id i s = Inr (tm_tasks s ! nat i)" using assms(3) by (simp add: get_task_by_id_def)
  have pos: "0 \<le> t_num_workers (base (tm_tasks s ! nat i))" using pr_nonneg [of S] assms(1,3) by (simp add: pr_ok_def)
  have c: "keeps s (snd (all_or_preferred i inst s)) \<and> place_result i inst s None (snd (all_or_preferred i inst s))
      \<and> valid_candidates (ci_num_processes (sc_info s)) (fst (all_or_preferred i inst s))" for inst
    using all_or_preferred_ok [of s i inst] assms(1) by (simp add: pr_ok_def)
  {
    assume "angry_step e i (insts, succ, lock, s) = Some (Inr (insts', succ', lock', s'))"
    then obtain inst r where inst: "instance_basic_setup (tm_tasks s ! nat i) = Inr inst"
      and r: "try_place e i (filter (\<lambda>pid. pid \<notin> lock) (fst (all_or_preferred i inst s))) inst (snd (all_or_preferred i inst s)) = Some (Inr (r, s'))"
      and succ': "succ' = (if r = None then succ else succ @ [i])"
      using task by (auto simp: res_simps Let_def split_beta split: option.splits)
    show "keeps s s' \<and> same_marks s s' \<and> (succ' = succ \<and> pr_ok S s' \<or> succ' = succ @ [i] \<and> pr_ok (insert i S) s')"
      using placing(1) [OF assms(1-3) disjI2 [OF assms(4)] inst c [of inst] r] succ' by (cases r) (simp_all add: same_marks_def)
  }
  assume b: "basic_task (tm_tasks s ! nat i)"
  then obtain inst where inst: "instance_basic_setup (tm_tasks s ! nat i) = Inr inst" using setup_basic [OF _ pos] by metis
  from placing(2) [OF assms(1-3) disjI2 [OF assms(4)] inst c [of inst] b, of "\<lambda>pid. pid \<notin> lock"]
  obtain r s1 where r: "try_place e i (filter (\<lambda>pid. pid \<notin> lock) (fst (all_or_preferred i inst s))) inst (snd (all_or_preferred i inst s)) = Some (Inr (r, s1))" by blast
  then show "\<exists>r. angry_step e i (insts, succ, lock, s) = Some (Inr r)"
    using task inst by (cases r) (auto simp: split_beta Let_def)
qed


lemma same_marks_trans: "same_marks s s1 \<Longrightarrow> same_marks s1 s2 \<Longrightarrow> same_marks s s2"
  by (simp add: same_marks_def)

definition all_angry :: "(nat \<times> int) list \<Rightarrow> TaskManager \<Rightarrow> bool" where
  "all_angry xs s \<longleftrightarrow> distinct (map snd xs) \<and> (\<forall>i \<in> snd ` set xs. is_task_id i s \<and> tm_status s ! nat i = 3)"

lemma all_angry_marks: "all_angry (x # xs) s \<Longrightarrow> same_marks s s1 \<Longrightarrow> all_angry xs s1"
  by (simp add: all_angry_def same_marks_def is_task_id_def)

lemma angry_loop:
  assumes "\<And>k. env_ok (f k)" "pr_ok (set succ) s" "all_angry xs s" "distinct succ" "set succ \<inter> snd ` set xs = {}"
    and "foldO (\<lambda>(k, i). angry_step (f k) i) xs (insts, succ, lock, s) = Some (Inr (insts', succ', lock', s'))"
  shows "keeps s s' \<and> same_marks s s' \<and> pr_ok (set succ') s' \<and> distinct succ' \<and> set succ' \<subseteq> set succ \<union> snd ` set xs \<and> set succ \<subseteq> set succ'"
  using assms(2-6)
proof (induction xs arbitrary: s insts succ lock)
  case Nil
  then show ?case by (simp add: same_marks_def keeps_refl pr_ok_def)
next
  case (Cons x xs)
  obtain k i where x: "x = (k, i)" by fastforce
  obtain insts1 succ1 lock1 s1 where s1: "angry_step (f k) i (insts, succ, lock, s) = Some (Inr (insts1, succ1, lock1, s1))"
    "foldO (\<lambda>(k, i). angry_step (f k) i) xs (insts1, succ1, lock1, s1) = Some (Inr (insts', succ', lock', s'))"
    using Cons.prems(5) x by (auto simp: res_simps simp del: angry_step.simps)
  have i: "is_task_id i s" "tm_status s ! nat i = 3" "i \<notin> set succ" "i \<notin> snd ` set xs" using Cons.prems(2,4) x by (auto simp: all_angry_def)
  have st: "keeps s s1" "same_marks s s1" "pr_ok (set succ1) s1" "distinct succ1" "set succ1 \<subseteq> insert i (set succ)" "set succ \<subseteq> set succ1"
    using angry_step_result(1) [OF Cons.prems(1) assms(1) [of k] i(1,2) s1(1)] Cons.prems(3) i(3) by auto
  have d: "set succ1 \<inter> snd ` set xs = {}" using st(5) Cons.prems(4) i(4) by auto
  have "keeps s1 s' \<and> same_marks s1 s' \<and> pr_ok (set succ') s' \<and> distinct succ' \<and> set succ' \<subseteq> set succ1 \<union> snd ` set xs \<and> set succ1 \<subseteq> set succ'"
    by (rule Cons.IH [OF st(3) all_angry_marks [OF Cons.prems(2) st(2)] st(4) d s1(2)])
  then show ?case using st(1,2,5,6) x keeps_trans [of s s1 s'] same_marks_trans [of s s1 s'] by auto
qed

lemma angry_loop_returns:
  assumes "\<And>k. env_ok (f k)" "pr_ok (set succ) s" "all_angry xs s" "\<forall>t \<in> set (tm_tasks s). basic_task t"
  shows "\<exists>r. foldO (\<lambda>(k, i). angry_step (f k) i) xs (insts, succ, lock, s) = Some (Inr r)"
  using assms(2-4)
proof (induction xs arbitrary: s insts succ lock)
  case (Cons x xs)
  obtain k i where x: "x = (k, i)" by fastforce
  have i: "is_task_id i s" "tm_status s ! nat i = 3" using Cons.prems(2) x by (simp_all add: all_angry_def)
  have "basic_task (tm_tasks s ! nat i)" using Cons.prems(3) nat_id [OF i(1)] by simp
  from angry_step_result(2) [OF Cons.prems(1) assms(1) [of k] i this]
  obtain insts1 succ1 lock1 s1 where s1: "angry_step (f k) i (insts, succ, lock, s) = Some (Inr (insts1, succ1, lock1, s1))" by (metis prod_cases4)
  note st = angry_step_result(1) [OF Cons.prems(1) assms(1) [of k] i s1]
  have "pr_ok (set succ1) s1" using st by auto
  moreover have "all_angry xs s1" using all_angry_marks [OF Cons.prems(2)] st by blast
  moreover have "\<forall>t \<in> set (tm_tasks s1). basic_task t" using st Cons.prems(3) by (simp add: same_marks_def)
  ultimately have "\<exists>r. foldO (\<lambda>(k, i). angry_step (f k) i) xs (insts1, succ1, lock1, s1) = Some (Inr r)" by (rule Cons.IH)
  then show ?case using s1 x by (simp del: angry_step.simps)
qed simp

text \<open>Marking the angry tasks that were placed.\<close>

lemma suc_all:
  assumes "pr_ok (set ys) s" "distinct ys" "\<forall>i \<in> set ys. is_task_id i s"
  shows "\<exists>s'. foldE suc_sched ys s = Inr s' \<and> pr_ok {} s' \<and> keeps s s' \<and> tm_tasks s' = tm_tasks s
     \<and> (\<forall>k < length (tm_tasks s). if int k \<in> set ys then tm_status s' ! k = 1 \<and> tm_rejected s' ! k = 0 else unchanged s s' k)"
  using assms
proof (induction ys arbitrary: s)
  case Nil
  then show ?case by (simp add: unchanged_def keeps_refl pr_ok_def)
next
  case (Cons i ys)
  have n: "nat i < length (tm_tasks s)" "int (nat i) = i" using nat_id [of i s] Cons.prems(3) by simp_all
  have l: "length (tm_status s) = length (tm_tasks s)" "length (tm_rejected s) = length (tm_tasks s)" using Cons.prems(1) by (simp_all add: pr_ok_def pr_sync_def)
  obtain s1 where s1: "suc_sched i s = Inr s1" "pr_sync (set (i # ys) - {i}) s1" "same_base s s1"
    "tm_status s1 = (tm_status s)[nat i := 1]" "tm_rejected s1 = (tm_rejected s)[nat i := 0]"
    using suc_sched_sync [of "set (i # ys)" s i] Cons.prems(1,3) by (auto simp: pr_ok_def)
  have k1: "keeps s s1" "in_cluster s1" using same_base_keeps [OF s1(3)] Cons.prems(1) by (simp_all add: pr_ok_def)
  have ok1: "pr_ok (set ys) s1" using s1(2) k1 Cons.prems(2) by (simp add: pr_ok_def keeps_def)
  moreover have "\<forall>j \<in> set ys. is_task_id j s1" using Cons.prems(3) s1(3) by (simp add: is_task_id_def same_base_def)
  ultimately obtain s' where s': "foldE suc_sched ys s1 = Inr s'" "pr_ok {} s'" "keeps s1 s'" "tm_tasks s' = tm_tasks s1"
    "\<forall>k < length (tm_tasks s1). if int k \<in> set ys then tm_status s' ! k = 1 \<and> tm_rejected s' ! k = 0 else unchanged s1 s' k"
    using Cons.IH [of s1] Cons.prems(2) by auto
  have "if int k \<in> set (i # ys) then tm_status s' ! k = 1 \<and> tm_rejected s' ! k = 0 else unchanged s s' k" if "k < length (tm_tasks s)" for k
  proof -
    have "int k = i \<longleftrightarrow> nat i = k" using n by auto
    then show ?thesis using s'(5) s1(3-5) that l Cons.prems(2) by (auto simp: same_base_def unchanged_def nth_list_update split: if_splits)
  qed
  then show ?case using s1(1,3) s' k1 keeps_trans [of s s1 s'] by (auto simp: same_base_def)
qed

lemma order_ok:
  assumes "env_ok e" "pr_ok {} s"
  shows "\<exists>ids s'. order_by_priority e s = Inr (ids, s') \<and> pr_ok {} s' \<and> keeps s s' \<and> tm_tasks s' = tm_tasks s \<and> tm_status s' = tm_status s
     \<and> tm_rejected s' = tm_rejected s \<and> distinct ids \<and> set ids = {i. is_task_id i s \<and> tm_status s ! nat i = 0}"
proof -
  let ?ps = "sort_priority e (tm_priority s)"
  let ?s = "s\<lparr>tm_priority := ?ps\<rparr>"
  have sync: "pr_sync {} s" using assms(2) by (simp add: pr_ok_def)
  have ms: "mset ?ps = mset (tm_priority s)" using assms(1) by (simp add: env_ok_def)
  have st: "set ?ps = set (tm_priority s)" using mset_eq_setD [OF ms] .
  have d: "distinct (map fst ?ps)" using sync mset_eq_imp_distinct_iff [of "map fst ?ps" "map fst (tm_priority s)"] ms by (simp add: pr_sync_def)
  have m: "map_of ?ps = map_of (tm_priority s)" using map_of_inject_set [OF d, of "tm_priority s"] st sync by (simp add: pr_sync_def)
  have e: "pr_entry {} ?s = pr_entry {} s" by (rule ext) (simp add: pr_entry_def m)
  have ok: "pr_ok {} ?s" "keeps s ?s"
    using assms(2) e st d by (auto simp: pr_ok_def pr_sync_def task_ids_def threads_ok_def base_ok_def in_cluster_def threads_of_def keeps_def)
  have status: "status_at (fst p) ?s = Inr (tm_status s ! nat (fst p))" if "p \<in> set ?ps" for p
  proof -
    have "is_task_id (fst p) s" using that st sync by (auto simp: pr_sync_def simp flip: task_ids_iff)
    then show ?thesis using sync nat_id [of "fst p" s] by (simp add: status_at_def vec_get_def pr_sync_def is_task_id_def)
  qed
  have "mapE (\<lambda>p. bindE (status_at (fst p) ?s) (\<lambda>status. Inr (fst p, status))) ?ps = Inr (map (\<lambda>p. (fst p, tm_status s ! nat (fst p))) ?ps)"
    by (rule mapE_Inr_map) (simp add: status)
  then have run: "order_by_priority e s = Inr (map fst (filter (\<lambda>p. tm_status s ! nat (fst p) = 0) ?ps), ?s)"
    by (simp add: order_by_priority_def Let_def filter_map comp_def)
  moreover have "distinct (map fst (filter (\<lambda>p. tm_status s ! nat (fst p) = 0) ?ps))" using d by (simp add: distinct_map_filter)
  moreover have "set (map fst (filter (\<lambda>p. tm_status s ! nat (fst p) = 0) ?ps)) = {i. is_task_id i s \<and> tm_status s ! nat i = 0}"
  proof -
    have "fst ` set (tm_priority s) = {i. is_task_id i s}" using sync by (auto simp: pr_sync_def simp flip: task_ids_iff)
    then show ?thesis using st by auto
  qed
  ultimately show ?thesis using ok by auto
qed


section \<open>Extracting and finishing\<close>

lemma snd_set_enumerate [simp]: "snd ` set (List.enumerate n xs) = set xs"
  by (metis list.set_map map_snd_enumerate)

definition angry_result :: "TaskManager \<Rightarrow> TaskManager \<Rightarrow> nat \<Rightarrow> bool" where
  "angry_result s s' k \<longleftrightarrow> unchanged s s' k \<or> tm_status s ! k = 3 \<and> tm_status s' ! k = 1 \<and> tm_rejected s' ! k = 0"

lemma enumerate_angry:
  assumes "pr_ok {} s"
  shows "all_angry (List.enumerate 0 (tm_angry_list s)) s"
proof -
  have sync: "pr_sync {} s" using assms by (simp add: pr_ok_def)
  have "is_task_id i s \<and> tm_status s ! nat i = 3" if "i \<in> set (tm_angry_list s)" for i
  proof -
    have t: "is_task_id i s" using sync that by (auto simp: pr_sync_def simp flip: task_ids_iff)
    then show ?thesis using pr_entryD [OF sync t] nat_id [OF t] that by (simp add: pr_entry_def Let_def)
  qed
  then show ?thesis using sync unfolding all_angry_def by (simp add: pr_sync_def)
qed

lemma angry_phase_result:
  assumes "\<And>k. env_ok (es k)" "pr_ok {} s"
  shows "angry_phase es s = Some (Inr (insts, lock, s')) \<Longrightarrow> pr_ok {} s' \<and> keeps s s' \<and> tm_tasks s' = tm_tasks s \<and> (\<forall>k < length (tm_tasks s). angry_result s s' k)"
    and "\<forall>t \<in> set (tm_tasks s). basic_task t \<Longrightarrow> \<exists>insts lock s'. angry_phase es s = Some (Inr (insts, lock, s'))"
proof -
  note a = enumerate_angry [OF assms(2)]
  have marked: "\<exists>s2. foldE suc_sched succ s1 = Inr s2 \<and> pr_ok {} s2 \<and> keeps s s2 \<and> tm_tasks s2 = tm_tasks s \<and> (\<forall>k < length (tm_tasks s). angry_result s s2 k)"
    if r: "foldO (\<lambda>(k, task_id). angry_step (es k) task_id) (List.enumerate 0 (tm_angry_list s)) ([], [], {}, s) = Some (Inr (insts, succ, lock, s1))" for insts succ lock s1
  proof -
    have l: "keeps s s1" "same_marks s s1" "pr_ok (set succ) s1" "distinct succ" "set succ \<subseteq> snd ` set (List.enumerate 0 (tm_angry_list s))"
      using angry_loop [of es "[]" s, OF assms(1) _ a _ _ r] assms(2) by simp_all
    have ids: "\<forall>i \<in> set succ. is_task_id i s1 \<and> tm_status s ! nat i = 3" using l(2,5) a by (auto simp: all_angry_def same_marks_def is_task_id_def)
    obtain s2 where s2: "foldE suc_sched succ s1 = Inr s2" "pr_ok {} s2" "keeps s1 s2" "tm_tasks s2 = tm_tasks s1"
      "\<forall>k < length (tm_tasks s1). if int k \<in> set succ then tm_status s2 ! k = 1 \<and> tm_rejected s2 ! k = 0 else unchanged s1 s2 k"
      using suc_all [OF l(3,4)] ids by blast
    have "angry_result s s2 k" if k: "k < length (tm_tasks s)" for k
      using s2(5) [rule_format, of k] k ids l(2) by (cases "int k \<in> set succ") (auto simp: angry_result_def unchanged_def same_marks_def)
    then show ?thesis using s2 l keeps_trans [of s s1 s2] by (auto simp: same_marks_def)
  qed
  show "angry_phase es s = Some (Inr (insts, lock, s')) \<Longrightarrow> pr_ok {} s' \<and> keeps s s' \<and> tm_tasks s' = tm_tasks s \<and> (\<forall>k < length (tm_tasks s). angry_result s s' k)"
    using marked by (fastforce simp: angry_phase_def res_simps)
  assume b: "\<forall>t \<in> set (tm_tasks s). basic_task t"
  obtain insts succ lock s1 where r: "foldO (\<lambda>(k, task_id). angry_step (es k) task_id) (List.enumerate 0 (tm_angry_list s)) ([], [], {}, s) = Some (Inr (insts, succ, lock, s1))"
    using angry_loop_returns [of es "[]" s, OF assms(1) _ a b] assms(2) by fastforce
  then show "\<exists>insts lock s'. angry_phase es s = Some (Inr (insts, lock, s'))" using marked [OF r] by (auto simp: angry_phase_def)
qed

text \<open>One call of \<^verbatim>\<open>extract_instances\<close>, for one task.\<close>

definition accounted :: "TaskManager \<Rightarrow> TaskManager \<Rightarrow> nat \<Rightarrow> bool" where
  "accounted s s' k \<longleftrightarrow> (if tm_status s ! k = 0 then waited s s' k else angry_result s s' k)"

lemma priority_extract_result:
  assumes "\<And>k. env_ok (es k)" "pr_ok {} s"
  shows "priority_extract_instances es s = Some (Inr (insts, s')) \<Longrightarrow> pr_ok {} s' \<and> keeps s s' \<and> tm_tasks s' = tm_tasks s \<and> (\<forall>k < length (tm_tasks s). accounted s s' k)"
    and "\<forall>t \<in> set (tm_tasks s). basic_task t \<Longrightarrow> \<exists>insts s'. priority_extract_instances es s = Some (Inr (insts, s'))"
proof -
  note ph = angry_phase_result [of "\<lambda>k. es (2 * k)" s, OF assms(1,2)]
  have ordered: "\<exists>ids s2. order_by_priority (es 0) s1 = Inr (ids, s2) \<and> pr_ok {} s2 \<and> keeps s s2 \<and> tm_tasks s2 = tm_tasks s
      \<and> (\<forall>k < length (tm_tasks s). angry_result s s2 k) \<and> to_try (List.enumerate 0 ids) s2 \<and> (\<forall>i. i \<in> set ids \<longleftrightarrow> is_task_id i s \<and> tm_status s2 ! nat i = 0)"
    if "angry_phase (\<lambda>k. es (2 * k)) s = Some (Inr (insts, lock, s1))" for insts lock s1
  proof -
    note p = ph(1) [OF that]
    obtain ids s2 where o: "order_by_priority (es 0) s1 = Inr (ids, s2)" "pr_ok {} s2" "keeps s1 s2" "tm_tasks s2 = tm_tasks s1" "tm_status s2 = tm_status s1"
      "tm_rejected s2 = tm_rejected s1" "distinct ids" "set ids = {i. is_task_id i s1 \<and> tm_status s1 ! nat i = 0}"
      using order_ok [of "es 0" s1] assms(1) p by blast
    have "to_try (List.enumerate 0 ids) s2" using o by (simp add: to_try_def is_task_id_def)
    then show ?thesis using o p keeps_trans [of s s1 s2] by (auto simp: angry_result_def unchanged_def is_task_id_def)
  qed
  {
    assume "priority_extract_instances es s = Some (Inr (insts, s'))"
    then obtain insts1 lock s1 ids s2 where r: "angry_phase (\<lambda>k. es (2 * k)) s = Some (Inr (insts1, lock, s1))" "order_by_priority (es 0) s1 = Inr (ids, s2)"
      "foldO (\<lambda>(k, i). ready_step (es (2 * k + 1)) lock i) (List.enumerate 0 ids) (insts1, s2) = Some (Inr (insts, s'))"
      by (auto simp: priority_extract_instances_def res_simps)
    have o: "pr_ok {} s2" "keeps s s2" "tm_tasks s2 = tm_tasks s" "\<forall>k < length (tm_tasks s). angry_result s s2 k" "to_try (List.enumerate 0 ids) s2"
      "\<And>i. i \<in> set ids \<longleftrightarrow> is_task_id i s \<and> tm_status s2 ! nat i = 0"
      using ordered [OF r(1)] r(2) by auto
    have rr: "ready_rel (set ids) s2 s'"
      using ready_loop [of "\<lambda>k. es (2 * k + 1)", OF assms(1) o(1,5) r(3)] by simp
    have "accounted s s' k" if k: "k < length (tm_tasks s)" for k
    proof -
      have "angry_result s s2 k" "if int k \<in> set ids then waited s2 s' k else unchanged s2 s' k" "int k \<in> set ids \<longleftrightarrow> tm_status s2 ! k = 0"
        using o k rr by (simp_all add: ready_rel_def is_task_id_def)
      then show ?thesis by (cases "tm_status s ! k = 0") (auto simp: accounted_def angry_result_def unchanged_def waited_def split: if_splits)
    qed
    then show "pr_ok {} s' \<and> keeps s s' \<and> tm_tasks s' = tm_tasks s \<and> (\<forall>k < length (tm_tasks s). accounted s s' k)"
      using rr o keeps_trans [of s s2 s'] by (simp add: ready_rel_def)
  }
  assume b: "\<forall>t \<in> set (tm_tasks s). basic_task t"
  obtain insts1 lock s1 where r: "angry_phase (\<lambda>k. es (2 * k)) s = Some (Inr (insts1, lock, s1))" using ph(2) [OF b] by blast
  obtain ids s2 where o: "order_by_priority (es 0) s1 = Inr (ids, s2)" "pr_ok {} s2" "tm_tasks s2 = tm_tasks s" "to_try (List.enumerate 0 ids) s2"
    using ordered [OF r] by blast
  show "\<exists>insts s'. priority_extract_instances es s = Some (Inr (insts, s'))"
    using ready_loop_returns [of "\<lambda>k. es (2 * k + 1)", OF assms(1) o(2,4), of lock insts1] b o r by (simp add: priority_extract_instances_def)
qed


text \<open>The first angry task has the choice of all free threads.\<close>

lemma first_angry_step:
  assumes "env_ok e" "pr_ok {} s" "is_task_id i s" "tm_status s ! nat i = 3" "plain_task (tm_tasks s ! nat i)"
    and "threads_needed (tm_tasks s ! nat i) \<le> int (card (free (sc_pool s)))" "angry_step e i ([], [], {}, s) = Some (Inr (insts, succ, lock, s'))"
  shows "succ = [i]"
proof -
  have ok: "threads_ok s" "in_cluster s" "0 \<le> t_num_workers (base (tm_tasks s ! nat i))" using assms(2,3) pr_nonneg [of "{}" s i] by (simp_all add: pr_ok_def)
  obtain inst b where inst: "instance_basic_setup (tm_tasks s ! nat i) = Inr inst" "inst_task inst = Basic b" "t_type b = BasicTaskType" "\<not> t_local b"
    "inst_num_workers inst = threads_needed (tm_tasks s ! nat i)" "0 < inst_num_workers inst"
    using setup_plain [OF assms(5) ok(3)] by blast
  let ?P = "all_processes (ci_num_processes (sc_info s))"
  have v: "valid_candidates (ci_num_processes (sc_info s)) ?P" using ok(1) by (simp add: valid_all_processes threads_ok_def base_ok_def)
  obtain r s1 where r: "try_place e i ?P inst s = Some (Inr (r, s1))" "r = None \<longleftrightarrow> \<not> nat (inst_num_workers inst) \<le> card (free (sc_pool s))"
    using try_place_returns [OF ok(1) assms(1) inst(6) v inst(2,3) ok(2), of i] inst(4) free_on_all [OF ok(2)] by auto
  have "r \<noteq> None" using r(2) assms(6) inst(5) by simp
  then show ?thesis
    using assms(3,7) inst r(1) by (auto simp: get_task_by_id_def all_or_preferred_def)
qed

lemma first_angry_runs:
  assumes "\<And>k. env_ok (es k)" "pr_ok {} s" "tm_angry_list s = i # rest" "plain_task (tm_tasks s ! nat i)"
    and "threads_needed (tm_tasks s ! nat i) \<le> int (card (free (sc_pool s)))" "priority_extract_instances es s = Some (Inr (insts, s'))"
  shows "tm_status s' ! nat i = 1"
proof -
  let ?xs = "List.enumerate 1 rest"
  have xs: "List.enumerate 0 (tm_angry_list s) = (0, i) # ?xs" using assms(3) by simp
  have a: "all_angry ((0, i) # ?xs) s" using enumerate_angry [OF assms(2)] xs by simp
  then have i: "is_task_id i s" "tm_status s ! nat i = 3" "i \<notin> set rest" unfolding all_angry_def by auto
  obtain insts1 lock s3 ids s4 where r: "angry_phase (\<lambda>k. es (2 * k)) s = Some (Inr (insts1, lock, s3))" "order_by_priority (es 0) s3 = Inr (ids, s4)"
    "foldO (\<lambda>(k, j). ready_step (es (2 * k + 1)) lock j) (List.enumerate 0 ids) (insts1, s4) = Some (Inr (insts, s'))"
    using assms(6) by (auto simp: priority_extract_instances_def res_simps)
  obtain insts2 succ2 lock2 s2 succ s1 where l: "angry_step (es 0) i ([], [], {}, s) = Some (Inr (insts2, succ2, lock2, s2))"
    "foldO (\<lambda>(k, j). angry_step (es (2 * k)) j) ?xs (insts2, succ2, lock2, s2) = Some (Inr (insts1, succ, lock, s1))" "foldE suc_sched succ s1 = Inr s3"
    using r(1) unfolding angry_phase_def xs by (auto simp: res_simps simp del: angry_step.simps)
  have succ2: "succ2 = [i]" by (rule first_angry_step [OF assms(1,2) i(1,2) assms(4,5) l(1)])
  have st: "same_marks s s2" "pr_ok (set succ2) s2" using angry_step_result(1) [OF assms(2,1) i(1,2) l(1)] succ2 by auto
  have lo: "same_marks s2 s1" "pr_ok (set succ) s1" "distinct succ" "set succ \<subseteq> set succ2 \<union> snd ` set ?xs" "i \<in> set succ"
    using angry_loop [of "\<lambda>k. es (2 * k)", OF assms(1) st(2) all_angry_marks [OF a st(1)] _ _ l(2)] succ2 i(3) by auto
  have ids: "\<forall>j \<in> set succ. is_task_id j s1" using lo(1,4) a succ2 st(1) by (auto simp: all_angry_def same_marks_def is_task_id_def)
  have ok3: "pr_ok {} s3" "tm_tasks s3 = tm_tasks s" "tm_status s3 ! nat i = 1"
    using suc_all [OF lo(2,3) ids] l(3) lo(1,5) st(1) nat_id [OF i(1)] by (auto simp: same_marks_def split: if_splits)
  have o: "pr_ok {} s4" "tm_tasks s4 = tm_tasks s" "tm_status s4 ! nat i = 1" "distinct ids" "set ids = {j. is_task_id j s3 \<and> tm_status s3 ! nat j = 0}"
    "tm_status s4 = tm_status s3" using order_ok [OF assms(1) ok3(1), of 0] r(2) ok3 by auto
  have "to_try (List.enumerate 0 ids) s4" unfolding to_try_def using o(2,4,5,6) ok3(2) by (simp add: is_task_id_def)
  then have "ready_rel (set ids) s4 s'" using ready_loop [of "\<lambda>k. es (2 * k + 1)", OF assms(1) o(1) _ r(3)] by simp
  moreover have "i \<notin> set ids" using o(5) ok3(3) by auto
  ultimately show ?thesis using o(2,3) nat_id [OF i(1)] by (auto simp: ready_rel_def unchanged_def)
qed


subsection \<open>Finishing\<close>

lemma untrack_sync:
  assumes "pr_sync {} s" "\<not> untracked i (sc_track (release_thread i tid s))"
  shows "pr_sync {} (release_thread i tid s)"
proof -
  let ?s = "release_thread i tid s"
  have m: "tm_tasks ?s = tm_tasks s \<and> tm_priority ?s = tm_priority s \<and> tm_status ?s = tm_status s \<and> tm_rejected ?s = tm_rejected s \<and> tm_angry_list ?s = tm_angry_list s"
    using pm_more_unchanged [of ?s s] by simp
  have f: "fst ` sc_track ?s = fst ` sc_track s" using untracked_fst(2) assms(2) by simp
  have "pr_entry {} ?s = pr_entry {} s" by (rule ext) (simp only: pr_entry_def m f)
  then show ?thesis using assms(1) m f by (simp only: pr_sync_def task_ids_def) simp
qed

lemma finish_epoch_sync:
  assumes "pr_sync {} s" "(i, ci_proc_of (sc_info s) tid, tid) \<in> sc_track s" "untracked i (sc_track (release_thread i tid s))"
  shows "\<exists>s'. tm_finish_epoch i (release_thread i tid s) = Inr s' \<and> pr_sync {} s' \<and> map task_shape (tm_tasks s') = map task_shape (tm_tasks s)
     \<and> sc_info s' = sc_info s \<and> sc_pool s' = sc_pool (release_thread i tid s) \<and> sc_track s' = sc_track (release_thread i tid s) \<and> sc_hist s' = sc_hist s"
proof -
  let ?s = "release_thread i tid s" and ?k = "nat i"
  have m: "tm_tasks ?s = tm_tasks s" "tm_priority ?s = tm_priority s" "tm_status ?s = tm_status s" "tm_rejected ?s = tm_rejected s" "tm_angry_list ?s = tm_angry_list s"
    using pm_more_unchanged [of ?s s] by simp_all
  have run: "i \<in> fst ` sc_track s" using assms(2) by force
  then have t: "is_task_id i s" using assms(1) by (auto simp only: pr_sync_def simp flip: task_ids_iff)
  note n = nat_id [OF t] and e = pr_entryD [OF assms(1) t]
  have l: "length (tm_status s) = length (tm_tasks s)" using assms(1) by (simp add: pr_sync_def)
  have f: "fst ` sc_track ?s = fst ` sc_track s - {i}" using untracked_fst(1) assms(3) by simp
  let ?t = "inc_epoch (tm_tasks s ! ?k)"
  let ?st = "if t_current_epoch (base ?t) = t_total_epoch (base ?t) then 2 else 0 :: int"
  let ?s2 = "?s\<lparr>tm_tasks := (tm_tasks s)[?k := ?t], tm_status := (tm_status s)[?k := ?st]\<rparr>"
  have "is_task_id i ?s" using t m(1) by (simp add: is_task_id_def)
  then have fin: "tm_finish_epoch i ?s = Inr ?s2" using n l m by (simp add: tm_finish_epoch_def Let_def vec_set_def)
  have "pr_entry {} ?s2 k" if k: "k < length (tm_tasks s)" for k
  proof (cases "k = ?k")
    case True
    have "tm_status s ! ?k = 1" using e run n by (simp add: pr_entry_def Let_def)
    then have "t_current_epoch (base (tm_tasks s ! ?k)) < t_total_epoch (base (tm_tasks s ! ?k))" using e by (auto simp: pr_entry_def Let_def)
    then show ?thesis using True e n l f m \<open>tm_status s ! ?k = 1\<close> by (simp add: pr_entry_def Let_def inc_epoch_def)
  next
    case False
    then have "int k \<noteq> i" using n by auto
    moreover have "pr_entry {} s k" using assms(1) k by (simp add: pr_sync_def)
    ultimately show ?thesis using False f m by (subst pr_entry_cong [where s = s and S = "{}"]) simp_all
  qed
  then have "pr_sync {} ?s2" using assms(1) m f by (auto simp: pr_sync_def task_ids_def)
  moreover have "map task_shape ((tm_tasks s)[?k := ?t]) = map task_shape (tm_tasks s)" using n by (simp add: map_update list_update_same_conv)
  ultimately show ?thesis using fin by simp
qed

definition priority_inv :: "Task list \<Rightarrow> TaskManager \<Rightarrow> bool" where
  "priority_inv shapes s \<longleftrightarrow> pr_ok {} s \<and> map task_shape (tm_tasks s) = shapes"

lemma priority_finish:
  assumes "priority_inv shapes s" "(i, ci_proc_of (sc_info s) tid, tid) \<in> sc_track s"
  shows "\<exists>s'. priority_finish_thread i tid s = Inr s' \<and> keeps s s' \<and> priority_inv shapes s'"
proof -
  let ?s = "release_thread i tid s"
  have ok: "pr_sync {} s" "threads_ok s" "in_cluster s" using assms(1) by (simp_all add: priority_inv_def pr_ok_def)
  note k = release_thread_ok [OF ok(2) assms(2)]
  show ?thesis
  proof (cases "untracked i (sc_track ?s)")
    case False
    have "tm_tasks ?s = tm_tasks s" using pm_more_unchanged [of ?s s] by simp
    then show ?thesis using False untrack_sync [OF ok(1) False] k in_cluster_keeps [OF k ok(3)] assms(1)
      by (simp add: priority_finish_thread_def priority_inv_def pr_ok_def keeps_def)
  next
    case True
    then obtain s' where s': "tm_finish_epoch i ?s = Inr s'" "pr_sync {} s'" "map task_shape (tm_tasks s') = map task_shape (tm_tasks s)"
      "sc_info s' = sc_info s" "sc_pool s' = sc_pool ?s" "sc_track s' = sc_track ?s" "sc_hist s' = sc_hist s"
      using finish_epoch_sync [OF ok(1) assms(2)] by blast
    have "keeps s s'" using k s' by (simp add: keeps_def threads_ok_def threads_of_def base_ok_def)
    then show ?thesis using True s' in_cluster_keeps [of s s'] ok(3) assms(1) by (simp add: priority_finish_thread_def priority_inv_def pr_ok_def keeps_def)
  qed
qed

interpretation priority: scheduler priority_extract_instances priority_finish_thread "priority_inv shapes" for shapes
proof unfold_locales
  fix es s insts s' assume "\<And>k. env_ok (es k)" "priority_inv shapes s" "threads_ok s" "priority_extract_instances es s = Some (Inr (insts, s'))"
  then show "keeps s s' \<and> priority_inv shapes s'" using priority_extract_result(1) [of es s insts s'] by (simp add: priority_inv_def)
next
  fix s i tid s' assume "priority_inv shapes s" "threads_ok s" "(i, ci_proc_of (sc_info s) tid, tid) \<in> sc_track s" "priority_finish_thread i tid s = Inr s'"
  then show "keeps s s' \<and> priority_inv shapes s'" using priority_finish [of shapes s i tid] by auto
qed

section \<open>Properties\<close>

text \<open>The comment in \<^verbatim>\<open>add_tasks\<close>: tasks are indexed by their ids.\<close>

definition indexed_tasks :: "Task list \<Rightarrow> bool" where
  "indexed_tasks ts \<longleftrightarrow> map (\<lambda>t. t_id (base t)) ts = map int [0..<length ts] \<and> list_all new_task ts"

definition priority_start :: "ClusterInfo \<Rightarrow> HistoryManager \<Rightarrow> Task list \<Rightarrow> TaskManager" where
  "priority_start ci hm tasks = add_tasks tasks (mk_PriorityTaskScheduler ci hm)"

lemma priority_started:
  assumes "cluster_ok ci" "started_history ci hm" "indexed_tasks tasks"
  shows "priority_inv (map task_shape tasks) (priority_start ci hm tasks)" "threads_ok (priority_start ci hm tasks)"
    "threads_of (priority_start ci hm tasks) = cluster_threads ci"
proof -
  let ?s = "priority_start ci hm tasks"
  have s: "?s = \<lparr>sc_info = ci, sc_pool = init_pool ci, sc_track = {}, sc_hist = hm, tm_tasks = tasks, tm_priority = map (\<lambda>t. (t_id (base t), 0)) tasks,
      tm_status = replicate (length tasks) 0, tm_rejected = replicate (length tasks) 0, tm_angry_list = []\<rparr>"
    by (simp add: priority_start_def add_tasks_def mk_PriorityTaskScheduler_def resize_def)
  show th: "threads_of ?s = cluster_threads ci" using s init_pool_ok(2) [of ci] by (simp add: threads_of_def all_threads_def placed_def cluster_threads_def)
  show ok: "threads_ok ?s" using s init_pool_ok(1) [of ci] assms(1,2) by (simp add: threads_ok_def base_ok_def cluster_ok_def started_history_def)
  have cl: "in_cluster ?s" using th s assms(1) by (auto simp: in_cluster_def cluster_threads_def cluster_ok_def)
  have ids: "map fst (tm_priority ?s) = map int [0..<length tasks]" using s assms(3) by (simp add: indexed_tasks_def comp_def)
  have d: "distinct (map fst (tm_priority ?s))" unfolding ids by (simp add: distinct_map)
  have set_ids: "fst ` set (tm_priority ?s) = task_ids ?s"
  proof -
    have "fst ` set (tm_priority ?s) = int ` {0..<length tasks}" using arg_cong [OF ids, of set] by simp
    also have "\<dots> = task_ids ?s" using s by (simp add: task_ids_def image_int_atLeastLessThan)
    finally show ?thesis .
  qed
  have "pr_entry {} ?s k" if k: "k < length tasks" for k
  proof -
    have id: "t_id (base (tasks ! k)) = int k" using arg_cong [where f = "\<lambda>xs. xs ! k", OF assms(3) [unfolded indexed_tasks_def, THEN conjunct1]] k by simp
    have "(int k, 0) \<in> set (tm_priority ?s)" using s id [symmetric] nth_mem [OF k] by auto
    then have "map_of (tm_priority ?s) (int k) = Some 0" using d by simp
    then show ?thesis using s k id assms(3) by (auto simp: pr_entry_def indexed_tasks_def list_all_length new_task_def angry_threshold_def)
  qed
  then have "pr_sync {} ?s" using s d set_ids by (simp add: pr_sync_def)
  then show "priority_inv (map task_shape tasks) ?s" using ok cl s by (simp add: priority_inv_def pr_ok_def)
qed

text \<open>
  C25. Every state that the priority scheduler reaches: threads are conserved and never shared; for every task its status, priority,
  rejection counter, place in the angry list, epochs and threads agree: the priority is the number of rejections since the last start, it never exceeds the
  threshold, and the task is in the angry list exactly if it has reached it.
  Scope: a cluster with at least one thread and one process, and new tasks with the ids 0, 1, 2, ...; calls that return.
\<close>

theorem priority_invariant:
  assumes "cluster_ok ci" "started_history ci hm" "indexed_tasks tasks"
    and "sched_run priority_extract_instances priority_finish_thread (priority_start ci hm tasks) s"
  shows "inj_on snd (sc_track s) \<and> free (sc_pool s) \<inter> snd ` sc_track s = {} \<and> free (sc_pool s) \<union> snd ` sc_track s = cluster_threads ci
     \<and> list_all (pr_entry {} s) [0..<length tasks] \<and> distinct (tm_angry_list s)"
proof -
  note s0 = priority_started [OF assms(1-3)]
  note r = priority.run_threads [OF assms(4) s0(1,2)] and k = priority.run_keeps [OF assms(4) s0(1,2)]
  have "length (tm_tasks s) = length tasks" using k by (metis priority_inv_def length_map)
  then show ?thesis using r k s0(3) by (auto simp: priority_inv_def pr_ok_def pr_sync_def list_all_iff threads_of_def all_threads_def placed_def)
qed

text \<open>
  C26. The priority scheduler does not starve a task. In every reachable state, for basic tasks, \<^verbatim>\<open>extract_instances\<close> returns, and accounts for every
  task: a ready task is started, or rejected once more, and it becomes angry with the fifth rejection in a row; an angry task is started or stays angry;
  other tasks are untouched. The first task of the angry list is started whenever the cluster has enough free threads for it.
  Scope: a cluster with at least one thread and one process, and new tasks with the ids 0, 1, 2, ..., of the basic type and not local.
\<close>

theorem priority_no_starvation:
  assumes "cluster_ok ci" "started_history ci hm" "indexed_tasks tasks" "list_all plain_task tasks"
    and "sched_run priority_extract_instances priority_finish_thread (priority_start ci hm tasks) s" "\<And>k. env_ok (es k)"
  shows "\<exists>insts s'. priority_extract_instances es s = Some (Inr (insts, s')) \<and> list_all (accounted s s') [0..<length tasks]
     \<and> (case tm_angry_list s of [] \<Rightarrow> True
        | i # is \<Rightarrow> threads_needed (tm_tasks s ! nat i) \<le> int (card (free (sc_pool s))) \<longrightarrow> tm_status s' ! nat i = 1)"
proof -
  note s0 = priority_started [OF assms(1-3)]
  have k: "pr_ok {} s" "map task_shape (tm_tasks s) = map task_shape tasks"
    using priority.run_keeps [OF assms(5) s0(1,2)] by (simp_all add: priority_inv_def)
  have l: "length (tm_tasks s) = length tasks" using k(2) by (metis length_map)
  have plain: "plain_task t" if "t \<in> set (tm_tasks s)" for t using plain_shape [OF assms(4) k(2) that] .
  have "\<forall>t \<in> set (tm_tasks s). basic_task t" using plain by (auto simp: plain_task_def basic_task_def)
  then obtain insts s' where r: "priority_extract_instances es s = Some (Inr (insts, s'))"
    using priority_extract_result(2) [of es s] assms(6) k(1) by blast
  have acc: "list_all (accounted s s') [0..<length tasks]" using priority_extract_result(1) [of es s insts s'] assms(6) k(1) r l by (simp add: list_all_iff)
  have "tm_status s' ! nat i = 1" if "tm_angry_list s = i # is" "threads_needed (tm_tasks s ! nat i) \<le> int (card (free (sc_pool s)))" for i "is"
  proof -
    have "is_task_id i s" using k(1) that(1) by (auto simp: pr_ok_def pr_sync_def simp flip: task_ids_iff)
    then have "plain_task (tm_tasks s ! nat i)" using plain nat_id by simp
    then show ?thesis using first_angry_runs [of es s i "is"] assms(6) k(1) that r by blast
  qed
  then show ?thesis using r acc by (auto split: list.splits)
qed


section \<open>Examples\<close>

lemma example_indexed: "indexed_tasks example_tasks" "list_all plain_task example_tasks"
  by (simp_all add: indexed_tasks_def example_tasks_def new_task_def plain_task_def mk_Task_def mk_base_def)

lemma example_priority_extract:
  "\<exists>insts s. priority_extract_instances (\<lambda>_. sorted_env) (priority_start example_cluster example_history example_tasks) = Some (Inr (insts, s))"
proof -
  let ?s = "priority_start example_cluster example_history example_tasks"
  have ok: "pr_ok {} ?s" using priority_started(1) [OF example_cluster_ok(1,2) example_indexed(1)] by (simp add: priority_inv_def)
  have "tm_tasks ?s = example_tasks" by (simp add: priority_start_def add_tasks_def mk_PriorityTaskScheduler_def)
  then have "\<forall>t \<in> set (tm_tasks ?s). basic_task t" using example_indexed(2) by (auto simp: list_all_iff plain_task_def basic_task_def)
  then show ?thesis using priority_extract_result(2) [of "\<lambda>_. sorted_env" ?s] sorted_env_ok ok by blast
qed

theorem priority_invariant_witness:
  "\<exists>insts s. priority_extract_instances (\<lambda>_. sorted_env) (priority_start example_cluster example_history example_tasks) = Some (Inr (insts, s))
     \<and> inj_on snd (sc_track s) \<and> free (sc_pool s) \<union> snd ` sc_track s = {(0, 0), (1, 1), (2, 2)} \<and> list_all (pr_entry {} s) [0, 1]"
proof -
  let ?s = "priority_start example_cluster example_history example_tasks"
  obtain insts s where s: "priority_extract_instances (\<lambda>_. sorted_env) ?s = Some (Inr (insts, s))" using example_priority_extract by blast
  have "sched_run priority_extract_instances priority_finish_thread ?s s"
    by (rule sched_run.extracted [where es = "\<lambda>_. sorted_env" and s = ?s and insts = insts]) (simp_all add: sched_run.start sorted_env_ok s)
  moreover have "[0..<length example_tasks] = [0, 1]" by (simp add: example_tasks_def)
  ultimately show ?thesis using priority_invariant [OF example_cluster_ok(1,2) example_indexed(1)] s unfolding example_cluster_ok(3) by metis
qed

theorem priority_no_starvation_witness:
  "\<exists>insts s. priority_extract_instances (\<lambda>_. sorted_env) (priority_start example_cluster example_history example_tasks) = Some (Inr (insts, s))
     \<and> list_all (accounted (priority_start example_cluster example_history example_tasks) s) [0, 1]"
proof -
  have "[0..<length example_tasks] = [0, 1]" by (simp add: example_tasks_def)
  then show ?thesis
    using priority_no_starvation [OF example_cluster_ok(1,2) example_indexed sched_run.start, of "\<lambda>_. sorted_env"] sorted_env_ok by auto
qed

end
