(* ===== verification/Auto_Parallelism.thy ===== *)
theory Auto_Parallelism
  imports Schedulers
begin

text \<open>
  The auto-parallelism scheduler and its policies: \<^verbatim>\<open>cluster_manager/task_scheduler/auto_parallelism_task_scheduler.hpp\<close> and \<^verbatim>\<open>.cpp\<close>.

  A stage of an auto-parallelism task is run in sub-epochs of \<^verbatim>\<open>try_iters\<close> iterations; after each the policy may change the number of
  threads per process, until it fixes it and runs the rest of the stage. The readings of \<^verbatim>\<open>steady_clock\<close>, in nanoseconds, are a stream in the
  state. \<^verbatim>\<open>std::map\<close> is an association list ordered by key.
\<close>

section \<open>Model\<close>

subsection \<open>The policy\<close>

record Policy =
  po_current :: int                 \<comment> \<open>\<^verbatim>\<open>current_worker_per_process\<close>\<close>
  po_max :: int
  po_min :: int
  po_times :: "int list"
  po_history :: "int list"          \<comment> \<open>\<^verbatim>\<open>worker_per_process_history\<close>\<close>
  po_start_time :: int
  po_try_iters :: int
  po_current_iters :: int
  po_num_total_iters :: int
  po_sub_epoch :: int
  po_fixed :: bool
  po_best :: "(int \<times> int) list"    \<comment> \<open>\<^verbatim>\<open>batchsize_to_best_parallelism_history\<close>\<close>
  po_batchsize :: int

fun map_insert :: "int \<Rightarrow> int \<Rightarrow> (int \<times> int) list \<Rightarrow> (int \<times> int) list" where
  "map_insert k v [] = [(k, v)]"
| "map_insert k v ((i, x) # r) = (if k < i then (k, v) # (i, x) # r else if k = i then (i, x) # r else (i, x) # map_insert k v r)"

definition fix_parallelism :: "int \<Rightarrow> Policy \<Rightarrow> error + Policy" where
  "fix_parallelism best p =
     (let p = (if po_batchsize p > 0 then p\<lparr>po_best := map_insert (po_batchsize p) best (po_best p)\<rparr> else p);
          p = p\<lparr>po_current := best, po_try_iters := po_num_total_iters p - po_current_iters p\<rparr>
      in bindE (assertE (length (po_times p) = length (po_history p))) (\<lambda>_. Inr (p\<lparr>po_fixed := True\<rparr>)))"

definition po_start_stage :: "int \<Rightarrow> int \<Rightarrow> Policy \<Rightarrow> error + Policy" where
  "po_start_stage total_iters batchsize p =
     (let p = p\<lparr>po_num_total_iters := total_iters, po_batchsize := batchsize\<rparr> in
      case map_of (po_best p) batchsize of
        Some best \<Rightarrow> if batchsize > 0 then fix_parallelism best p else Inr p
      | None \<Rightarrow> Inr p)"

definition start_subepoch :: "int \<Rightarrow> Policy \<Rightarrow> Policy" where
  "start_subepoch now p = p\<lparr>po_start_time := now\<rparr>"

definition finish_subepoch :: "int \<Rightarrow> Policy \<Rightarrow> bool \<times> Policy" where
  "finish_subepoch now p =
     (let p = p\<lparr>po_times := po_times p @ [c_div (now - po_start_time p) 1000000], po_history := po_history p @ [po_current p],
                po_sub_epoch := po_sub_epoch p + 1, po_current_iters := po_current_iters p + po_try_iters p\<rparr>
      in (po_current_iters p = po_num_total_iters p, p))"

text \<open>\<^verbatim>\<open>sub_reset\<close> is the same for both policies.\<close>

definition sub_reset :: "Policy \<Rightarrow> Policy" where
  "sub_reset p = p\<lparr>po_current := 0, po_max := 10, po_min := 1, po_try_iters := 10\<rparr>"

definition reset_stage :: "Policy \<Rightarrow> Policy" where
  "reset_stage p = sub_reset (p\<lparr>po_current_iters := 0, po_sub_epoch := 0, po_times := [], po_history := [], po_fixed := False\<rparr>)"

text \<open>The loop that prunes the search space by the neighbours in the history, and one more thread per process up to the maximum.\<close>

fun prune :: "int \<Rightarrow> (int \<times> int) list \<Rightarrow> int \<Rightarrow> int \<Rightarrow> int \<times> int" where
  "prune bs [] mn mx = (mn, mx)"
| "prune bs ((k, v) # r) mn mx = (if k < bs then prune bs r v mx else (mn, v))"

definition increase :: "Policy \<Rightarrow> Policy" where
  "increase p = p\<lparr>po_current := (if po_current p + 1 > po_max p then po_max p else po_current p + 1)\<rparr>"

definition compare_times :: "Policy \<Rightarrow> error + Policy" where
  "compare_times p =
     bindE (assertE (as_size (po_sub_epoch p) = length (po_times p))) (\<lambda>_.
     if po_sub_epoch p > 1 \<and> po_times p ! nat (po_sub_epoch p - 1) > po_times p ! nat (po_sub_epoch p - 2)
     then bindE (vec_get (po_history p) (nat (po_sub_epoch p - 2))) (\<lambda>best. fix_parallelism best p)
     else Inr (increase p))"

text \<open>\<^verbatim>\<open>IncreaseBestPolicy::sub_generate_plan\<close>, the policy that the scheduler uses.\<close>

definition sub_generate_plan :: "Policy \<Rightarrow> error + Policy" where
  "sub_generate_plan p =
     (if po_current p = 0 then
        (case map_of (po_best p) (po_batchsize p) of
           Some best \<Rightarrow> fix_parallelism best p
         | None \<Rightarrow>
             if po_best p \<noteq> [] then
               (let (mn, mx) = prune (po_batchsize p) (po_best p) (po_min p) (po_max p); p = p\<lparr>po_min := mn, po_max := mx\<rparr> in
                bindE (assertE (mn \<le> mx)) (\<lambda>_.
                if mn = mx then fix_parallelism mn p else compare_times (p\<lparr>po_current := mn - 1\<rparr>)))
             else compare_times p)
      else compare_times p)"

text \<open>\<^verbatim>\<open>IncreaseBestAmongSomeTriesPolicy::sub_generate_plan\<close>: after five tries the best of them; the first of equal times.\<close>

fun fastest :: "nat \<Rightarrow> nat \<Rightarrow> int \<Rightarrow> int list \<Rightarrow> nat" where
  "fastest i min_i min_time [] = min_i"
| "fastest i min_i min_time (t # ts) = (if t < min_time then fastest (i + 1) i t ts else fastest (i + 1) min_i min_time ts)"

definition sub_generate_plan_tries :: "Policy \<Rightarrow> error + Policy" where
  "sub_generate_plan_tries p =
     (if po_sub_epoch p = 5 then
        bindE (vec_get (po_times p) 0) (\<lambda>t.
        let min_i = fastest 1 0 t (tl (po_times p)) in
        bindE (assertE (length (po_history p) > min_i)) (\<lambda>_. fix_parallelism (po_history p ! min_i) p))
      else Inr (increase p))"

definition generate_plan :: "Policy \<Rightarrow> error + Policy" where
  "generate_plan p = (if \<not> po_fixed p then sub_generate_plan p else Inr p)"

subsection \<open>The scheduler\<close>

record AutoParallelismTaskScheduler = Sched +
  ap_tasks_queue :: "Task list"
  ap_policy :: Policy
  ap_clock :: "nat \<Rightarrow> int"         \<comment> \<open>the readings to come\<close>

definition mk_AutoParallelismTaskScheduler :: "ClusterInfo \<Rightarrow> HistoryManager \<Rightarrow> Policy \<Rightarrow> (nat \<Rightarrow> int) \<Rightarrow> AutoParallelismTaskScheduler" where
  "mk_AutoParallelismTaskScheduler ci hm policy clock = \<lparr>sc_info = ci, sc_pool = init_pool ci, sc_track = {}, sc_hist = hm,
     ap_tasks_queue = [], ap_policy = reset_stage (policy\<lparr>po_best := []\<rparr>), ap_clock = clock\<rparr>"

definition read_clock :: "AutoParallelismTaskScheduler \<Rightarrow> int \<times> AutoParallelismTaskScheduler" where
  "read_clock s = (ap_clock s 0, s\<lparr>ap_clock := (\<lambda>k. ap_clock s (Suc k))\<rparr>)"

definition start_stage :: "Task \<Rightarrow> int \<Rightarrow> AutoParallelismTaskScheduler \<Rightarrow> error + AutoParallelismTaskScheduler" where
  "start_stage task epoch s =
     (case task of
        AutoParallelism b iters n sizes \<Rightarrow>
          (if sizes = [] then
             bindE (assertE (length iters > as_size epoch)) (\<lambda>_.
             bindE (po_start_stage (iters ! as_size epoch) 0 (ap_policy s)) (\<lambda>p. Inr (s\<lparr>ap_policy := p\<rparr>)))
           else
             bindE (assertE (length iters = length sizes)) (\<lambda>_.
             bindE (assertE (length iters > as_size epoch)) (\<lambda>_.
             bindE (po_start_stage (iters ! as_size epoch) (sizes ! as_size epoch) (ap_policy s)) (\<lambda>p. Inr (s\<lparr>ap_policy := p\<rparr>)))))
      | _ \<Rightarrow> Inl UndefinedBehaviour)"

definition start_if_auto :: "AutoParallelismTaskScheduler \<Rightarrow> error + AutoParallelismTaskScheduler" where
  "start_if_auto s =
     (case ap_tasks_queue s of
        [] \<Rightarrow> Inr s
      | task # tasks \<Rightarrow> if t_type (base task) = AutoParallelismTaskType then start_stage task 0 s else Inr s)"

definition auto_init_tasks :: "Task list \<Rightarrow> AutoParallelismTaskScheduler \<Rightarrow> error + AutoParallelismTaskScheduler" where
  "auto_init_tasks tasks s =
     (let s = s\<lparr>ap_tasks_queue := ap_tasks_queue s @ tasks\<rparr> in
      if ap_tasks_queue s = [] then Inl UndefinedBehaviour else start_if_auto s)"

text \<open>The end of an epoch for the first task; \<open>auto\<close> says whether it is an auto-parallelism task, which starts its next stage.\<close>

definition finish_epoch :: "bool \<Rightarrow> Task \<Rightarrow> Task list \<Rightarrow> AutoParallelismTaskScheduler \<Rightarrow> error + AutoParallelismTaskScheduler" where
  "finish_epoch auto task tasks s =
     (let task = inc_epoch task in
      if t_current_epoch (base task) = t_total_epoch (base task) then start_if_auto (s\<lparr>ap_tasks_queue := tasks\<rparr>)
      else let s = s\<lparr>ap_tasks_queue := task # tasks\<rparr> in if auto then start_stage task (t_current_epoch (base task)) s else Inr s)"

definition auto_finish_thread :: "int \<Rightarrow> int \<Rightarrow> AutoParallelismTaskScheduler \<Rightarrow> error + AutoParallelismTaskScheduler" where
  "auto_finish_thread instance_id tid s =
     (let s = release_thread instance_id tid s in
      if untracked instance_id (sc_track s) then
        (case ap_tasks_queue s of
           [] \<Rightarrow> Inl UndefinedBehaviour
         | task # tasks \<Rightarrow>
             if t_type (base task) = AutoParallelismTaskType then
               (let (now, s) = read_clock s; (finish, p) = finish_subepoch now (ap_policy s) in
                if finish then finish_epoch True task tasks (s\<lparr>ap_policy := reset_stage p\<rparr>) else Inr (s\<lparr>ap_policy := p\<rparr>))
             else finish_epoch False task tasks s)
      else Inr s)"

definition task_to_instance_auto_parallelism :: "env \<Rightarrow> Task \<Rightarrow> AutoParallelismTaskScheduler \<Rightarrow> error + (Instance \<times> AutoParallelismTaskScheduler)" where
  "task_to_instance_auto_parallelism e task s =
     bindE (generate_plan (ap_policy s)) (\<lambda>p.
     let s = s\<lparr>ap_policy := p\<rparr> in
     bindE (new_Instance task) (\<lambda>inst.
     let inst = inst_set_num_workers (po_current p * ci_num_processes (sc_info s)) inst;
         (sel, aw) = get_workers_per_process e (po_current p) (ci_num_processes (sc_info s)) (sc_pool s);
         s = s\<lparr>sc_pool := aw\<rparr> in
     bindE (assertE (sel \<noteq> [])) (\<lambda>_.
     bindE (commit (inst_id inst) sel inst s) (\<lambda>(inst, s).
     bindE (set_current_stage_iters (po_try_iters p) (inst_task inst)) (\<lambda>t.
     let (now, s) = read_clock s in
     Inr (inst\<lparr>inst_task := t\<rparr>, s\<lparr>ap_policy := start_subepoch now p\<rparr>))))))"

definition auto_task_to_instance :: "env \<Rightarrow> Task \<Rightarrow> AutoParallelismTaskScheduler \<Rightarrow> (error + (Instance \<times> AutoParallelismTaskScheduler)) option" where
  [simp]: "auto_task_to_instance = task_to_instance ''[AutoParallelism Task Scheduler] Cannot assign next instance''"

definition auto_extract_instances :: "(nat \<Rightarrow> env) \<Rightarrow> AutoParallelismTaskScheduler \<Rightarrow> (error + (Instance list \<times> AutoParallelismTaskScheduler)) option" where
  "auto_extract_instances es s =
     (if ap_tasks_queue s = [] \<or> sc_track s \<noteq> {} then Some (Inr ([], s))
      else let task = hd (ap_tasks_queue s) in
        bindO (if t_type (base task) = AutoParallelismTaskType then Some (task_to_instance_auto_parallelism (es 0) task s)
               else auto_task_to_instance (es 0) task s) (\<lambda>(inst, s).
        Some (Inr ([inst], s))))"

definition auto_is_finished :: "AutoParallelismTaskScheduler \<Rightarrow> bool" where
  "auto_is_finished s \<longleftrightarrow> ap_tasks_queue s = []"

section \<open>The history of best parallelism\<close>

definition best_ok :: "(int \<times> int) list \<Rightarrow> bool" where
  "best_ok ps \<longleftrightarrow> sorted_wrt (\<lambda>x y. fst x < fst y \<and> snd x \<le> snd y) ps \<and> snd ` set ps \<subseteq> {1..10}"

lemma set_map_insert: "set (map_insert k v ps) \<subseteq> insert (k, v) (set ps)"
  by (induction k v ps rule: map_insert.induct) auto

lemma map_insert_present: "sorted_wrt (\<lambda>x y. fst x < fst y \<and> snd x \<le> snd y) ps \<Longrightarrow> (k, w) \<in> set ps \<Longrightarrow> map_insert k v ps = ps"
  by (induction k v ps rule: map_insert.induct) auto

lemma prune_ok:
  assumes "sorted_wrt (\<lambda>x y. fst x < fst y \<and> snd x \<le> snd y) ps" "\<forall>x \<in> set ps. mn \<le> snd x \<and> snd x \<le> mx" "mn \<le> mx" "map_of ps bs = None"
    and "prune bs ps mn mx = (a, b)"
  shows "mn \<le> a \<and> a \<le> b \<and> b \<le> mx \<and> (\<forall>v \<in> {a..b}. sorted_wrt (\<lambda>x y. fst x < fst y \<and> snd x \<le> snd y) (map_insert bs v ps))"
  using assms
proof (induction ps arbitrary: mn)
  case (Cons x ps)
  obtain k v0 where x: "x = (k, v0)" by fastforce
  show ?case
  proof (cases "k < bs")
    case True
    have IH: "v0 \<le> a \<and> a \<le> b \<and> b \<le> mx \<and> (\<forall>v \<in> {a..b}. sorted_wrt (\<lambda>x y. fst x < fst y \<and> snd x \<le> snd y) (map_insert bs v ps))"
      by (rule Cons.IH) (use Cons.prems x True in auto)
    have above: "\<forall>y \<in> set (map_insert bs v ps). fst x < fst y \<and> snd x \<le> snd y" if "a \<le> v" for v
      using set_map_insert [of bs v ps] Cons.prems(1) x True that IH by fastforce
    have "sorted_wrt (\<lambda>x y. fst x < fst y \<and> snd x \<le> snd y) (map_insert bs v (x # ps))" if "v \<in> {a..b}" for v
      using IH x True that above [of v] by simp
    then show ?thesis using IH Cons.prems(2) x by auto
  next
    case False
    then have "bs < k" using Cons.prems(4) x by (cases "bs = k") auto
    then show ?thesis using Cons.prems x by auto
  qed
qed auto


lemma best_ok_prune:
  assumes "best_ok ps" "map_of ps bs = None" "prune bs ps 1 10 = (a, b)"
  shows "1 \<le> a \<and> a \<le> b \<and> b \<le> 10 \<and> (\<forall>v \<in> {a..b}. best_ok (map_insert bs v ps))"
proof -
  have p: "1 \<le> a \<and> a \<le> b \<and> b \<le> 10 \<and> (\<forall>v \<in> {a..b}. sorted_wrt (\<lambda>x y. fst x < fst y \<and> snd x \<le> snd y) (map_insert bs v ps))"
    by (rule prune_ok [of ps 1 10 bs a b]) (use assms in \<open>auto simp: best_ok_def\<close>)
  moreover have "snd ` set (map_insert bs v ps) \<subseteq> {1..10}" if "v \<in> {a..b}" for v
    using set_map_insert [of bs v ps] that p assms(1) by (fastforce simp: best_ok_def)
  ultimately show ?thesis by (auto simp: best_ok_def)
qed

section \<open>A stage\<close>

text \<open>The invariant of the policy between sub-epochs, and after a plan has been made.\<close>

definition insertable :: "Policy \<Rightarrow> bool" where
  "insertable p \<longleftrightarrow> (po_batchsize p > 0 \<longrightarrow> (\<forall>v \<in> {po_min p..po_max p}. best_ok (map_insert (po_batchsize p) v (po_best p))))"

definition stage_ok :: "Policy \<Rightarrow> bool" where
  "stage_ok p \<longleftrightarrow> best_ok (po_best p) \<and> length (po_history p) = length (po_times p) \<and> po_sub_epoch p = int (length (po_times p))
     \<and> 1 \<le> po_min p \<and> po_min p \<le> po_max p \<and> po_max p \<le> 10 \<and> set (po_history p) \<subseteq> {po_min p..po_max p}"

definition planned :: "Policy \<Rightarrow> bool" where
  "planned p \<longleftrightarrow> stage_ok p \<and> po_min p \<le> po_current p \<and> po_current p \<le> po_max p
     \<and> (if po_fixed p then po_try_iters p = po_num_total_iters p - po_current_iters p else po_try_iters p = 10 \<and> insertable p)"

definition fresh :: "Policy \<Rightarrow> bool" where
  "fresh p \<longleftrightarrow> stage_ok p \<and> \<not> po_fixed p \<and> po_try_iters p = 10 \<and> po_current p = 0 \<and> po_min p = 1 \<and> po_max p = 10 \<and> po_history p = []"

text \<open>What a plan leaves as it is.\<close>

definition same_run :: "Policy \<Rightarrow> Policy \<Rightarrow> bool" where
  "same_run p p' \<longleftrightarrow> po_times p' = po_times p \<and> po_history p' = po_history p \<and> po_sub_epoch p' = po_sub_epoch p \<and> po_current_iters p' = po_current_iters p
     \<and> po_num_total_iters p' = po_num_total_iters p \<and> po_batchsize p' = po_batchsize p"

lemma fix_planned:
  assumes "stage_ok p" "best \<in> {po_min p..po_max p}" "po_batchsize p > 0 \<longrightarrow> best_ok (map_insert (po_batchsize p) best (po_best p))"
  shows "\<exists>p'. fix_parallelism best p = Inr p' \<and> planned p' \<and> same_run p p'"
  using assms by (auto simp: fix_parallelism_def stage_ok_def planned_def same_run_def Let_def)

lemma compare_planned:
  assumes "stage_ok p" "insertable p" "\<not> po_fixed p" "po_try_iters p = 10" "po_min p - 1 \<le> po_current p" "po_current p \<le> po_max p"
  shows "\<exists>p'. compare_times p = Inr p' \<and> planned p' \<and> same_run p p'"
proof (cases "po_sub_epoch p > 1 \<and> po_times p ! nat (po_sub_epoch p - 1) > po_times p ! nat (po_sub_epoch p - 2)")
  case True
  have l: "nat (po_sub_epoch p - 2) < length (po_history p)" "as_size (po_sub_epoch p) = length (po_times p)"
    using assms(1) True by (auto simp: stage_ok_def as_size_def)
  then have h: "po_history p ! nat (po_sub_epoch p - 2) \<in> {po_min p..po_max p}" using nth_mem [OF l(1)] assms(1) unfolding stage_ok_def by blast
  obtain p' where "fix_parallelism (po_history p ! nat (po_sub_epoch p - 2)) p = Inr p'" "planned p'" "same_run p p'"
    using fix_planned [OF assms(1) h] h assms(2) by (auto simp: insertable_def)
  then show ?thesis using True l by (simp add: compare_times_def vec_get_def)
next
  case False
  have "as_size (po_sub_epoch p) = length (po_times p)" using assms(1) by (simp add: stage_ok_def as_size_def)
  then show ?thesis using False assms by (auto simp: compare_times_def increase_def planned_def stage_ok_def insertable_def same_run_def)
qed

lemma generate_planned:
  assumes "fresh p \<or> planned p"
  shows "\<exists>p'. generate_plan p = Inr p' \<and> planned p' \<and> same_run p p'"
proof (cases "po_fixed p")
  case True
  then show ?thesis using assms by (auto simp: generate_plan_def fresh_def same_run_def)
next
  case unfixed: False
  show ?thesis
  proof (cases "fresh p")
    case True
    then have ok: "stage_ok p" "po_current p = 0" "po_min p = 1" "po_max p = 10" "po_try_iters p = 10" "best_ok (po_best p)" "po_history p = []"
      by (auto simp: fresh_def stage_ok_def)
    consider (hit) best where "map_of (po_best p) (po_batchsize p) = Some best" | (prune) "map_of (po_best p) (po_batchsize p) = None" "po_best p \<noteq> []"
      | (none) "map_of (po_best p) (po_batchsize p) = None" "po_best p = []" by fastforce
    then show ?thesis
    proof cases
      case hit
      then have b: "(po_batchsize p, best) \<in> set (po_best p)" by (rule map_of_SomeD)
      then have "best \<in> {po_min p..po_max p}" using ok by (auto simp: best_ok_def)
      moreover have "map_insert (po_batchsize p) best (po_best p) = po_best p" using map_insert_present b ok(6) by (simp add: best_ok_def)
      ultimately show ?thesis using fix_planned [OF ok(1), of best] unfixed hit ok by (simp add: generate_plan_def sub_generate_plan_def)
    next
      case prune
      obtain a b where ab: "prune (po_batchsize p) (po_best p) 1 10 = (a, b)" by fastforce
      note r = best_ok_prune [OF ok(6) prune(1) ab]
      let ?p = "p\<lparr>po_min := a, po_max := b\<rparr>"
      have s: "stage_ok ?p" "stage_ok (?p\<lparr>po_current := a - 1\<rparr>)" "insertable (?p\<lparr>po_current := a - 1\<rparr>)" using ok r by (auto simp: stage_ok_def insertable_def)
      have run: "generate_plan p = (if a = b then fix_parallelism a ?p else compare_times (?p\<lparr>po_current := a - 1\<rparr>))"
        using unfixed prune ok ab r by (simp add: generate_plan_def sub_generate_plan_def)
      show ?thesis
      proof (cases "a = b")
        case True
        then show ?thesis using run fix_planned [OF s(1), of a] r by (auto simp: same_run_def)
      next
        case False
        then show ?thesis using run compare_planned [OF s(2,3)] unfixed ok r by (auto simp: same_run_def)
      qed
    next
      case none
      have "insertable p" using none ok by (auto simp: insertable_def best_ok_def)
      then show ?thesis using compare_planned [OF ok(1)] unfixed none ok by (simp add: generate_plan_def sub_generate_plan_def)
    qed
  next
    case False
    then have pl: "stage_ok p" "insertable p" "po_try_iters p = 10" "po_min p \<le> po_current p" "po_current p \<le> po_max p" "po_current p \<noteq> 0"
      using assms unfixed by (auto simp: planned_def stage_ok_def)
    then show ?thesis using compare_planned [OF pl(1,2)] unfixed by (simp add: generate_plan_def sub_generate_plan_def)
  qed
qed


text \<open>
  A sub-epoch as the scheduler runs it: the plan and the start of the timing in \<^verbatim>\<open>task_to_instance_auto_parallelism\<close>, the end of the timing in
  \<^verbatim>\<open>finish_thread\<close>, with the two clock readings. \<open>run_stage c n\<close> is \<open>n\<close> sub-epochs or fewer if the stage finishes before.
\<close>

definition subepoch :: "int \<times> int \<Rightarrow> Policy \<Rightarrow> error + (bool \<times> Policy)" where
  "subepoch c p = bindE (generate_plan p) (\<lambda>p. Inr (finish_subepoch (snd c) (start_subepoch (fst c) p)))"

fun run_stage :: "(nat \<Rightarrow> int \<times> int) \<Rightarrow> nat \<Rightarrow> Policy \<Rightarrow> error + (bool \<times> Policy)" where
  "run_stage c 0 p = Inr (False, p)"
| "run_stage c (Suc n) p =
     bindE (subepoch (c 0) p) (\<lambda>(finish, p). if finish then Inr (True, p) else run_stage (\<lambda>k. c (Suc k)) n p)"

lemma subepoch_ok:
  assumes "fresh p \<or> planned p"
  shows "\<exists>fin p'. subepoch c p = Inr (fin, p') \<and> stage_ok p' \<and> (\<not> fin \<longrightarrow> planned p') \<and> po_num_total_iters p' = po_num_total_iters p \<and> (fin \<longleftrightarrow> po_current_iters p' = po_num_total_iters p')
     \<and> po_current_iters p' = (if po_fixed p' then po_num_total_iters p' else po_current_iters p + 10)"
proof -
  obtain p1 where p1: "generate_plan p = Inr p1" "planned p1" "same_run p p1" using generate_planned [OF assms] by blast
  show ?thesis using p1 by (auto simp: subepoch_def finish_subepoch_def start_subepoch_def planned_def stage_ok_def insertable_def same_run_def Let_def)
qed

lemma run_stage_ends:
  assumes "fresh p \<or> planned p" "po_num_total_iters p = po_current_iters p + 10 * int n" "0 < n"
  shows "\<exists>p'. run_stage c n p = Inr (True, p') \<and> stage_ok p' \<and> po_current_iters p' = po_num_total_iters p"
  using assms
proof (induction n arbitrary: p c)
  case (Suc n)
  obtain fin p1 where p1: "subepoch (c 0) p = Inr (fin, p1)" "stage_ok p1" "\<not> fin \<longrightarrow> planned p1" "po_num_total_iters p1 = po_num_total_iters p"
    "fin \<longleftrightarrow> po_current_iters p1 = po_num_total_iters p1"
    "po_current_iters p1 = (if po_fixed p1 then po_num_total_iters p1 else po_current_iters p + 10)"
    using subepoch_ok [OF Suc.prems(1)] by blast
  show ?case
  proof (cases fin)
    case True
    then show ?thesis using p1 by simp
  next
    case False
    then have "po_current_iters p1 = po_current_iters p + 10" using p1(5,6) by (auto split: if_splits)
    then have "po_num_total_iters p1 = po_current_iters p1 + 10 * int n" "n \<noteq> 0" using Suc.prems(2) p1(4,5) False by auto
    then show ?thesis using Suc.IH [of p1 "\<lambda>k. c (Suc k)"] p1 False by simp
  qed
qed simp

lemma reset_fresh: "best_ok (po_best p) \<Longrightarrow> fresh (reset_stage p)"
  by (simp add: fresh_def stage_ok_def reset_stage_def sub_reset_def)

lemma start_stage_ok:
  assumes "best_ok (po_best p)"
  shows "\<exists>p'. po_start_stage N bs (reset_stage p) = Inr p' \<and> (fresh p' \<or> planned p') \<and> po_num_total_iters p' = N \<and> po_current_iters p' = 0"
proof -
  let ?p = "(reset_stage p)\<lparr>po_num_total_iters := N, po_batchsize := bs\<rparr>"
  have f: "fresh ?p" "best_ok (po_best ?p)" using reset_fresh [OF assms] assms by (simp_all add: fresh_def stage_ok_def reset_stage_def sub_reset_def)
  have r: "po_start_stage N bs (reset_stage p) = (case map_of (po_best ?p) bs of Some best \<Rightarrow> if bs > 0 then fix_parallelism best ?p else Inr ?p | None \<Rightarrow> Inr ?p)"
    by (simp add: po_start_stage_def Let_def)
  show ?thesis
  proof (cases "map_of (po_best ?p) bs")
    case (Some best)
    then have b: "(bs, best) \<in> set (po_best ?p)" by (rule map_of_SomeD)
    then have "best \<in> {po_min ?p..po_max ?p}" using f by (auto simp: best_ok_def fresh_def)
    moreover have "map_insert bs best (po_best ?p) = po_best ?p" using map_insert_present b f(2) by (simp add: best_ok_def)
    ultimately obtain p' where "fix_parallelism best ?p = Inr p'" "planned p'" "same_run ?p p'"
      using fix_planned [of ?p best] f by (auto simp: fresh_def)
    then show ?thesis using r Some f(1) by (auto simp: same_run_def reset_stage_def sub_reset_def)
  qed (use r f in \<open>auto simp: reset_stage_def sub_reset_def\<close>)
qed

section \<open>Threads\<close>

definition auto_inv :: "AutoParallelismTaskScheduler \<Rightarrow> bool" where
  "auto_inv s \<longleftrightarrow> list_all (\<lambda>t. 0 \<le> t_num_workers (base t)) (ap_tasks_queue s)"

lemma auto_keeps_parts:
  "keeps s s1 \<Longrightarrow> keeps s (s1\<lparr>ap_policy := p\<rparr>)" "keeps s s1 \<Longrightarrow> keeps s (s1\<lparr>ap_tasks_queue := q\<rparr>)" "keeps s s1 \<Longrightarrow> keeps s (s1\<lparr>ap_clock := c\<rparr>)"
  by (auto simp: keeps_def threads_ok_def threads_of_def base_ok_def)

lemma start_stage_policy: "start_stage task epoch s = Inr s' \<Longrightarrow> \<exists>p. s' = s\<lparr>ap_policy := p\<rparr>"
  by (auto simp: start_stage_def res_simps split: Task.splits if_splits)

lemma start_if_auto_policy:
  assumes "start_if_auto s = Inr s'"
  shows "\<exists>p. s' = s\<lparr>ap_policy := p\<rparr>"
proof (cases "\<exists>task tasks. ap_tasks_queue s = task # tasks \<and> t_type (base task) = AutoParallelismTaskType")
  case True
  then show ?thesis using assms start_stage_policy by (auto simp: start_if_auto_def)
next
  case False
  then have "s' = s" using assms by (auto simp: start_if_auto_def split: list.splits)
  then show ?thesis by (intro exI [of _ "ap_policy s"]) simp
qed

lemma finish_epoch_keeps:
  assumes "finish_epoch auto task tasks s1 = Inr s'" "keeps s s1" "0 \<le> t_num_workers (base task)" "list_all (\<lambda>t. 0 \<le> t_num_workers (base t)) tasks"
  shows "keeps s s' \<and> auto_inv s'"
proof -
  have b: "t_num_workers (base (inc_epoch task)) = t_num_workers (base task)" by (simp add: inc_epoch_def)
  have "\<exists>q p. s' = s1\<lparr>ap_tasks_queue := q, ap_policy := p\<rparr> \<and> list_all (\<lambda>t. 0 \<le> t_num_workers (base t)) q"
  proof (cases "t_current_epoch (base (inc_epoch task)) = t_total_epoch (base (inc_epoch task))")
    case True
    then show ?thesis using assms(1,4) start_if_auto_policy [of "s1\<lparr>ap_tasks_queue := tasks\<rparr>" s'] by (auto simp: finish_epoch_def Let_def)
  next
    case False
    let ?s = "s1\<lparr>ap_tasks_queue := inc_epoch task # tasks\<rparr>"
    have "\<exists>p. s' = ?s\<lparr>ap_policy := p\<rparr>"
    proof (cases auto)
      case True
      then show ?thesis using False assms(1) start_stage_policy [of "inc_epoch task" "t_current_epoch (base (inc_epoch task))" ?s s'] by (simp add: finish_epoch_def Let_def)
    next
      case noauto: False
      then show ?thesis using False assms(1) by (intro exI [of _ "ap_policy ?s"]) (simp add: finish_epoch_def Let_def)
    qed
    then obtain p where "s' = ?s\<lparr>ap_policy := p\<rparr>" by blast
    moreover have "list_all (\<lambda>t. 0 \<le> t_num_workers (base t)) (inc_epoch task # tasks)" using assms(3,4) b by simp
    ultimately show ?thesis by blast
  qed
  then show ?thesis using auto_keeps_parts(1) [OF auto_keeps_parts(2) [OF assms(2)]] by (auto simp: auto_inv_def)
qed

lemma ap_more_unchanged: "Sched.more s' = Sched.more s \<Longrightarrow> ap_tasks_queue s' = ap_tasks_queue s \<and> ap_policy s' = ap_policy s"
  by (cases s, cases s') simp

lemma auto_finish_keeps:
  assumes "auto_inv s" "threads_ok s" "(i, ci_proc_of (sc_info s) tid, tid) \<in> sc_track s" "auto_finish_thread i tid s = Inr s'"
  shows "keeps s s' \<and> auto_inv s'"
proof -
  let ?s = "release_thread i tid s"
  note k = release_thread_ok [OF assms(2,3)]
  have q: "ap_tasks_queue ?s = ap_tasks_queue s" using ap_more_unchanged [of ?s s] by simp
  have kc: "keeps s (?s\<lparr>ap_clock := c, ap_policy := p\<rparr>)" for c p using k auto_keeps_parts by blast
  show ?thesis
  proof (cases "untracked i (sc_track ?s)")
    case False
    then show ?thesis using assms(1,4) k q by (simp add: auto_finish_thread_def auto_inv_def)
  next
    case True
    then obtain task tasks where t: "ap_tasks_queue s = task # tasks" using assms(4) q by (auto simp: auto_finish_thread_def Let_def split: list.splits)
    have n: "0 \<le> t_num_workers (base task)" "list_all (\<lambda>t. 0 \<le> t_num_workers (base t)) tasks" using assms(1) t by (simp_all add: auto_inv_def)
    consider p c where "s' = ?s\<lparr>ap_clock := c, ap_policy := p\<rparr>" | p c where "finish_epoch True task tasks (?s\<lparr>ap_clock := c, ap_policy := p\<rparr>) = Inr s'"
      | "finish_epoch False task tasks ?s = Inr s'"
      using assms(4) True q t by (auto simp: auto_finish_thread_def Let_def split_beta read_clock_def split: if_splits)
    then show ?thesis
    proof cases
      case 1
      then show ?thesis using kc assms(1) q by (auto simp: auto_inv_def)
    next
      case 2
      then show ?thesis using finish_epoch_keeps [OF _ kc n] by blast
    next
      case 3
      then show ?thesis using finish_epoch_keeps [OF _ k n] by blast
    qed
  qed
qed

lemma auto_extract_keeps:
  assumes "\<And>k. env_ok (es k)" "auto_inv s" "threads_ok s" "auto_extract_instances es s = Some (Inr (insts, s'))"
  shows "keeps s s' \<and> auto_inv s'"
proof (cases "ap_tasks_queue s = [] \<or> sc_track s \<noteq> {}")
  case True
  then show ?thesis using assms by (auto simp: auto_extract_instances_def keeps_refl)
next
  case False
  then obtain task tasks where t: "ap_tasks_queue s = task # tasks" "sc_track s = {}" by (auto simp: neq_Nil_conv)
  have n: "0 \<le> t_num_workers (base task)" using assms(2) t by (simp add: auto_inv_def)
  show ?thesis
  proof (cases "t_type (base task) = AutoParallelismTaskType")
    case False
    then obtain inst where "task_to_instance ''[AutoParallelism Task Scheduler] Cannot assign next instance'' (es 0) task s = Some (Inr (inst, s'))"
      using assms(4) t by (auto simp: auto_extract_instances_def res_simps)
    from task_to_instance_keeps [OF assms(3,1) n this] show ?thesis using ap_more_unchanged [of s' s] assms(2) by (simp add: auto_inv_def)
  next
    case True
    then obtain inst where "task_to_instance_auto_parallelism (es 0) task s = Inr (inst, s')"
      using assms(4) t by (auto simp: auto_extract_instances_def res_simps)
    then obtain p where p: "bindE (new_Instance task) (\<lambda>inst.
         let inst = inst_set_num_workers (po_current p * ci_num_processes (sc_info s)) inst;
             (sel, aw) = get_workers_per_process (es 0) (po_current p) (ci_num_processes (sc_info s)) (sc_pool s);
             s = s\<lparr>ap_policy := p, sc_pool := aw\<rparr> in
         bindE (assertE (sel \<noteq> [])) (\<lambda>_.
         bindE (commit (inst_id inst) sel inst s) (\<lambda>(inst, s).
         bindE (set_current_stage_iters (po_try_iters p) (inst_task inst)) (\<lambda>t.
         let (now, s) = read_clock s in Inr (inst\<lparr>inst_task := t\<rparr>, s\<lparr>ap_policy := start_subepoch now p\<rparr>))))) = Inr (inst, s')"
      by (auto simp: task_to_instance_auto_parallelism_def res_simps Let_def)
    obtain sel aw where w: "get_workers_per_process (es 0) (po_current p) (ci_num_processes (sc_info s)) (sc_pool s) = (sel, aw)" by fastforce
    obtain k hm c p' where s': "update_history k sel (sc_hist s) = Inr hm"
      "s' = s\<lparr>sc_pool := aw, sc_track := sc_track s \<union> tracked k sel, sc_hist := hm, ap_clock := c, ap_policy := p'\<rparr>"
      using p w by (auto simp: commit_def res_simps Let_def split_beta read_clock_def)
    have ok: "sched_ok (sc_pool s) (sc_track s)" "base_ok s" using assms(3) by (simp_all add: threads_ok_def)
    have "takes (sc_pool s) sel aw" using per_process.takes [OF assms(1) [of 0] _ w] ok(1) by (simp add: sched_ok_def)
    note st = sched_ok_take [OF ok(1) this, of k]
    have "hist_ok hm \<and> hm_num_processes hm = hm_num_processes (sc_hist s)" using hist_ok_update [OF _ s'(1)] ok(2) by (simp add: base_ok_def)
    then show ?thesis using s'(2) st ok(2) assms(2) by (simp add: keeps_def threads_ok_def threads_of_def base_ok_def auto_inv_def)
  qed
qed

interpretation auto_parallelism: scheduler auto_extract_instances auto_finish_thread auto_inv
proof unfold_locales
  fix es s insts s' assume "\<And>k. env_ok (es k)" "auto_inv s" "threads_ok s" "auto_extract_instances es s = Some (Inr (insts, s'))"
  then show "keeps s s' \<and> auto_inv s'" using auto_extract_keeps [of es s insts s'] by simp
next
  fix s i tid s' assume "auto_inv s" "threads_ok s" "(i, ci_proc_of (sc_info s) tid, tid) \<in> sc_track s" "auto_finish_thread i tid s = Inr s'"
  then show "keeps s s' \<and> auto_inv s'" using auto_finish_keeps [of s i tid s'] by simp
qed

section \<open>Properties\<close>


text \<open>A policy that has not decided anything, in the middle of a stage with the clock standing still.\<close>

definition undecided :: "int \<Rightarrow> Policy \<Rightarrow> bool" where
  "undecided N p \<longleftrightarrow> po_best p = [] \<and> \<not> po_fixed p \<and> po_try_iters p = 10 \<and> po_num_total_iters p = N \<and> set (po_times p) \<subseteq> {0}
     \<and> po_sub_epoch p = int (length (po_times p)) \<and> po_current_iters p = 10 * po_sub_epoch p"

lemma undecided_step:
  assumes "undecided N p" "N mod 10 \<noteq> 0"
  shows "\<exists>p'. subepoch (t, t) p = Inr (False, p') \<and> undecided N p' \<and> po_sub_epoch p' = po_sub_epoch p + 1"
proof -
  have times: "po_times p ! k = 0" if "k < length (po_times p)" for k using assms(1) nth_mem [OF that] by (auto simp: undecided_def)
  have "\<not> (po_sub_epoch p > 1 \<and> po_times p ! nat (po_sub_epoch p - 1) > po_times p ! nat (po_sub_epoch p - 2))"
    using assms(1) times by (auto simp: undecided_def)
  then have g: "generate_plan p = Inr (increase p)"
    using assms(1) by (auto simp: generate_plan_def sub_generate_plan_def compare_times_def undecided_def as_size_def)
  have "10 * po_sub_epoch p + 10 \<noteq> N" using assms(2) by auto
  then show ?thesis using g assms(1)
    by (auto simp: subepoch_def finish_subepoch_def start_subepoch_def increase_def undecided_def c_div_def Let_def)
qed

lemma undecided_run:
  assumes "undecided N p" "N mod 10 \<noteq> 0"
  shows "\<exists>p'. run_stage (\<lambda>k. (t k, t k)) n p = Inr (False, p') \<and> undecided N p' \<and> po_sub_epoch p' = po_sub_epoch p + int n"
  using assms(1)
proof (induction n arbitrary: p t)
  case (Suc n)
  obtain p' where p': "subepoch (t 0, t 0) p = Inr (False, p')" "undecided N p'" "po_sub_epoch p' = po_sub_epoch p + 1"
    using undecided_step [OF Suc.prems assms(2)] by blast
  then show ?case using Suc.IH [OF p'(2), of "\<lambda>k. t (Suc k)"] by auto
qed simp

text \<open>
  C30. A stage whose number of iterations is not a multiple of ten need not end: the test for the end of a stage is an equation, and the sub-epochs of ten
  iterations step over it. As long as the measured times do not grow (here: they are all equal) the stage goes on after any number of sub-epochs.
  Scope: a policy without a best parallelism, batch size 0, and measured times that are all zero.
\<close>

theorem auto_stage_overshoot:
  assumes "po_best p = []" "N mod 10 \<noteq> 0"
  shows "\<exists>p1 p2. po_start_stage N 0 (reset_stage p) = Inr p1 \<and> run_stage (\<lambda>k. (t k, t k)) n p1 = Inr (False, p2) \<and> po_current_iters p2 = 10 * int n"
proof -
  let ?p = "(reset_stage p)\<lparr>po_num_total_iters := N, po_batchsize := 0\<rparr>"
  have s: "po_start_stage N 0 (reset_stage p) = Inr ?p" using assms(1) by (simp add: po_start_stage_def reset_stage_def sub_reset_def)
  have u: "undecided N ?p" "po_sub_epoch ?p = 0" using assms(1) by (simp_all add: undecided_def reset_stage_def sub_reset_def)
  show ?thesis using s undecided_run [OF u(1) assms(2), of t n] u(2) by (auto simp: undecided_def)
qed

definition example_policy :: Policy where
  "example_policy = \<lparr>po_current = 0, po_max = 10, po_min = 1, po_times = [], po_history = [], po_start_time = 0, po_try_iters = 10, po_current_iters = 0,
     po_num_total_iters = 0, po_sub_epoch = 0, po_fixed = False, po_best = [], po_batchsize = 0\<rparr>"


theorem auto_stage_overshoot_witness:
  "\<exists>p1 p2. po_start_stage 15 0 (reset_stage example_policy) = Inr p1 \<and> run_stage (\<lambda>k. (0, 0)) 100 p1 = Inr (False, p2) \<and> po_current_iters p2 = 1000"
  using auto_stage_overshoot [of example_policy 15 "\<lambda>_. 0" 100] by (simp add: example_policy_def)

end
