(* ===== verification/Cluster_Manager.thy ===== *)
theory Cluster_Manager
  imports Greedy_Scheduler Sequential_Scheduler Priority_Scheduler Auto_Parallelism
begin

text \<open>
  The cluster manager and the trigger of its scheduler: \<^verbatim>\<open>cluster_manager/cluster_manager.hpp\<close> and \<^verbatim>\<open>.cpp\<close>, \<^verbatim>\<open>scheduler_trigger.hpp\<close> and
  \<^verbatim>\<open>.cpp\<close>.

  The schedulers are one datatype, and the virtual calls are functions on it. The loop \<^verbatim>\<open>serve\<close> is a function on the list of messages that arrive; what it sends
  through its sockets is a list of outputs. The history singleton is part of the state of the scheduler. \<open>ord\<close> is the order in which the map
  of an instance is iterated. The timer thread of the trigger is never started by the code and is not part of the model.
\<close>

section \<open>Model\<close>

subsection \<open>The trigger\<close>

record SchedulerTrigger =
  st_counter :: u32
  st_time_out_period :: u32
  st_count_threshold :: u32
  st_expected_timestamp :: u32
  st_enable_timeout :: bool

definition mk_SchedulerTrigger :: SchedulerTrigger where
  "mk_SchedulerTrigger = \<lparr>st_counter = 0, st_time_out_period = 5, st_count_threshold = 1, st_expected_timestamp = 0, st_enable_timeout = False\<rparr>"

definition inc_timestamp :: "SchedulerTrigger \<Rightarrow> SchedulerTrigger" where
  "inc_timestamp t = t\<lparr>st_expected_timestamp := st_expected_timestamp t + 1, st_counter := 0\<rparr>"

definition is_current_ts :: "int \<Rightarrow> SchedulerTrigger \<Rightarrow> bool \<times> SchedulerTrigger" where
  "is_current_ts ts t = (if st_expected_timestamp t = word_of_int ts then (True, inc_timestamp t) else (False, t))"

definition has_enough_new_threads :: "SchedulerTrigger \<Rightarrow> bool \<times> SchedulerTrigger" where
  "has_enough_new_threads t =
     (let t = t\<lparr>st_counter := st_counter t + 1\<rparr> in
      if st_counter t = st_count_threshold t then (True, inc_timestamp t) else (False, t))"

definition set_time_out_period :: "int \<Rightarrow> SchedulerTrigger \<Rightarrow> SchedulerTrigger" where
  "set_time_out_period n t = t\<lparr>st_enable_timeout := n \<noteq> 0, st_time_out_period := word_of_int n\<rparr>"

definition set_count_threshold :: "int \<Rightarrow> SchedulerTrigger \<Rightarrow> SchedulerTrigger" where
  "set_count_threshold n t = t\<lparr>st_count_threshold := word_of_int n\<rparr>"

text \<open>\<^verbatim>\<open>std::invalid_argument\<close> is caught, what was set before stays; \<^verbatim>\<open>std::out_of_range\<close> is not caught.\<close>

definition setup_scheduler_trigger :: "string \<Rightarrow> string \<Rightarrow> error + SchedulerTrigger" where
  "setup_scheduler_trigger time_out_period threads_threshold =
     (let t = mk_SchedulerTrigger in
      case (if time_out_period \<noteq> [] \<and> time_out_period \<noteq> ''default''
            then bindE (stoi time_out_period) (\<lambda>n. Inr (set_time_out_period n t)) else Inr t) of
        Inl e \<Rightarrow> if e = InvalidArgument then Inr t else Inl e
      | Inr t \<Rightarrow>
          (case (if threads_threshold \<noteq> [] \<and> time_out_period \<noteq> ''default''
                 then bindE (stoi threads_threshold) (\<lambda>n. Inr (set_count_threshold n t)) else Inr t) of
             Inl e \<Rightarrow> if e = InvalidArgument then Inr t else Inl e
           | Inr t \<Rightarrow> Inr t))"

subsection \<open>The scheduler behind its interface\<close>

datatype TaskScheduler =
    Greedy GreedyTaskScheduler
  | Sequential SequentialTaskScheduler
  | Priority TaskManager
  | AutoParallelismSched AutoParallelismTaskScheduler

text \<open>\<open>policy\<close> and \<open>clock\<close> are the uninitialised members of the policy and the readings of the clock.\<close>

definition setup_task_scheduler :: "ClusterInfo \<Rightarrow> HistoryManager \<Rightarrow> Policy \<Rightarrow> (nat \<Rightarrow> int) \<Rightarrow> string \<Rightarrow> error + TaskScheduler" where
  "setup_task_scheduler ci hm policy clock hint =
     (if hint = ''greedy'' then Inr (Greedy (mk_GreedyTaskScheduler ci hm))
      else if hint = ''sequential'' then Inr (Sequential (mk_SequentialTaskScheduler ci hm))
      else if hint = ''priority'' then Inr (Priority (mk_PriorityTaskScheduler ci hm))
      else if hint = ''autoparallelism'' then Inr (AutoParallelismSched (mk_AutoParallelismTaskScheduler ci hm policy clock))
      else if hint = '''' then Inr (Sequential (mk_SequentialTaskScheduler ci hm))
      else Inl (HuskyException (''[ClusterManager] setup_task_scheduler failed, unknown hint: '' @ hint)))"

fun sched_init_tasks :: "Task list \<Rightarrow> TaskScheduler \<Rightarrow> error + TaskScheduler" where
  "sched_init_tasks tasks (Greedy s) = bindE (greedy_init_tasks tasks s) (\<lambda>s. Inr (Greedy s))"
| "sched_init_tasks tasks (Sequential s) = bindE (sequential_init_tasks tasks s) (\<lambda>s. Inr (Sequential s))"
| "sched_init_tasks tasks (Priority s) = Inr (Priority (add_tasks tasks s))"
| "sched_init_tasks tasks (AutoParallelismSched s) = bindE (auto_init_tasks tasks s) (\<lambda>s. Inr (AutoParallelismSched s))"

fun sched_finish_thread :: "int \<Rightarrow> int \<Rightarrow> TaskScheduler \<Rightarrow> error + TaskScheduler" where
  "sched_finish_thread i tid (Greedy s) = bindE (greedy_finish_thread i tid s) (\<lambda>s. Inr (Greedy s))"
| "sched_finish_thread i tid (Sequential s) = bindE (sequential_finish_thread i tid s) (\<lambda>s. Inr (Sequential s))"
| "sched_finish_thread i tid (Priority s) = bindE (priority_finish_thread i tid s) (\<lambda>s. Inr (Priority s))"
| "sched_finish_thread i tid (AutoParallelismSched s) = bindE (auto_finish_thread i tid s) (\<lambda>s. Inr (AutoParallelismSched s))"

fun sched_extract_instances :: "(nat \<Rightarrow> env) \<Rightarrow> TaskScheduler \<Rightarrow> (error + (Instance list \<times> TaskScheduler)) option" where
  "sched_extract_instances es (Greedy s) = bindO (greedy_extract_instances es s) (\<lambda>(i, s). Some (Inr (i, Greedy s)))"
| "sched_extract_instances es (Sequential s) = bindO (sequential_extract_instances es s) (\<lambda>(i, s). Some (Inr (i, Sequential s)))"
| "sched_extract_instances es (Priority s) = bindO (priority_extract_instances es s) (\<lambda>(i, s). Some (Inr (i, Priority s)))"
| "sched_extract_instances es (AutoParallelismSched s) = bindO (auto_extract_instances es s) (\<lambda>(i, s). Some (Inr (i, AutoParallelismSched s)))"

fun sched_is_finished :: "TaskScheduler \<Rightarrow> bool" where
  "sched_is_finished (Greedy s) = greedy_is_finished s"
| "sched_is_finished (Sequential s) = sequential_is_finished s"
| "sched_is_finished (Priority s) = tm_is_finished s"
| "sched_is_finished (AutoParallelismSched s) = auto_is_finished s"

text \<open>The history singleton.\<close>

fun sched_hist :: "TaskScheduler \<Rightarrow> HistoryManager" where
  "sched_hist (Greedy s) = sc_hist s"
| "sched_hist (Sequential s) = sc_hist s"
| "sched_hist (Priority s) = sc_hist s"
| "sched_hist (AutoParallelismSched s) = sc_hist s"

fun sched_set_hist :: "HistoryManager \<Rightarrow> TaskScheduler \<Rightarrow> TaskScheduler" where
  "sched_set_hist hm (Greedy s) = Greedy (s\<lparr>sc_hist := hm\<rparr>)"
| "sched_set_hist hm (Sequential s) = Sequential (s\<lparr>sc_hist := hm\<rparr>)"
| "sched_set_hist hm (Priority s) = Priority (s\<lparr>sc_hist := hm\<rparr>)"
| "sched_set_hist hm (AutoParallelismSched s) = AutoParallelismSched (s\<lparr>sc_hist := hm\<rparr>)"

subsection \<open>The manager\<close>

record ClusterManager =
  cm_worker_info :: ClusterInfo
  cm_send_sockets :: "int list"                 \<comment> \<open>the processes, in the order of the map of sockets\<close>
  cm_task_scheduler :: TaskScheduler
  cm_scheduler_trigger :: SchedulerTrigger
  cm_is_setup :: bool

datatype cm_message =
    ClusterManagerInit stream
  | ClusterManagerThreadFinished int int
  | ClusterManagerTimeOutSchedule int
  | ClusterManagerExit
  | OtherType int

datatype cm_output =
    SendTask int stream            \<comment> \<open>to a process\<close>
  | DirectTransferModel int int int  \<comment> \<open>to a process: destination thread, task\<close>
  | SendFinished int

definition cm_setup :: "ClusterInfo \<Rightarrow> int list \<Rightarrow> HistoryManager \<Rightarrow> Policy \<Rightarrow> (nat \<Rightarrow> int) \<Rightarrow> string \<Rightarrow> SchedulerTrigger \<Rightarrow> error + ClusterManager" where
  "cm_setup ci sockets hm policy clock hint trigger =
     bindE (setup_task_scheduler ci hm policy clock hint) (\<lambda>s.
     Inr \<lparr>cm_worker_info = ci, cm_send_sockets = sockets, cm_task_scheduler = sched_set_hist (hm_start (nat (ci_num_processes ci)) (sched_hist s)) s,
          cm_scheduler_trigger = trigger, cm_is_setup = True\<rparr>)"

definition recv_tasks_from_worker :: "stream \<Rightarrow> ClusterManager \<Rightarrow> error + ClusterManager" where
  "recv_tasks_from_worker bin m =
     bindE (extract_tasks bin) (\<lambda>(tasks, rest).
     bindE (sched_init_tasks tasks (cm_task_scheduler m)) (\<lambda>s. Inr (m\<lparr>cm_task_scheduler := s\<rparr>)))"

text \<open>The only process of an instance and its first thread: the loops of \<^verbatim>\<open>send_last_instance\<close> over a map of size one.\<close>

definition only_thread :: "(Instance \<Rightarrow> int list) \<Rightarrow> Instance \<Rightarrow> error + int" where
  "only_thread ord inst =
     (case ord inst of
        [p] \<Rightarrow> bindE (vec_get (get_threads p inst) 0) (\<lambda>th.
               bindE (assertE (snd th = 0)) (\<lambda>_. bindE (assertE (fst th \<noteq> -1)) (\<lambda>_. Inr (fst th))))
      | _ \<Rightarrow> Inl AssertFailed)"

definition send_last_instance :: "(Instance \<Rightarrow> int list) \<Rightarrow> Instance \<Rightarrow> ClusterManager \<Rightarrow> error + cm_output list" where
  "send_last_instance ord inst m =
     (let b = base (inst_task inst) in
      if \<not> t_local b \<or> \<not> t_dmt b then Inr []
      else if inst_epoch inst = 0 then Inr []
      else case hm_last_instance (sched_hist (cm_task_scheduler m)) (inst_id inst) of
        None \<Rightarrow> Inl UndefinedBehaviour
      | Some previous \<Rightarrow>
          bindE (only_thread ord previous) (\<lambda>src. bindE (only_thread ord inst) (\<lambda>dst.
          Inr [DirectTransferModel (ci_proc_of (cm_worker_info m) src) dst (inst_id inst)])))"

definition cm_set_last_instance :: "Instance \<Rightarrow> ClusterManager \<Rightarrow> ClusterManager" where
  "cm_set_last_instance inst m =
     m\<lparr>cm_task_scheduler := sched_set_hist (set_last_instance (inst_id inst) inst (sched_hist (cm_task_scheduler m))) (cm_task_scheduler m)\<rparr>"

definition send_instance :: "(Instance \<Rightarrow> int list) \<Rightarrow> Instance \<Rightarrow> cm_output list \<times> ClusterManager \<Rightarrow> error + (cm_output list \<times> ClusterManager)" where
  "send_instance ord inst = (\<lambda>(outs, m).
     bindE (send_last_instance ord inst m) (\<lambda>transfer.
     Inr (outs @ map (\<lambda>p. SendTask p (inst_serialize (ord inst) inst)) (cm_send_sockets m) @ transfer, cm_set_last_instance inst m)))"

definition send_instances :: "(Instance \<Rightarrow> int list) \<Rightarrow> Instance list \<Rightarrow> ClusterManager \<Rightarrow> error + (cm_output list \<times> ClusterManager)" where
  "send_instances ord insts m = foldE (send_instance ord) insts ([], m)"

definition send_exit_signal :: "ClusterManager \<Rightarrow> cm_output list" where
  "send_exit_signal m = map SendFinished (cm_send_sockets m)"

definition extract_instaces :: "(nat \<Rightarrow> env) \<Rightarrow> (Instance \<Rightarrow> int list) \<Rightarrow> ClusterManager \<Rightarrow> (error + (cm_output list \<times> ClusterManager)) option" where
  "extract_instaces es ord m =
     bindO (sched_extract_instances es (cm_task_scheduler m)) (\<lambda>(insts, s).
     bindO (Some (send_instances ord insts (m\<lparr>cm_task_scheduler := s\<rparr>))) (\<lambda>(outs, m).
     Some (Inr (if sched_is_finished (cm_task_scheduler m) then outs @ send_exit_signal m else outs, m))))"

text \<open>One message of the loop; the flag says whether the loop goes on.\<close>

fun handle :: "(nat \<Rightarrow> env) \<Rightarrow> (Instance \<Rightarrow> int list) \<Rightarrow> cm_message \<Rightarrow> ClusterManager \<Rightarrow> (error + (bool \<times> cm_output list \<times> ClusterManager)) option" where
  "handle es ord (ClusterManagerInit bin) m =
     bindO (Some (recv_tasks_from_worker bin m)) (\<lambda>m. bindO (extract_instaces es ord m) (\<lambda>(outs, m). Some (Inr (True, outs, m))))"
| "handle es ord (ClusterManagerThreadFinished i tid) m =
     bindO (Some (sched_finish_thread i tid (cm_task_scheduler m))) (\<lambda>s.
     let (enough, t) = has_enough_new_threads (cm_scheduler_trigger m); m = m\<lparr>cm_task_scheduler := s, cm_scheduler_trigger := t\<rparr> in
     if enough then bindO (extract_instaces es ord m) (\<lambda>(outs, m). Some (Inr (True, outs, m))) else Some (Inr (True, [], m)))"
| "handle es ord (ClusterManagerTimeOutSchedule ts) m =
     (let (current, t) = is_current_ts ts (cm_scheduler_trigger m); m = m\<lparr>cm_scheduler_trigger := t\<rparr> in
      if current then bindO (extract_instaces es ord m) (\<lambda>(outs, m). Some (Inr (True, outs, m))) else Some (Inr (True, [], m)))"
| "handle es ord ClusterManagerExit m = Some (Inr (False, [], m))"
| "handle es ord (OtherType ty) m = Some (Inl (UnknownCmd ty))"

text \<open>The loop on the messages that arrive; it waits when there are none left.\<close>

fun serve_loop :: "(nat \<Rightarrow> nat \<Rightarrow> env) \<Rightarrow> (Instance \<Rightarrow> int list) \<Rightarrow> nat \<Rightarrow> cm_message list \<Rightarrow> cm_output list \<Rightarrow> ClusterManager
    \<Rightarrow> (error + (cm_output list \<times> ClusterManager)) option" where
  "serve_loop es ord n [] outs m = Some (Inr (outs, m))"
| "serve_loop es ord n (msg # msgs) outs m =
     bindO (handle (es n) ord msg m) (\<lambda>(continue, new, m).
     if continue then serve_loop es ord (n + 1) msgs (outs @ new) m else Some (Inr (outs @ new, m)))"

definition serve :: "(nat \<Rightarrow> nat \<Rightarrow> env) \<Rightarrow> (Instance \<Rightarrow> int list) \<Rightarrow> cm_message list \<Rightarrow> ClusterManager \<Rightarrow> (error + (cm_output list \<times> ClusterManager)) option" where
  "serve es ord msgs m = bindO (Some (assertE (cm_is_setup m))) (\<lambda>_. serve_loop es ord 0 msgs [] m)"


section \<open>The trigger\<close>

fun trigger_run :: "nat \<Rightarrow> SchedulerTrigger \<Rightarrow> bool list \<times> SchedulerTrigger" where
  "trigger_run 0 t = ([], t)"
| "trigger_run (Suc n) t = (let (b, t) = has_enough_new_threads t; (bs, t) = trigger_run n t in (b # bs, t))"

lemma trigger_step:
  assumes "unat (st_counter t) + 1 < 2 ^ 32" "unat (st_count_threshold t) = 0 \<or> unat (st_counter t) < unat (st_count_threshold t)"
  shows "has_enough_new_threads t = (if unat (st_counter t) + 1 = unat (st_count_threshold t) then (True, inc_timestamp t)
     else (False, t\<lparr>st_counter := st_counter t + 1\<rparr>))" "unat (st_counter t + 1) = unat (st_counter t) + 1"
proof -
  show u: "unat (st_counter t + 1) = unat (st_counter t) + 1" using assms(1) by (simp add: unat_plus_simple [THEN iffD1] word_le_nat_alt unat_word_ariths)
  then have "st_counter t + 1 = st_count_threshold t \<longleftrightarrow> unat (st_counter t) + 1 = unat (st_count_threshold t)" by (metis word_unat_eq_iff)
  then show "has_enough_new_threads t = (if unat (st_counter t) + 1 = unat (st_count_threshold t) then (True, inc_timestamp t)
     else (False, t\<lparr>st_counter := st_counter t + 1\<rparr>))"
    by (simp add: has_enough_new_threads_def inc_timestamp_def Let_def)
qed

lemma trigger_run_periodic:
  assumes "unat (st_counter t) + n < 2 ^ 32" "unat (st_count_threshold t) = 0 \<or> unat (st_counter t) < unat (st_count_threshold t)"
  shows "fst (trigger_run n t) = map (\<lambda>j. unat (st_count_threshold t) dvd unat (st_counter t) + j + 1) [0..<n]"
  using assms
proof (induction n arbitrary: t)
  case (Suc n)
  let ?c = "unat (st_counter t)" and ?T = "unat (st_count_threshold t)"
  have upt: "[0..<Suc n] = 0 # map Suc [0..<n]" by (simp add: map_Suc_upt upt_conv_Cons del: upt_Suc)
  have c1: "?c + 1 < 2 ^ 32" using Suc.prems(1) by simp
  note st = trigger_step [OF c1 Suc.prems(2)]
  show ?case
  proof (cases "?c + 1 = ?T")
    case True
    have "fst (trigger_run n (inc_timestamp t)) = map (\<lambda>j. ?T dvd j + 1) [0..<n]"
      using Suc.IH [of "inc_timestamp t"] Suc.prems(1) True by (simp add: inc_timestamp_def)
    moreover have "?T dvd ?c + Suc j + 1 \<longleftrightarrow> ?T dvd j + 1" for j
    proof -
      have "?c + Suc j + 1 = ?T + (j + 1)" using True by simp
      then show ?thesis by (metis dvd_add_right_iff dvd_refl)
    qed
    ultimately show ?thesis using st(1) True unfolding upt by (simp add: split_beta Let_def comp_def)
  next
    case False
    have lt: "?T = 0 \<or> ?c + 1 < ?T" using Suc.prems(2) False by auto
    then have "\<not> ?T dvd ?c + 1" by (auto dest: nat_dvd_not_less)
    moreover have "fst (trigger_run n (t\<lparr>st_counter := st_counter t + 1\<rparr>)) = map (\<lambda>j. ?T dvd ?c + 1 + j + 1) [0..<n]"
      using Suc.IH [of "t\<lparr>st_counter := st_counter t + 1\<rparr>"] Suc.prems(1) lt st(2) by simp
    ultimately show ?thesis using st(1) False unfolding upt by (simp add: split_beta Let_def comp_def)
  qed
qed simp


section \<open>What the processes receive\<close>

fun sent_to :: "int \<Rightarrow> cm_output \<Rightarrow> stream option" where
  "sent_to p (SendTask q bin) = (if q = p then Some bin else None)"
| "sent_to p _ = None"

definition received :: "int \<Rightarrow> cm_output list \<Rightarrow> stream list" where
  "received p outs = List.map_filter (sent_to p) outs"

fun is_exit :: "cm_output \<Rightarrow> bool" where
  "is_exit (SendFinished p) \<longleftrightarrow> True"
| "is_exit _ \<longleftrightarrow> False"

lemma received_simps [simp]: "received p [] = []" "received p (xs @ ys) = received p xs @ received p ys"
  by (simp_all add: received_def map_filter_def)

lemma received_sockets: "distinct ps \<Longrightarrow> received p (map (\<lambda>q. SendTask q bin) ps) = (if p \<in> set ps then [bin] else [])"
  by (induction ps) (auto simp: received_def map_filter_def)

definition iterates :: "(Instance \<Rightarrow> int list) \<Rightarrow> bool" where
  "iterates ord \<longleftrightarrow> (\<forall>inst. finite (dom (inst_cluster inst)) \<longrightarrow> distinct (ord inst) \<and> set (ord inst) = dom (inst_cluster inst))"

text \<open>Instances of basic tasks that are not local; nothing has to move a model for them.\<close>

definition sendable :: "int set \<Rightarrow> Instance \<Rightarrow> bool" where
  "sendable ids inst \<longleftrightarrow> plain_task (inst_task inst) \<and> finite (dom (inst_cluster inst)) \<and> inst_id inst \<in> ids"

lemma plain_wf: "plain_task t \<Longrightarrow> task_wf t"
  by (auto simp: plain_task_def)

lemma sched_set_hist_finished [simp]: "sched_is_finished (sched_set_hist hm s) = sched_is_finished s"
  by (cases s) (simp_all add: greedy_is_finished_def sequential_is_finished_def tm_is_finished_def auto_is_finished_def)

lemma send_instances_plain:
  assumes "list_all (sendable ids) insts" "distinct (cm_send_sockets m)"
  shows "\<exists>outs m'. foldE (send_instance ord) insts (outs0, m) = Inr (outs0 @ outs, m') \<and> cm_send_sockets m' = cm_send_sockets m
     \<and> sched_is_finished (cm_task_scheduler m') = sched_is_finished (cm_task_scheduler m) \<and> list_all (\<lambda>out. \<not> is_exit out) outs
     \<and> (\<forall>p \<in> set (cm_send_sockets m). received p outs = map (\<lambda>inst. inst_serialize (ord inst) inst) insts)"
  using assms
proof (induction insts arbitrary: outs0 m)
  case (Cons inst insts)
  let ?new = "map (\<lambda>p. SendTask p (inst_serialize (ord inst) inst)) (cm_send_sockets m)"
  let ?m = "cm_set_last_instance inst m"
  have "\<not> t_local (base (inst_task inst))" using Cons.prems(1) by (auto simp: sendable_def plain_task_def)
  then have step: "send_instance ord inst (outs0, m) = Inr (outs0 @ ?new, ?m)" by (simp add: send_instance_def send_last_instance_def Let_def)
  have m: "cm_send_sockets ?m = cm_send_sockets m" "sched_is_finished (cm_task_scheduler ?m) = sched_is_finished (cm_task_scheduler m)"
    by (simp_all add: cm_set_last_instance_def)
  obtain outs m' where IH: "foldE (send_instance ord) insts (outs0 @ ?new, ?m) = Inr ((outs0 @ ?new) @ outs, m')" "cm_send_sockets m' = cm_send_sockets m"
     "sched_is_finished (cm_task_scheduler m') = sched_is_finished (cm_task_scheduler m)" "list_all (\<lambda>out. \<not> is_exit out) outs"
     "\<forall>p \<in> set (cm_send_sockets m). received p outs = map (\<lambda>inst. inst_serialize (ord inst) inst) insts"
    using Cons.IH [of ?m "outs0 @ ?new"] Cons.prems m by auto
  have "foldE (send_instance ord) (inst # insts) (outs0, m) = Inr (outs0 @ (?new @ outs), m')" using step IH(1) by simp
  moreover have "list_all (\<lambda>out. \<not> is_exit out) (?new @ outs)" using IH(4) by (auto simp: list_all_iff)
  moreover have "\<forall>p \<in> set (cm_send_sockets m). received p (?new @ outs) = map (\<lambda>inst. inst_serialize (ord inst) inst) (inst # insts)"
    using IH(5) Cons.prems(2) by (simp add: received_sockets)
  ultimately show ?case using IH(2,3) by blast
qed simp

lemma setup_plain_instance:
  assumes "plain_task t" "0 \<le> t_num_workers (base t)" "instance_basic_setup t = Inr inst"
  shows "plain_task (inst_task inst)" "inst_cluster inst = Map.empty"
  using assms by (auto simp: plain_task_def instance_basic_setup_def new_Instance_def set_task_def inst_set_num_workers_def set_num_workers_def res_simps)

lemma place_finite: "finite (dom (inst_cluster (place_from j sel inst))) = finite (dom (inst_cluster inst))"
proof (induction j sel inst rule: place_from.induct)
  case (2 j pid tid sel inst)
  have "dom (inst_cluster (add_thread pid tid j inst)) = insert pid (dom (inst_cluster inst))" by (simp add: add_thread_def)
  then show ?case using 2 by simp
qed simp

lemma greedy_sendable:
  assumes "\<And>k. env_ok (es k)" "greedy_inv s" "threads_ok s" "list_all plain_task (gr_tasks s)" "greedy_extract_instances es s = Some (Inr (insts, s'))"
  shows "list_all (sendable ((\<lambda>t. t_id (base t)) ` set (gr_tasks s))) insts"
proof -
  let ?ids = "(\<lambda>t. t_id (base t)) ` set (gr_tasks s)"
  let ?I = "\<lambda>(insts, s1). greedy_inv s1 \<and> threads_ok s1 \<and> gr_tasks s1 = gr_tasks s \<and> list_all (sendable ?ids) insts"
  have "?I (insts, s')"
  proof (rule foldO_invariant [of "greedy_step es" "[0..<length (gr_tasks s)]" "([], s)" "(insts, s')" ?I])
    fix i a b assume i: "i \<in> set [0..<length (gr_tasks s)]" and a: "?I a" and b: "greedy_step es i a = Some (Inr b)"
    obtain insts s1 insts' s2 where ab: "a = (insts, s1)" "b = (insts', s2)" by fastforce
    have s1: "greedy_inv s1" "threads_ok s1" "gr_tasks s1 = gr_tasks s" "list_all (sendable ?ids) insts" using a ab by simp_all
    have t: "gr_tasks s ! i \<in> set (gr_tasks s)" "plain_task (gr_tasks s ! i)" using i assms(4) by (simp_all add: list_all_length)
    have pos: "0 \<le> t_num_workers (base (gr_tasks s ! i))"
      using s1(1,3) i by (auto simp: greedy_inv_def greedy_sync_def list_all2_conv_all_nth entry_sync_def)
    have s2: "step_result i s1 s2" "greedy_inv s2" using step_inv [of s1 es i insts insts' s2] s1 i b ab assms(1) [of i] by auto
    have "list_all (sendable ?ids) insts'"
      using greedy_step_instances [OF b [unfolded ab]]
    proof
      assume "\<exists>inst sel. insts' = insts @ [place_from 0 sel inst] \<and> instance_basic_setup (gr_tasks s1 ! i) = Inr inst"
      then obtain inst sel where inst: "insts' = insts @ [place_from 0 sel inst]" "instance_basic_setup (gr_tasks s ! i) = Inr inst" using s1(3) by auto
      have "inst_id (place_from 0 sel inst) = t_id (base (gr_tasks s ! i))" using setup_instance [OF inst(2)] by (simp add: inst_id_def)
      then show ?thesis using inst(1) s1(4) t(1) setup_plain_instance [OF t(2) pos inst(2)] by (simp add: sendable_def place_finite)
    qed (use s1(4) in simp)
    then show "?I b" using s2 s1(3) ab by (simp add: step_result_def keeps_def)
  qed (use assms in \<open>simp_all add: greedy_extract_instances_def\<close>)
  then show ?thesis by simp
qed


lemma handle_init_greedy:
  assumes "cluster_ok ci" "distinct sockets" "hm = hm_start (nat (ci_num_processes ci)) hm0" "hm_history hm0 = Map.empty" "\<And>k. env_ok (es k)" "iterates ord"
    and "tasks \<noteq> []" "new_tasks tasks" "list_all plain_task tasks" "greedy_init_tasks tasks (mk_GreedyTaskScheduler ci hm) = Inr s"
    and "cm_send_sockets m = sockets" "cm_task_scheduler m = Greedy s"
  shows "\<exists>insts outs m'. extract_instaces es ord m = Some (Inr (outs, m')) \<and> insts \<noteq> [] \<and> list_all (\<lambda>out. \<not> is_exit out) outs
     \<and> list_all (sendable ((\<lambda>t. t_id (base t)) ` set tasks)) insts
     \<and> (\<forall>p \<in> set sockets. map inst_deserialize (received p outs) = map (\<lambda>inst. Inr (inst, [])) insts)"
proof -
  have hm: "started_history ci hm" using assms(1,3,4) by (simp add: started_history_def hist_ok_def hm_start_def cluster_ok_def)
  note g = greedy_started [OF assms(1) hm assms(8,10)]
  have plain: "\<forall>t \<in> set (gr_tasks s). plain_task t" using g(5) assms(9) by (simp add: list_all_iff)
  obtain insts s' where r: "greedy_extract_instances es s = Some (Inr (insts, s'))" "greedy_inv s'" "gr_tasks s' = tasks"
    "\<forall>i < length tasks. gr_status s' ! i = 0 \<longrightarrow> int (card (free (sc_pool s'))) < threads_needed (tasks ! i)"
    "insts = [] \<longrightarrow> gr_status s' = gr_status s \<and> free (sc_pool s') = free (sc_pool s)"
    using greedy_extract_plain [of es s, OF _ g(1,2) plain order_refl] assms(5) unfolding greedy_extract_instances_def g(5) by blast
  have free: "free (sc_pool s) = cluster_threads ci"
    using assms(10) init_pool_ok(2) [of ci] by (auto simp: greedy_init_tasks_def mk_GreedyTaskScheduler_def cluster_threads_def res_simps)
  have "insts \<noteq> []"
  proof
    assume "insts = []"
    then have "int (card (cluster_threads ci)) < threads_needed (tasks ! 0)" using r(4,5) g(6) free assms(7) by auto
    then show False using plain_fits [OF assms(1,10,9) refl, of "tasks ! 0"] assms(7) by simp
  qed
  moreover have sendable: "list_all (sendable ((\<lambda>t. t_id (base t)) ` set tasks)) insts"
    using greedy_sendable [of es s, OF _ g(1,2) _ r(1)] assms(5,9) g(5) by simp
  moreover have "gr_status s' \<noteq> [] \<and> \<not> greedy_is_finished s'"
  proof -
    have "list_all2 (entry_sync (sc_track s')) tasks (gr_status s')" using r(2,3) by (simp add: greedy_inv_def greedy_sync_def)
    moreover have "t_current_epoch (base (tasks ! 0)) \<noteq> t_total_epoch (base (tasks ! 0))"
      using assms(7,8) by (cases tasks) (auto simp: new_tasks_def new_task_def)
    ultimately show ?thesis using assms(7)
      by (cases tasks; cases "gr_status s'") (auto simp: greedy_is_finished_def entry_sync_def)
  qed
  moreover obtain outs m' where o: "send_instances ord insts (m\<lparr>cm_task_scheduler := Greedy s'\<rparr>) = Inr (outs, m')"
     "sched_is_finished (cm_task_scheduler m') = greedy_is_finished s'" "list_all (\<lambda>out. \<not> is_exit out) outs"
     "\<forall>p \<in> set sockets. received p outs = map (\<lambda>inst. inst_serialize (ord inst) inst) insts"
    using send_instances_plain [OF sendable, of "m\<lparr>cm_task_scheduler := Greedy s'\<rparr>" ord "[]"] assms(2,11) by (auto simp: send_instances_def)
  moreover have "inst_deserialize (inst_serialize (ord inst) inst) = Inr (inst, [])" if "inst \<in> set insts" for inst
    using inst_read [of inst "ord inst" "[]"] assms(6) sendable that by (auto simp: list_all_iff sendable_def iterates_def plain_wf)
  moreover have "sched_extract_instances es (cm_task_scheduler m) = Some (Inr (insts, Greedy s'))" using r(1) assms(12) by simp
  moreover from this o(1,2) \<open>gr_status s' \<noteq> [] \<and> \<not> greedy_is_finished s'\<close> have "extract_instaces es ord m = Some (Inr (outs, m'))"
    by (simp add: extract_instaces_def)
  ultimately show ?thesis by (intro exI [of _ insts] exI [of _ outs] exI [of _ m']) simp
qed

lemma first_tasks_of_calls:
  assumes "list_all (\<lambda>(t, f). P t) calls" "tasks = map (\<lambda>i. fst (the (first_tasks calls i))) (first_ids calls)"
  shows "list_all P tasks" "map (\<lambda>t. t_id (base t)) tasks = first_ids calls"
proof -
  have t: "P (fst (the (first_tasks calls i))) \<and> t_id (base (fst (the (first_tasks calls i)))) = i" if "i \<in> set (first_ids calls)" for i
  proof -
    have "i \<in> fst ` set (map (\<lambda>(t, f). (t_id (base t), (t, f))) calls)" using that by (simp add: first_ids_def image_image split_beta)
    then have "first_tasks calls i \<noteq> None" unfolding first_tasks_def map_of_eq_None_iff by blast
    then obtain x where "first_tasks calls i = Some x" by blast
    moreover from this have "(i, x) \<in> set (map (\<lambda>(t, f). (t_id (base t), (t, f))) calls)" unfolding first_tasks_def by (rule map_of_SomeD)
    ultimately show ?thesis using assms(1) by (auto simp: list_all_iff)
  qed
  then show "list_all P tasks" "map (\<lambda>t. t_id (base t)) tasks = first_ids calls"
    using assms(2) by (auto simp: list_all_iff comp_def intro: map_idI)
qed

lemma guarantee_plain_ok:
  assumes "list_all plain_task tasks" "list_all (\<lambda>t. t_num_workers (base t) \<le> ci_num_workers ci) tasks"
  shows "global_guarantee_threads ci tasks = Inr ()"
  using assms by (induction tasks) (auto simp: plain_task_def)

section \<open>Properties\<close>

text \<open>
  The trigger counts finished threads: starting from a cleared counter, as long as the 32-bit counter does not wrap, the call number \<open>j + 1\<close> of
  \<^verbatim>\<open>has_enough_new_threads\<close> asks for scheduling exactly when the threshold divides \<open>j + 1\<close>. So the threads that finish after the last
  multiple of the threshold ask for nothing, and with threshold 0 none does.
\<close>

theorem trigger_periodic:
  assumes "st_counter t = 0" "n < 2 ^ 32"
  shows "fst (trigger_run n t) = map (\<lambda>j. unat (st_count_threshold t) dvd j + 1) [0..<n]"
  using trigger_run_periodic [of t n] assms by (cases "unat (st_count_threshold t)") simp_all

theorem trigger_periodic_witness:
  "fst (trigger_run 5 (set_count_threshold 3 mk_SchedulerTrigger)) = [False, False, True, False, False]"
  using trigger_periodic [of "set_count_threshold 3 mk_SchedulerTrigger" 5]
  by (simp add: set_count_threshold_def mk_SchedulerTrigger_def upt_rec dvd_eq_mod_eq_0)


text \<open>Process ids as the domain of a finite map, in increasing order.\<close>

definition sorted_procs :: "Instance \<Rightarrow> int list" where
  "sorted_procs inst = sorted_list_of_set (dom (inst_cluster inst))"


end
