(* ===== verification/Worker_Runtime.thy ===== *)
theory Worker_Runtime
  imports Cluster_Manager
begin

text \<open>
  The runtime of a process: \<^verbatim>\<open>core/info.hpp\<close>, \<^verbatim>\<open>core/utility.hpp\<close>, \<^verbatim>\<open>worker/instance_runner.hpp\<close> and \<^verbatim>\<open>.cpp\<close>,
  \<^verbatim>\<open>worker/worker.cpp\<close>, \<^verbatim>\<open>worker/model_transfer_store.cpp\<close> and \<^verbatim>\<open>model_transfer_manager.cpp\<close>.

  A unit of the runner is the thread it runs, or nothing. The body of a thread is the call of the user's function that it makes and the message that it sends
  when the call has returned; the user's function itself is not part of the program. Husky's translation between global and local thread ids is a pair of functions
  in the record of the process. \<open>ord\<close> is the order in which the map of an instance is iterated.
\<close>

section \<open>Model\<close>

subsection \<open>Infos\<close>

record LocalInfo = WorkerInfo +
  wi_global_to_local :: "int \<Rightarrow> int"
  wi_local_to_global :: "int \<Rightarrow> int"
  wi_num_local_workers :: nat

record Info =
  in_local_id :: int
  in_global_id :: int
  in_cluster_id :: int
  in_current_epoch :: int
  in_process_id :: int
  in_workers :: "(int \<times> int \<times> int) list"      \<comment> \<open>\<^verbatim>\<open>add_worker(process, global id, local id)\<close>\<close>
  in_cluster_global :: "int \<rightharpoonup> int"
  in_task :: Task
  in_leader :: bool

definition instance_to_info :: "(Instance \<Rightarrow> int list) \<Rightarrow> Instance \<Rightarrow> LocalInfo \<Rightarrow> int \<times> int \<Rightarrow> bool \<Rightarrow> Info" where
  "instance_to_info ord inst w tid_cid is_leader =
     (let threads = concat (map (\<lambda>proc_id. map (\<lambda>(tid, cid). (proc_id, tid, cid)) (get_threads proc_id inst)) (ord inst)) in
      \<lparr>in_local_id = fst tid_cid, in_global_id = wi_local_to_global w (fst tid_cid), in_cluster_id = snd tid_cid, in_current_epoch = inst_epoch inst,
       in_process_id = int (wi_process_id w),
       in_workers = map (\<lambda>(proc_id, tid, cid). (proc_id, tid, wi_global_to_local w tid)) threads,
       in_cluster_global = map_of (map (\<lambda>(proc_id, tid, cid). (cid, tid)) threads),
       in_task = inst_task inst, in_leader = is_leader\<rparr>)"

definition info_get_tid :: "int \<Rightarrow> Info \<Rightarrow> error + int" where
  "info_get_tid cluster_id info = (case in_cluster_global info cluster_id of None \<Rightarrow> Inl UndefinedBehaviour | Some tid \<Rightarrow> Inr tid)"

definition get_total_epoch :: "Info \<Rightarrow> int" where
  "get_total_epoch info = t_total_epoch (base (in_task info))"

definition get_task_id :: "Info \<Rightarrow> int" where
  "get_task_id info = t_id (base (in_task info))"

subsection \<open>The runner\<close>

record unit_thread =
  ut_instance :: Instance
  ut_tid_cid :: "int \<times> int"
  ut_leader :: bool

record InstanceRunner =
  ir_instances :: "int \<rightharpoonup> Instance"
  ir_keeper :: "int \<rightharpoonup> int set"
  ir_units :: "unit_thread option list"      \<comment> \<open>\<open>Some\<close>: joinable\<close>

definition mk_InstanceRunner :: "LocalInfo \<Rightarrow> InstanceRunner" where
  "mk_InstanceRunner w = \<lparr>ir_instances = Map.empty, ir_keeper = Map.empty, ir_units = replicate (wi_num_local_workers w) None\<rparr>"

text \<open>What the thread of a unit does before it sends its message: a function of the store or the lambda of an auto-parallelism task is called.\<close>

datatype udf_call = RunFunc nat Info | RunEpochLambda Task Info int

definition unit_call :: "(Instance \<Rightarrow> int list) \<Rightarrow> LocalInfo \<Rightarrow> TaskStore \<Rightarrow> unit_thread \<Rightarrow> error + udf_call" where
  "unit_call ord w ts u =
     (let inst = ut_instance u; info = instance_to_info ord inst w (ut_tid_cid u) (ut_leader u) in
      case ts_task_map ts (inst_id inst) of
        None \<Rightarrow> Inl UndefinedBehaviour
      | Some (task, func) \<Rightarrow>
          if t_type (base (inst_task inst)) = AutoParallelismTaskType then
            (case (task, inst_task inst) of
               (AutoParallelism _ _ _ _, AutoParallelism _ _ iters _) \<Rightarrow> Inr (RunEpochLambda task info iters)
             | _ \<Rightarrow> Inl UndefinedBehaviour)
          else Inr (RunFunc func info))"

definition extract_local_instance :: "LocalInfo \<Rightarrow> Instance \<Rightarrow> (int \<times> int) list" where
  "extract_local_instance w inst = map (\<lambda>(tid, cid). (wi_global_to_local w tid, cid)) (get_threads (int (wi_process_id w)) inst)"

definition unit_at :: "int \<Rightarrow> InstanceRunner \<Rightarrow> error + unit_thread option" where
  "unit_at tid r = (if tid < 0 then Inl UndefinedBehaviour else vec_get (ir_units r) (nat tid))"

definition assign_worker :: "int \<times> int \<Rightarrow> Instance \<Rightarrow> bool \<Rightarrow> InstanceRunner \<Rightarrow> error + InstanceRunner" where
  "assign_worker tid_cid inst is_leader r =
     bindE (vec_set (ir_units r) (nat (fst tid_cid)) (Some \<lparr>ut_instance = inst, ut_tid_cid = tid_cid, ut_leader = is_leader\<rparr>)) (\<lambda>us. Inr (r\<lparr>ir_units := us\<rparr>))"

definition start_unit :: "Instance \<Rightarrow> nat \<times> (int \<times> int) \<Rightarrow> InstanceRunner \<Rightarrow> error + InstanceRunner" where
  "start_unit inst = (\<lambda>(k, tid_cid) r.
     bindE (unit_at (fst tid_cid) r) (\<lambda>u. bindE (assertE (u = None)) (\<lambda>_. assign_worker tid_cid inst (k = 0) r)))"

definition run_instance :: "LocalInfo \<Rightarrow> Instance \<Rightarrow> InstanceRunner \<Rightarrow> error + InstanceRunner" where
  "run_instance w inst r =
     bindE (assertE (ir_instances r (inst_id inst) = None)) (\<lambda>_.
     let local_threads = extract_local_instance w inst in
     if local_threads = [] then Inr r
     else
       bindE (foldE (start_unit inst) (List.enumerate 0 local_threads) (r\<lparr>ir_instances := (ir_instances r)(inst_id inst \<mapsto> inst)\<rparr>)) (\<lambda>r.
       Inr (case ir_keeper r (inst_id inst) of
              None \<Rightarrow> r\<lparr>ir_keeper := (ir_keeper r)(inst_id inst \<mapsto> fst ` set local_threads)\<rparr>
            | Some _ \<Rightarrow> r)))"

text \<open>\<^verbatim>\<open>instance_keeper_[id]\<close> makes an empty entry where there is none.\<close>

definition keeper_at :: "int \<Rightarrow> InstanceRunner \<Rightarrow> int set" where
  "keeper_at i r = (case ir_keeper r i of None \<Rightarrow> {} | Some ts \<Rightarrow> ts)"

definition runner_finish_thread :: "int \<Rightarrow> int \<Rightarrow> InstanceRunner \<Rightarrow> error + InstanceRunner" where
  "runner_finish_thread instance_id tid r =
     (let r = r\<lparr>ir_keeper := (ir_keeper r)(instance_id \<mapsto> keeper_at instance_id r - {tid})\<rparr> in
      bindE (unit_at tid r) (\<lambda>u.
      if u = None then Inl UndefinedBehaviour else Inr (r\<lparr>ir_units := (ir_units r)[nat tid := None]\<rparr>)))"

definition is_instance_done :: "int \<Rightarrow> InstanceRunner \<Rightarrow> bool \<times> InstanceRunner" where
  "is_instance_done instance_id r =
     (keeper_at instance_id r = {}, r\<lparr>ir_keeper := (ir_keeper r)(instance_id \<mapsto> keeper_at instance_id r)\<rparr>)"

definition remove_instance :: "int \<Rightarrow> InstanceRunner \<Rightarrow> error + InstanceRunner" where
  "remove_instance instance_id r =
     bindE (assertE (keeper_at instance_id r = {})) (\<lambda>_.
     Inr (r\<lparr>ir_instances := (ir_instances r)(instance_id := None), ir_keeper := (ir_keeper r)(instance_id := None)\<rparr>))"

subsection \<open>The loop of the worker\<close>

datatype worker_message =
    TaskType stream
  | ThreadFinished int int
  | DirectTransfer int int
  | TasksFinished
  | OtherWorkerType int

datatype worker_output =
    ToClusterManager cm_message
  | ToModelTransferManager int int

definition send_exit :: "LocalInfo \<Rightarrow> worker_output list" where
  "send_exit w = (if wi_process_id w = 0 then [ToClusterManager ClusterManagerExit] else [])"

definition send_thread_finished :: "LocalInfo \<Rightarrow> int \<Rightarrow> int \<Rightarrow> worker_output" where
  "send_thread_finished w instance_id thread_id = ToClusterManager (ClusterManagerThreadFinished instance_id (wi_local_to_global w thread_id))"

fun worker_handle :: "LocalInfo \<Rightarrow> worker_message \<Rightarrow> InstanceRunner \<Rightarrow> error + (bool \<times> worker_output list \<times> InstanceRunner)" where
  "worker_handle w (TaskType bin) r =
     bindE (inst_deserialize bin) (\<lambda>(inst, rest). bindE (run_instance w inst r) (\<lambda>r. Inr (True, [], r)))"
| "worker_handle w (ThreadFinished instance_id thread_id) r =
     bindE (runner_finish_thread instance_id thread_id r) (\<lambda>r.
     let outs = [send_thread_finished w instance_id thread_id]; (is_done, r) = is_instance_done instance_id r in
     if is_done then bindE (remove_instance instance_id r) (\<lambda>r. Inr (True, outs, r)) else Inr (True, outs, r))"
| "worker_handle w (DirectTransfer dst model_id) r = Inr (True, [ToModelTransferManager dst model_id], r)"
| "worker_handle w TasksFinished r = Inr (False, [], r)"
| "worker_handle w (OtherWorkerType ty) r = Inl (UnknownCmd ty)"

fun main_loop :: "LocalInfo \<Rightarrow> worker_message list \<Rightarrow> worker_output list \<Rightarrow> InstanceRunner \<Rightarrow> error + (worker_output list \<times> InstanceRunner)" where
  "main_loop w [] outs r = Inr (outs, r)"
| "main_loop w (msg # msgs) outs r =
     bindE (worker_handle w msg r) (\<lambda>(continue, new, r). if continue then main_loop w msgs (outs @ new) r else Inr (outs @ new, r))"

subsection \<open>Direct transfer of models\<close>

type_synonym ModelTransferStore = "int \<rightharpoonup> stream"

definition Add :: "int \<Rightarrow> stream \<Rightarrow> ModelTransferStore \<Rightarrow> ModelTransferStore" where
  "Add i bin ms = (case ms i of None \<Rightarrow> ms(i \<mapsto> bin) | Some _ \<Rightarrow> ms)"

definition Pop :: "int \<Rightarrow> ModelTransferStore \<Rightarrow> error + (stream \<times> ModelTransferStore)" where
  "Pop i ms = (case ms i of None \<Rightarrow> Inl AssertFailed | Some bin \<Rightarrow> Inr (bin, ms(i := None)))"

definition transfer_Clear :: "ModelTransferStore \<Rightarrow> ModelTransferStore" where
  "transfer_Clear ms = Map.empty"

text \<open>The mailbox of a process, as \<^verbatim>\<open>Serve\<close> registers it.\<close>

definition transfer_tid :: "WorkerInfo \<Rightarrow> nat \<Rightarrow> nat" where
  "transfer_tid w i = 2 * wi_num_workers w + wi_num_processes w * 20 + i"

datatype transfer_message = CmdTask int int | CmdHalt | CmdOther int

text \<open>The loop: the models that are sent, each with its destination, in order.\<close>

fun transfer_Main :: "transfer_message list \<Rightarrow> ModelTransferStore \<Rightarrow> error + ((int \<times> stream) list \<times> ModelTransferStore)" where
  "transfer_Main [] ms = Inr ([], ms)"
| "transfer_Main (CmdTask dst task_id # msgs) ms =
     bindE (Pop task_id ms) (\<lambda>(bin, ms). bindE (transfer_Main msgs ms) (\<lambda>(sent, ms). Inr ((dst, bin) # sent, ms)))"
| "transfer_Main (CmdHalt # msgs) ms = Inr ([], ms)"
| "transfer_Main (CmdOther ty # msgs) ms = Inl (UnknownCmd ty)"


section \<open>Starting and finishing\<close>

definition started_unit :: "Instance \<Rightarrow> (int \<times> int) list \<Rightarrow> nat \<Rightarrow> unit_thread" where
  "started_unit inst threads j = \<lparr>ut_instance = inst, ut_tid_cid = threads ! j, ut_leader = (j = 0)\<rparr>"

definition units_free :: "int list \<Rightarrow> InstanceRunner \<Rightarrow> bool" where
  "units_free tids r \<longleftrightarrow> distinct tids \<and> (\<forall>t \<in> set tids. 0 \<le> t \<and> nat t < length (ir_units r) \<and> ir_units r ! nat t = None)"

lemma nat_fresh: "0 \<le> x \<Longrightarrow> \<forall>t \<in> A. 0 \<le> t \<Longrightarrow> x \<notin> A \<Longrightarrow> nat x \<notin> nat ` A"
  by (metis image_iff int_nat_eq)

lemma start_units:
  assumes "units_free (map fst threads) r"
  shows "\<exists>us. foldE (start_unit inst) (List.enumerate 0 threads) r = Inr (r\<lparr>ir_units := us\<rparr>) \<and> length us = length (ir_units r)
     \<and> (\<forall>j < length threads. us ! nat (fst (threads ! j)) = Some (started_unit inst threads j))
     \<and> (\<forall>i. i \<notin> nat ` fst ` set threads \<longrightarrow> us ! i = ir_units r ! i)"
  using assms
proof (induction threads rule: rev_induct)
  case (snoc x xs)
  have free: "units_free (map fst xs) r" "0 \<le> fst x" "nat (fst x) < length (ir_units r)" "ir_units r ! nat (fst x) = None" "fst x \<notin> fst ` set xs" "\<forall>t \<in> fst ` set xs. 0 \<le> t"
    using snoc.prems by (auto simp: units_free_def)
  obtain us where us: "foldE (start_unit inst) (List.enumerate 0 xs) r = Inr (r\<lparr>ir_units := us\<rparr>)" "length us = length (ir_units r)"
     "\<forall>j < length xs. us ! nat (fst (xs ! j)) = Some (started_unit inst xs j)" "\<forall>i. i \<notin> nat ` fst ` set xs \<longrightarrow> us ! i = ir_units r ! i"
    using snoc.IH [OF free(1)] by blast
  have new: "nat (fst x) \<notin> nat ` fst ` set xs" using nat_fresh [OF free(2,6,5)] .
  let ?us = "us[nat (fst x) := Some \<lparr>ut_instance = inst, ut_tid_cid = x, ut_leader = (length xs = 0)\<rparr>]"
  have "foldE (start_unit inst) (List.enumerate 0 (xs @ [x])) r = Inr (r\<lparr>ir_units := ?us\<rparr>)"
    using us(1,2,4) free new by (simp add: enumerate_append_eq foldE_append start_unit_def unit_at_def vec_get_def vec_set_def assign_worker_def)
  moreover have "?us ! nat (fst ((xs @ [x]) ! j)) = Some (started_unit inst (xs @ [x]) j)" if "j < length (xs @ [x])" for j
  proof (cases "j < length xs")
    case True
    then have "nat (fst (xs ! j)) \<noteq> nat (fst x)" using new by (metis imageI nth_mem)
    then show ?thesis using True us(3) by (simp add: started_unit_def nth_append)
  next
    case False
    then have "j = length xs" using that by simp
    then show ?thesis using us(2) free(3) by (simp add: started_unit_def)
  qed
  moreover have "?us ! i = ir_units r ! i" if "i \<notin> nat ` fst ` set (xs @ [x])" for i using that us(4) by (simp add: nth_list_update)
  ultimately show ?case using us(2) by (intro exI [of _ ?us]) simp
qed (auto intro: exI [of _ "ir_units r"])

definition units_running :: "int list \<Rightarrow> InstanceRunner \<Rightarrow> bool" where
  "units_running tids r \<longleftrightarrow> (\<forall>t \<in> set tids. 0 \<le> t \<and> nat t < length (ir_units r) \<and> ir_units r ! nat t \<noteq> None)"

definition stop_units :: "int list \<Rightarrow> unit_thread option list \<Rightarrow> unit_thread option list" where
  "stop_units tids us = fold (\<lambda>t us. us[nat t := None]) tids us"

lemma stop_units_simps [simp]:
  "stop_units [] us = us" "stop_units (t # tids) us = stop_units tids (us[nat t := None])" "length (stop_units tids us) = length us"
proof -
  show "length (stop_units tids us) = length us" unfolding stop_units_def by (induction tids arbitrary: us) simp_all
qed (simp_all add: stop_units_def)

lemma stop_units_nth: "i < length us \<Longrightarrow> stop_units tids us ! i = (if i \<in> nat ` set tids then None else us ! i)"
  by (induction tids arbitrary: us) (auto simp: nth_list_update)

lemma finish_step:
  assumes "ir_keeper r i = Some ts" "units_running [t] r" "ts - {t} \<noteq> {}"
  shows "worker_handle w (ThreadFinished i t) r = Inr (True, [send_thread_finished w i t], r\<lparr>ir_keeper := (ir_keeper r)(i \<mapsto> ts - {t}), ir_units := (ir_units r)[nat t := None]\<rparr>)"
  using assms by (auto simp: runner_finish_thread_def unit_at_def vec_get_def keeper_at_def is_instance_done_def units_running_def Let_def)

lemma finish_some:
  assumes "ir_keeper r i = Some (set (xs @ ys))" "distinct (xs @ ys)" "units_running (xs @ ys) r" "ys \<noteq> []"
  shows "main_loop w (map (ThreadFinished i) xs @ msgs) outs r
     = main_loop w msgs (outs @ map (send_thread_finished w i) xs) (r\<lparr>ir_keeper := (ir_keeper r)(i \<mapsto> set ys), ir_units := stop_units xs (ir_units r)\<rparr>)"
  using assms
proof (induction xs arbitrary: r outs)
  case (Cons x xs)
  let ?r = "r\<lparr>ir_keeper := (ir_keeper r)(i \<mapsto> set (xs @ ys)), ir_units := (ir_units r)[nat x := None]\<rparr>"
  have "set (x # xs @ ys) - {x} = set (xs @ ys)" using Cons.prems(2) by auto
  then have "worker_handle w (ThreadFinished i x) r = Inr (True, [send_thread_finished w i x], ?r)"
    using finish_step [of r i "set (x # xs @ ys)" x w] Cons.prems by (simp add: units_running_def)
  moreover have "units_running (xs @ ys) ?r"
    unfolding units_running_def
  proof
    fix t assume t: "t \<in> set (xs @ ys)"
    have run: "0 \<le> t" "0 \<le> x" "nat t < length (ir_units r)" "ir_units r ! nat t \<noteq> None" using Cons.prems(3) t by (auto simp: units_running_def)
    moreover have "t \<noteq> x" using t Cons.prems(2) by auto
    ultimately show "0 \<le> t \<and> nat t < length (ir_units ?r) \<and> ir_units ?r ! nat t \<noteq> None" by (simp add: nth_list_update)
  qed
  ultimately show ?case using Cons.IH [of ?r "outs @ [send_thread_finished w i x]"] Cons.prems by (simp cong: if_cong)
next
  case Nil
  then have "(ir_keeper r)(i \<mapsto> set ys) = ir_keeper r" by (simp add: fun_upd_idem)
  then show ?case by simp
qed

lemma finish_all:
  assumes "ir_keeper r i = Some (set order)" "distinct order" "units_running order r" "order \<noteq> []"
  shows "main_loop w (map (ThreadFinished i) order @ msgs) outs r = main_loop w msgs (outs @ map (send_thread_finished w i) order)
     (r\<lparr>ir_instances := (ir_instances r)(i := None), ir_keeper := (ir_keeper r)(i := None), ir_units := stop_units order (ir_units r)\<rparr>)"
proof -
  obtain xs t where o: "order = xs @ [t]" using assms(4) by (metis rev_exhaust)
  let ?r = "r\<lparr>ir_keeper := (ir_keeper r)(i \<mapsto> {t}), ir_units := stop_units xs (ir_units r)\<rparr>"
  have run: "0 \<le> t" "nat t < length (ir_units r)" "ir_units r ! nat t \<noteq> None" "\<forall>x \<in> set xs. 0 \<le> x" "t \<notin> set xs" using assms(2,3) o by (auto simp: units_running_def)
  then have "nat t \<notin> nat ` set xs" using nat_fresh [of t "set xs"] by blast
  then have t: "ir_units ?r ! nat t \<noteq> None" "nat t < length (ir_units ?r)" using run by (simp_all add: stop_units_nth)
  have "main_loop w (map (ThreadFinished i) order @ msgs) outs r = main_loop w (ThreadFinished i t # msgs) (outs @ map (send_thread_finished w i) xs) ?r"
    using finish_some [of r i xs "[t]" w "ThreadFinished i t # msgs" outs] assms o by simp
  moreover have "stop_units order (ir_units r) = (stop_units xs (ir_units r))[nat t := None]" by (simp add: o stop_units_def)
  ultimately show ?thesis using t run(1) o by (cases r)
    (auto simp: runner_finish_thread_def unit_at_def vec_get_def keeper_at_def is_instance_done_def remove_instance_def Let_def)
qed


lemma run_instance_ok:
  assumes "units_free (map fst (extract_local_instance w inst)) r" "extract_local_instance w inst \<noteq> []" "ir_instances r (inst_id inst) = None" "ir_keeper r (inst_id inst) = None"
  shows "\<exists>us. run_instance w inst r = Inr (r\<lparr>ir_instances := (ir_instances r)(inst_id inst \<mapsto> inst),
       ir_keeper := (ir_keeper r)(inst_id inst \<mapsto> fst ` set (extract_local_instance w inst)), ir_units := us\<rparr>) \<and> length us = length (ir_units r)
     \<and> (\<forall>j < length (extract_local_instance w inst). us ! nat (fst (extract_local_instance w inst ! j)) = Some (started_unit inst (extract_local_instance w inst) j))
     \<and> (\<forall>i. i \<notin> nat ` fst ` set (extract_local_instance w inst) \<longrightarrow> us ! i = ir_units r ! i)"
proof -
  let ?th = "extract_local_instance w inst" and ?r = "r\<lparr>ir_instances := (ir_instances r)(inst_id inst \<mapsto> inst)\<rparr>"
  have "units_free (map fst ?th) ?r" using assms(1) by (simp add: units_free_def)
  then obtain us where us: "foldE (start_unit inst) (List.enumerate 0 ?th) ?r = Inr (?r\<lparr>ir_units := us\<rparr>)" "length us = length (ir_units r)"
     "\<forall>j < length ?th. us ! nat (fst (?th ! j)) = Some (started_unit inst ?th j)" "\<forall>i. i \<notin> nat ` fst ` set ?th \<longrightarrow> us ! i = ir_units r ! i"
    using start_units [of ?th ?r inst] by auto
  have "run_instance w inst r = Inr (r\<lparr>ir_instances := (ir_instances r)(inst_id inst \<mapsto> inst), ir_keeper := (ir_keeper r)(inst_id inst \<mapsto> fst ` set ?th), ir_units := us\<rparr>)"
    using us(1) assms(2-4) by (simp add: run_instance_def Let_def)
  then show ?thesis using us(2-4) by blast
qed

section \<open>Properties\<close>

text \<open>What Husky promises of the two translations, for the threads of an instance on this process.\<close>

definition local_ids_ok :: "LocalInfo \<Rightarrow> Instance \<Rightarrow> bool" where
  "local_ids_ok w inst \<longleftrightarrow> list_all (\<lambda>(tid, cid). wi_local_to_global w (wi_global_to_local w tid) = tid) (get_threads (int (wi_process_id w)) inst)"

lemma stop_restores:
  assumes "units_free tids r" "set order = set tids" "length us = length (ir_units r)" "\<forall>i. i \<notin> nat ` set tids \<longrightarrow> us ! i = ir_units r ! i"
  shows "stop_units order us = ir_units r"
proof (rule nth_equalityI)
  fix i assume i: "i < length (stop_units order us)"
  show "stop_units order us ! i = ir_units r ! i"
  proof (cases "i \<in> nat ` set order")
    case True
    then have "ir_units r ! i = None" using assms(1,2) by (auto simp: units_free_def)
    then show ?thesis using True i by (simp add: stop_units_nth)
  next
    case False
    then show ?thesis using assms(2,4) i by (simp add: stop_units_nth)
  qed
qed (simp add: assms(3))

text \<open>
  C31. An instance on one process. When the message with the instance arrives and its threads are free, the worker starts it on exactly the threads that the cluster manager
  chose for this process, the first of them as the leader. Whatever the order in which these threads finish, the instance stays registered until the last has finished; each finished thread is
  reported to the cluster manager once, with its global id; and afterwards the worker is in the state in which the message found it.
  Scope: an instance with at least one thread on the process, which is not registered yet and whose threads are free.
\<close>

theorem worker_runs_instance:
  fixes w :: LocalInfo
  defines "local_threads \<equiv> extract_local_instance w"
  assumes "task_wf (inst_task inst)" "distinct procs" "set procs = dom (inst_cluster inst)" "bin = inst_serialize procs inst"
    and "local_threads inst \<noteq> []" "units_free (map fst (local_threads inst)) r" "local_ids_ok w inst"
    and "ir_instances r (inst_id inst) = None" "ir_keeper r (inst_id inst) = None" "mset order = mset (map fst (local_threads inst))"
  shows "\<exists>r1. worker_handle w (TaskType bin) r = Inr (True, [], r1)
     \<and> list_all (\<lambda>j. ir_units r1 ! nat (fst (local_threads inst ! j)) = Some (started_unit inst (local_threads inst) j)) [0..<length (local_threads inst)]
     \<and> list_all (\<lambda>n. \<exists>r2. main_loop w (map (ThreadFinished (inst_id inst)) (take n order)) [] r1
          = Inr (map (send_thread_finished w (inst_id inst)) (take n order), r2) \<and> ir_instances r2 (inst_id inst) = Some inst) [0..<length order]
     \<and> main_loop w (map (ThreadFinished (inst_id inst)) order) [] r1 = Inr (map (send_thread_finished w (inst_id inst)) order, r)
     \<and> mset (map (wi_local_to_global w) order) = mset (map fst (get_threads (int (wi_process_id w)) inst))"
proof -
  let ?th = "local_threads inst" and ?i = "inst_id inst"
  obtain us where us: "run_instance w inst r = Inr (r\<lparr>ir_instances := (ir_instances r)(?i \<mapsto> inst), ir_keeper := (ir_keeper r)(?i \<mapsto> fst ` set ?th), ir_units := us\<rparr>)"
     "length us = length (ir_units r)" "\<forall>j < length ?th. us ! nat (fst (?th ! j)) = Some (started_unit inst ?th j)"
     "\<forall>i. i \<notin> nat ` fst ` set ?th \<longrightarrow> us ! i = ir_units r ! i"
    using run_instance_ok [of w inst r] assms(6,7,9,10) unfolding local_threads_def by blast
  define r1 where "r1 = r\<lparr>ir_instances := (ir_instances r)(?i \<mapsto> inst), ir_keeper := (ir_keeper r)(?i \<mapsto> fst ` set ?th), ir_units := us\<rparr>"
  have ord: "set order = fst ` set ?th" "distinct order" "order \<noteq> []"
    using assms(6,7,11) mset_eq_setD [OF assms(11)] mset_eq_imp_distinct_iff [OF assms(11)] by (auto simp: units_free_def)
  have h: "worker_handle w (TaskType bin) r = Inr (True, [], r1)" using us(1) inst_read [OF assms(2-4), of "[]"] assms(5) by (simp add: r1_def)
  have k: "ir_keeper r1 ?i = Some (set order)" by (simp add: r1_def ord(1))
  have run: "units_running order r1"
    unfolding units_running_def
  proof
    fix t assume "t \<in> set order"
    then obtain j where "j < length ?th" "t = fst (?th ! j)" using ord(1) by (auto simp: in_set_conv_nth)
    then show "0 \<le> t \<and> nat t < length (ir_units r1) \<and> ir_units r1 ! nat t \<noteq> None" using us(2,3) assms(7) by (auto simp: r1_def units_free_def)
  qed
  have "\<exists>r2. main_loop w (map (ThreadFinished ?i) (take n order)) [] r1 = Inr (map (send_thread_finished w ?i) (take n order), r2) \<and> ir_instances r2 ?i = Some inst"
    if "n < length order" for n
    using finish_some [of r1 ?i "take n order" "drop n order" w "[]" "[]"] k ord(2) run that by (simp add: r1_def)
  moreover have "stop_units order us = ir_units r" using stop_restores [OF assms(7) _ us(2)] us(4) ord(1) by simp
  then have "main_loop w (map (ThreadFinished ?i) order) [] r1 = Inr (map (send_thread_finished w ?i) order, r)"
    using finish_all [OF k ord(2) run ord(3), of w "[]" "[]"] assms(9,10) by (simp add: r1_def fun_upd_idem cong: if_cong)
  moreover have "mset (map (wi_local_to_global w) order) = mset (map fst (get_threads (int (wi_process_id w)) inst))"
  proof -
    have "map (wi_local_to_global w) (map fst ?th) = map fst (get_threads (int (wi_process_id w)) inst)"
      using assms(8) by (auto simp: local_threads_def extract_local_instance_def local_ids_ok_def list_all_iff)
    then show ?thesis using assms(11) by (metis mset_map)
  qed
  ultimately show ?thesis using h us(3) by (auto simp: list_all_iff r1_def)
qed

definition example_local :: LocalInfo where
  "example_local = \<lparr>wi_num_workers = 6, wi_num_processes = 2, wi_process_id = 1, wi_proc_of = (\<lambda>t. t div 3), wi_global_to_local = (\<lambda>t. t - 3),
     wi_local_to_global = (\<lambda>t. t + 3), wi_num_local_workers = 3\<rparr>"

theorem worker_runs_instance_witness:
  "\<exists>r1. worker_handle example_local (TaskType (inst_serialize [0, 1] example_instance)) (mk_InstanceRunner example_local) = Inr (True, [], r1)
     \<and> main_loop example_local [ThreadFinished 7 2, ThreadFinished 7 0] [] r1
       = Inr ([ToClusterManager (ClusterManagerThreadFinished 7 5), ToClusterManager (ClusterManagerThreadFinished 7 3)], mk_InstanceRunner example_local)"
proof -
  have e: "example_instance = \<lparr>inst_task = mk_Task 7 1 3, inst_cluster = [1 \<mapsto> [(3, 0), (5, 2)], 0 \<mapsto> [(4, 1)]]\<rparr>"
    by (auto simp: example_instance_def add_thread_def get_threads_def fun_eq_iff)
  have th: "extract_local_instance example_local example_instance = [(0, 0), (2, 2)]" "get_threads 1 example_instance = [(3, 0), (5, 2)]"
    by (simp_all add: extract_local_instance_def example_local_def e get_threads_def)
  have i: "inst_id example_instance = 7" "task_wf (inst_task example_instance)" by (simp_all add: e inst_id_def mk_Task_def mk_base_def)
  let ?r = "mk_InstanceRunner example_local"
  have p: "distinct [0, 1 :: int]" "set [0, 1] = dom (inst_cluster example_instance)" by (auto simp: e)
  have q: "extract_local_instance example_local example_instance \<noteq> []" "units_free (map fst (extract_local_instance example_local example_instance)) ?r"
    "local_ids_ok example_local example_instance" "ir_instances ?r (inst_id example_instance) = None" "ir_keeper ?r (inst_id example_instance) = None"
    "mset [2, 0] = mset (map fst (extract_local_instance example_local example_instance))"
    unfolding th by (simp_all add: units_free_def mk_InstanceRunner_def local_ids_ok_def th example_local_def)
  from worker_runs_instance [OF i(2) p refl q] show ?thesis
    unfolding i(1) by (auto simp: send_thread_finished_def example_local_def)
qed

end
