(* ===== verification/Consistency_Control.thy ===== *)
theory Consistency_Control
  imports Prelude
begin

text \<open>
  The consistency controllers of a model that several threads of one process share: \<^verbatim>\<open>ml/consistency/consistency_controller.hpp\<close>, \<^verbatim>\<open>asp_\<close>,
  \<^verbatim>\<open>bsp_\<close> and \<^verbatim>\<open>ssp_consistency_controller.hpp\<close>, and the calls that \<^verbatim>\<open>SPMTWorker::Push\<close> and \<^verbatim>\<open>Pull\<close> make
  (\<^verbatim>\<open>ml/mlworker/spmt.hpp\<close>).

  A call takes the mutex, so it is one step. A call that has to wait is the test that fails: the thread then sleeps until some thread calls
  \<^verbatim>\<open>notify_all\<close>, or wakes up without reason, and tests again. Counters of the code that only grow are natural numbers.
\<close>

section \<open>Model\<close>

subsection \<open>The controllers\<close>

record BSPConsistencyController =
  bc_num_local_workers :: nat
  bc_push_count :: nat
  bc_pull_count :: nat
  bc_reply_phase :: bool

record SSPConsistencyController =
  sp_num_local_workers :: nat
  sp_worker_progress :: "nat list"
  sp_clock_count :: "nat list"
  sp_staleness :: int
  sp_min_clock :: nat

datatype Controller = ASP | BSP BSPConsistencyController | SSP SSPConsistencyController

text \<open>The new controller, on which \<^verbatim>\<open>Init\<close> has been called.\<close>

definition bsp_Init :: "nat \<Rightarrow> Controller" where
  "bsp_Init n = BSP \<lparr>bc_num_local_workers = n, bc_push_count = 0, bc_pull_count = 0, bc_reply_phase = True\<rparr>"

definition ssp_Init :: "nat \<Rightarrow> Controller" where
  "ssp_Init n = SSP \<lparr>sp_num_local_workers = n, sp_worker_progress = resize n 0 [], sp_clock_count = [], sp_staleness = 1, sp_min_clock = 0\<rparr>"

text \<open>The test of \<^verbatim>\<open>SSPConsistencyController::wait\<close>: whether the thread may go on, and the new state.\<close>

definition ssp_wait :: "nat \<Rightarrow> SSPConsistencyController \<Rightarrow> bool \<times> SSPConsistencyController" where
  "ssp_wait tid c =
     (let c = c\<lparr>sp_worker_progress := grow_to tid 0 (sp_worker_progress c)\<rparr>;
          expected_min_lock = int (sp_worker_progress c ! tid) - sp_staleness c in
      (\<not> int (sp_min_clock c) < expected_min_lock, c))"

fun BeforePush :: "nat \<Rightarrow> Controller \<Rightarrow> bool \<times> Controller" where
  "BeforePush tid ASP = (True, ASP)"
| "BeforePush tid (BSP c) = (\<not> bc_reply_phase c, BSP c)"
| "BeforePush tid (SSP c) = (let (ok, c) = ssp_wait tid c in (ok, SSP c))"

fun BeforePull :: "nat \<Rightarrow> Controller \<Rightarrow> bool \<times> Controller" where
  "BeforePull tid ASP = (True, ASP)"
| "BeforePull tid (BSP c) = (bc_reply_phase c, BSP c)"
| "BeforePull tid (SSP c) = (let (ok, c) = ssp_wait tid c in (ok, SSP c))"

text \<open>The flag of the result says whether the sleeping threads are notified.\<close>

definition bsp_AfterPush :: "BSPConsistencyController \<Rightarrow> bool \<times> BSPConsistencyController" where
  "bsp_AfterPush c =
     (let c = c\<lparr>bc_push_count := bc_push_count c + 1\<rparr> in
      if bc_push_count c = bc_num_local_workers c then (True, c\<lparr>bc_push_count := 0, bc_reply_phase := True\<rparr>) else (False, c))"

definition bsp_AfterPull :: "BSPConsistencyController \<Rightarrow> bool \<times> BSPConsistencyController" where
  "bsp_AfterPull c =
     (let c = c\<lparr>bc_pull_count := bc_pull_count c + 1\<rparr> in
      if bc_pull_count c = bc_num_local_workers c then (True, c\<lparr>bc_pull_count := 0, bc_reply_phase := False\<rparr>) else (False, c))"

definition ssp_AfterPush :: "nat \<Rightarrow> SSPConsistencyController \<Rightarrow> error + (bool \<times> SSPConsistencyController)" where
  "ssp_AfterPush tid c =
     (let wp = (if tid > length (sp_worker_progress c) then resize (tid + 1) 0 (sp_worker_progress c) else sp_worker_progress c) in
      bindE (vec_get wp tid) (\<lambda>progress.
      let cc = grow_to progress 0 (sp_clock_count c); cc = cc[progress := cc ! progress + 1];
          next = (progress = sp_min_clock c \<and> cc ! sp_min_clock c = sp_num_local_workers c) in
      Inr (next, c\<lparr>sp_worker_progress := wp[tid := progress + 1], sp_clock_count := cc,
                   sp_min_clock := (if next then sp_min_clock c + 1 else sp_min_clock c)\<rparr>)))"

fun AfterPush :: "nat \<Rightarrow> Controller \<Rightarrow> error + (bool \<times> Controller)" where
  "AfterPush tid ASP = Inr (False, ASP)"
| "AfterPush tid (BSP c) = (let (notify, c) = bsp_AfterPush c in Inr (notify, BSP c))"
| "AfterPush tid (SSP c) = bindE (ssp_AfterPush tid c) (\<lambda>(notify, c). Inr (notify, SSP c))"

fun AfterPull :: "nat \<Rightarrow> Controller \<Rightarrow> error + (bool \<times> Controller)" where
  "AfterPull tid ASP = Inr (False, ASP)"
| "AfterPull tid (BSP c) = (let (notify, c) = bsp_AfterPull c in Inr (notify, BSP c))"
| "AfterPull tid (SSP c) = Inr (False, SSP c)"

subsection \<open>The threads\<close>

text \<open>
  A thread pulls and pushes in turn. \<open>AtPull\<close> is before the test of \<^verbatim>\<open>BeforePull\<close>, \<open>Pulling\<close> between \<^verbatim>\<open>BeforePull\<close> and
  \<^verbatim>\<open>AfterPull\<close>, where it reads the model, and the same for pushes. The counters are the calls that have ended.
\<close>

datatype pc = AtPull | SleepPull | Pulling | AtPush | SleepPush | Pushing

record Thread =
  th_pc :: pc
  th_pulls :: nat
  th_pushes :: nat

fun awake :: "pc \<Rightarrow> pc" where
  "awake SleepPull = AtPull"
| "awake SleepPush = AtPush"
| "awake p = p"

definition notify_all :: "bool \<Rightarrow> Thread list \<Rightarrow> Thread list" where
  "notify_all notify ts = (if notify then map (\<lambda>t. t\<lparr>th_pc := awake (th_pc t)\<rparr>) ts else ts)"

definition local_step :: "nat \<Rightarrow> Controller \<times> Thread list \<Rightarrow> error + (Controller \<times> Thread list)" where
  "local_step w s =
     (let (c, ts) = s; t = ts ! w in
      case th_pc t of
        AtPull \<Rightarrow> let (ok, c) = BeforePull w c in Inr (c, ts[w := t\<lparr>th_pc := if ok then Pulling else SleepPull\<rparr>])
      | Pulling \<Rightarrow> bindE (AfterPull w c) (\<lambda>(notify, c). Inr (c, notify_all notify (ts[w := t\<lparr>th_pc := AtPush, th_pulls := th_pulls t + 1\<rparr>])))
      | AtPush \<Rightarrow> let (ok, c) = BeforePush w c in Inr (c, ts[w := t\<lparr>th_pc := if ok then Pushing else SleepPush\<rparr>])
      | Pushing \<Rightarrow> bindE (AfterPush w c) (\<lambda>(notify, c). Inr (c, notify_all notify (ts[w := t\<lparr>th_pc := AtPull, th_pushes := th_pushes t + 1\<rparr>])))
      | SleepPull \<Rightarrow> Inr (c, ts[w := t\<lparr>th_pc := AtPull\<rparr>])
      | SleepPush \<Rightarrow> Inr (c, ts[w := t\<lparr>th_pc := AtPush\<rparr>]))"

definition new_threads :: "nat \<Rightarrow> Thread list" where
  "new_threads n = replicate n \<lparr>th_pc = AtPull, th_pulls = 0, th_pushes = 0\<rparr>"

inductive interleaving :: "nat \<Rightarrow> Controller \<Rightarrow> Controller \<times> Thread list \<Rightarrow> bool" for n c where
  start: "interleaving n c (c, new_threads n)"
| step: "interleaving n c s \<Longrightarrow> w < n \<Longrightarrow> local_step w s = Inr s' \<Longrightarrow> interleaving n c s'"

text \<open>A thread that is inside a pull or push, or about to enter one that will not wait.\<close>

fun runnable :: "nat \<Rightarrow> Controller \<times> Thread list \<Rightarrow> bool" where
  "runnable w (c, ts) \<longleftrightarrow> (case th_pc (ts ! w) of
     Pulling \<Rightarrow> True | Pushing \<Rightarrow> True | AtPull \<Rightarrow> fst (BeforePull w c) | AtPush \<Rightarrow> fst (BeforePush w c) | _ \<Rightarrow> False)"

section \<open>Invariants of a controller\<close>

locale protocol =
  fixes init :: "nat \<Rightarrow> Controller" and inv :: "nat \<Rightarrow> Controller \<times> Thread list \<Rightarrow> bool"
  assumes inv_start: "0 < n \<Longrightarrow> inv n (init n, new_threads n)"
    and inv_step: "inv n s \<Longrightarrow> w < n \<Longrightarrow> \<exists>s'. local_step w s = Inr s' \<and> inv n s'"
    and inv_live: "inv n s \<Longrightarrow> \<exists>w < n. runnable w s"
begin

lemma interleaving_inv: "interleaving n (init n) s \<Longrightarrow> 0 < n \<Longrightarrow> inv n s"
  by (induction rule: interleaving.induct) (use inv_start inv_step in fastforce)+

lemma interleaving_ok: "interleaving n (init n) s \<Longrightarrow> 0 < n \<Longrightarrow> (\<forall>w < n. \<exists>s'. local_step w s = Inr s') \<and> (\<exists>w < n. runnable w s)"
  using interleaving_inv inv_step inv_live by blast

end

lemma count_update:
  "i < length xs \<Longrightarrow> length (filter P (xs[i := y])) + (if P (xs ! i) then 1 else 0) = length (filter P xs) + (if P y then 1 else 0)"
proof (induction xs arbitrary: i)
  case (Cons x xs)
  show ?case
  proof (cases i)
    case (Suc j)
    then show ?thesis using Cons.IH [of j] Cons.prems by simp
  qed simp
qed simp

section \<open>Bulk-synchronous\<close>

definition reading :: "nat \<Rightarrow> Thread \<Rightarrow> bool" where
  "reading r t \<longleftrightarrow> th_pushes t = r \<and> (th_pc t \<in> {AtPull, Pulling} \<and> th_pulls t = r \<or> th_pc t \<in> {AtPush, SleepPush} \<and> th_pulls t = Suc r)"

definition writing :: "nat \<Rightarrow> Thread \<Rightarrow> bool" where
  "writing r t \<longleftrightarrow> th_pulls t = Suc r \<and> (th_pc t \<in> {AtPush, Pushing} \<and> th_pushes t = r \<or> th_pc t \<in> {AtPull, SleepPull} \<and> th_pushes t = Suc r)"

fun bsp_phase :: "nat \<Rightarrow> nat \<Rightarrow> Controller \<times> Thread list \<Rightarrow> bool" where
  "bsp_phase n r (BSP c, ts) \<longleftrightarrow> length ts = n \<and> bc_num_local_workers c = n \<and>
     (if bc_reply_phase c then list_all (reading r) ts \<and> bc_push_count c = 0 \<and> bc_pull_count c = length (filter (\<lambda>t. th_pulls t = Suc r) ts) \<and> bc_pull_count c < n
      else list_all (writing r) ts \<and> bc_pull_count c = 0 \<and> bc_push_count c = length (filter (\<lambda>t. th_pushes t = Suc r) ts) \<and> bc_push_count c < n)"
| "bsp_phase n r _ \<longleftrightarrow> False"

definition bsp_inv :: "nat \<Rightarrow> Controller \<times> Thread list \<Rightarrow> bool" where
  "bsp_inv n s \<longleftrightarrow> (\<exists>r. bsp_phase n r s)"

lemma list_all_update: "list_all P ts \<Longrightarrow> P t \<Longrightarrow> list_all P (ts[w := t])"
  by (auto simp: list_all_iff dest: set_update_subset_insert [THEN subsetD])

lemma full_count: "length (filter P xs) = length xs \<Longrightarrow> list_all P xs"
  by (metis filter_True length_filter_less list_all_iff nless_le)


lemma full_update:
  assumes "length (filter P xs) + 1 = length xs" "i < length xs" "\<not> P (xs ! i)" "P y"
  shows "list_all P (xs[i := y])"
proof (rule full_count)
  show "length (filter P (xs[i := y])) = length (xs[i := y])" using count_update [OF assms(2), of P y] assms by simp
qed

lemma bsp_phase_reply:
  assumes "bsp_phase n r (BSP c, ts)" "bc_reply_phase c" "w < n"
  shows "\<exists>s'. local_step w (BSP c, ts) = Inr s' \<and> bsp_inv n s'"
proof -
  let ?t = "ts ! w" and ?P = "\<lambda>t. th_pulls t = Suc r"
  have l: "length ts = n" "bc_num_local_workers c = n" "list_all (reading r) ts" "bc_push_count c = 0" "bc_pull_count c = length (filter ?P ts)" "bc_pull_count c < n"
    using assms(1,2) by simp_all
  have t: "reading r ?t" "w < length ts" using l assms(3) by (simp_all add: list_all_length)
  have same: "bsp_inv n (BSP c, ts[w := ?t\<lparr>th_pc := p\<rparr>])" if "reading r (?t\<lparr>th_pc := p\<rparr>)" for p
    using list_all_update [OF l(3) that] count_update [OF t(2), of ?P "?t\<lparr>th_pc := p\<rparr>"] l assms(2)
    unfolding bsp_inv_def by (intro exI [of _ r]) (simp split: if_splits)
  show ?thesis
  proof (cases "th_pc ?t = Pulling")
    case True
    define t' where "t' = ?t\<lparr>th_pc := AtPush, th_pulls := Suc r\<rparr>"
    have r: "th_pulls ?t = r" "th_pushes ?t = r" using t(1) True by (auto simp: reading_def)
    have cnt: "length (filter ?P (ts[w := t'])) = length (filter ?P ts) + 1" using count_update [OF t(2), of ?P t'] r by (simp add: t'_def)
    have all: "list_all (reading r) (ts[w := t'])" using list_all_update [OF l(3)] r by (simp add: reading_def t'_def)
    show ?thesis
    proof (cases "bc_pull_count c + 1 = n")
      case False
      then have "bsp_phase n r (BSP (c\<lparr>bc_pull_count := bc_pull_count c + 1\<rparr>), ts[w := t'])" using l cnt all assms(2) by simp
      then show ?thesis using True r False l(2) by (auto simp: local_step_def bsp_AfterPull_def notify_all_def bsp_inv_def t'_def Let_def)
    next
      case last: True
      let ?ts = "map (\<lambda>t. t\<lparr>th_pc := awake (th_pc t)\<rparr>) (ts[w := t'])"
      have "list_all ?P (ts[w := t'])" using full_update [of ?P ts w t'] last l(1,5) t(2) r by (simp add: t'_def)
      then have "list_all (writing r) ?ts" using all by (auto simp: list_all_iff reading_def writing_def)
      moreover have "filter (\<lambda>t. th_pushes t = Suc r) ?ts = []" using all by (simp add: filter_map comp_def filter_False list_all_iff reading_def)
      ultimately have "bsp_phase n r (BSP (c\<lparr>bc_pull_count := 0, bc_reply_phase := False\<rparr>), ?ts)" using l assms(3) by simp
      then show ?thesis using True r last l(2) by (auto simp: local_step_def bsp_AfterPull_def notify_all_def bsp_inv_def t'_def Let_def)
    qed
  next
    case False
    show ?thesis using False t(1) assms(2) same [of Pulling] same [of SleepPush] same [of AtPush]
      by (auto simp: local_step_def reading_def split: pc.splits)
  qed
qed

lemma bsp_phase_push:
  assumes "bsp_phase n r (BSP c, ts)" "\<not> bc_reply_phase c" "w < n"
  shows "\<exists>s'. local_step w (BSP c, ts) = Inr s' \<and> bsp_inv n s'"
proof -
  let ?t = "ts ! w" and ?P = "\<lambda>t. th_pushes t = Suc r"
  have l: "length ts = n" "bc_num_local_workers c = n" "list_all (writing r) ts" "bc_pull_count c = 0" "bc_push_count c = length (filter ?P ts)" "bc_push_count c < n"
    using assms(1,2) by simp_all
  have t: "writing r ?t" "w < length ts" using l assms(3) by (simp_all add: list_all_length)
  have same: "bsp_inv n (BSP c, ts[w := ?t\<lparr>th_pc := p\<rparr>])" if "writing r (?t\<lparr>th_pc := p\<rparr>)" for p
    using list_all_update [OF l(3) that] count_update [OF t(2), of ?P "?t\<lparr>th_pc := p\<rparr>"] l assms(2)
    unfolding bsp_inv_def by (intro exI [of _ r]) (simp split: if_splits)
  show ?thesis
  proof (cases "th_pc ?t = Pushing")
    case True
    define t' where "t' = ?t\<lparr>th_pc := AtPull, th_pushes := Suc r\<rparr>"
    have r: "th_pushes ?t = r" "th_pulls ?t = Suc r" using t(1) True by (auto simp: writing_def)
    have cnt: "length (filter ?P (ts[w := t'])) = length (filter ?P ts) + 1" using count_update [OF t(2), of ?P t'] r by (simp add: t'_def)
    have all: "list_all (writing r) (ts[w := t'])" using list_all_update [OF l(3)] r by (simp add: writing_def t'_def)
    show ?thesis
    proof (cases "bc_push_count c + 1 = n")
      case False
      then have "bsp_phase n r (BSP (c\<lparr>bc_push_count := bc_push_count c + 1\<rparr>), ts[w := t'])" using l cnt all assms(2) by simp
      then show ?thesis using True r False l(2) by (auto simp: local_step_def bsp_AfterPush_def notify_all_def bsp_inv_def t'_def Let_def)
    next
      case last: True
      let ?ts = "map (\<lambda>t. t\<lparr>th_pc := awake (th_pc t)\<rparr>) (ts[w := t'])"
      have "list_all ?P (ts[w := t'])" using full_update [of ?P ts w t'] last l(1,5) t(2) r by (simp add: t'_def)
      then have "list_all (reading (Suc r)) ?ts" using all by (auto simp: list_all_iff reading_def writing_def)
      moreover have "filter (\<lambda>t. th_pulls t = Suc (Suc r)) ?ts = []" using all by (simp add: filter_map comp_def filter_False list_all_iff writing_def)
      ultimately have "bsp_phase n (Suc r) (BSP (c\<lparr>bc_push_count := 0, bc_reply_phase := True\<rparr>), ?ts)" using l assms(3) by simp
      then show ?thesis using True r last l(2) by (auto simp: local_step_def bsp_AfterPush_def notify_all_def bsp_inv_def t'_def Let_def)
    qed
  next
    case False
    show ?thesis using False t(1) assms(2) same [of Pushing] same [of SleepPull] same [of AtPull]
      by (auto simp: local_step_def writing_def split: pc.splits)
  qed
qed

lemma missing_one: "length (filter P xs) < length xs \<Longrightarrow> \<exists>i < length xs. \<not> P (xs ! i)"
  by (metis filter_True in_set_conv_nth less_irrefl)

interpretation bsp: protocol bsp_Init bsp_inv
proof
  fix n :: nat assume "0 < n"
  then show "bsp_inv n (bsp_Init n, new_threads n)"
    unfolding bsp_inv_def by (intro exI [of _ 0]) (simp add: bsp_Init_def new_threads_def reading_def list_all_length)
next
  fix n s w assume s: "bsp_inv n s" "w < n"
  then show "\<exists>s'. local_step w s = Inr s' \<and> bsp_inv n s'"
    using bsp_phase_reply bsp_phase_push by (cases "fst s"; cases s) (fastforce simp: bsp_inv_def)+
next
  fix n s assume "bsp_inv n s"
  then obtain r c ts where s: "bsp_phase n r s" "s = (BSP c, ts)" unfolding bsp_inv_def by (cases s; cases "fst s") auto
  show "\<exists>w < n. runnable w s"
  proof (cases "bc_reply_phase c")
    case True
    then have l: "length ts = n" "list_all (reading r) ts" "length (filter (\<lambda>t. th_pulls t = Suc r) ts) < n" using s by simp_all
    then obtain w where w: "w < n" "th_pulls (ts ! w) \<noteq> Suc r" using missing_one by blast
    then show ?thesis using l True s(2) by (intro exI [of _ w]) (auto simp: list_all_length reading_def split: pc.splits)
  next
    case False
    then have l: "length ts = n" "list_all (writing r) ts" "length (filter (\<lambda>t. th_pushes t = Suc r) ts) < n" using s by simp_all
    then obtain w where w: "w < n" "th_pushes (ts ! w) \<noteq> Suc r" using missing_one by blast
    then show ?thesis using l False s(2) by (intro exI [of _ w]) (auto simp: list_all_length writing_def split: pc.splits)
  qed
qed


section \<open>Stale-synchronous\<close>

text \<open>A thread inside a call was let in by the test; a sleeping thread would still be refused.\<close>

fun let_in :: "nat \<Rightarrow> Thread \<Rightarrow> bool" where
  "let_in m t \<longleftrightarrow> th_pushes t \<le> m + 2 \<and> (case th_pc t of Pulling \<Rightarrow> th_pushes t \<le> m + 1 | Pushing \<Rightarrow> th_pushes t \<le> m + 1
     | SleepPull \<Rightarrow> m + 1 < th_pushes t | SleepPush \<Rightarrow> m + 1 < th_pushes t | _ \<Rightarrow> True)"

fun ssp_inv :: "nat \<Rightarrow> Controller \<times> Thread list \<Rightarrow> bool" where
  "ssp_inv n (SSP c, ts) \<longleftrightarrow> length ts = n \<and> 0 < n \<and> sp_num_local_workers c = n \<and> sp_staleness c = 1 \<and> sp_worker_progress c = map th_pushes ts
     \<and> (\<forall>k < length (sp_clock_count c). sp_clock_count c ! k = length (filter (\<lambda>t. k < th_pushes t) ts))
     \<and> list_all (\<lambda>t. th_pushes t \<le> length (sp_clock_count c)) ts
     \<and> list_all (\<lambda>t. sp_min_clock c \<le> th_pushes t) ts \<and> (\<exists>t \<in> set ts. th_pushes t = sp_min_clock c) \<and> list_all (let_in (sp_min_clock c)) ts"
| "ssp_inv n _ \<longleftrightarrow> False"

lemma let_in_awake: "let_in m t \<Longrightarrow> let_in (m + 1) (t\<lparr>th_pc := awake (th_pc t)\<rparr>)"
  by (cases "th_pc t") simp_all

lemma ssp_wait_inv:
  assumes "ssp_inv n (SSP c, ts)" "w < n"
  shows "ssp_wait w c = (th_pushes (ts ! w) \<le> sp_min_clock c + 1, c)"
proof -
  have "grow_to w 0 (sp_worker_progress c) = sp_worker_progress c" using assms by (simp add: grow_to_def)
  then show ?thesis using assms by (auto simp: ssp_wait_def Let_def)
qed

lemma ssp_pc_inv:
  assumes "ssp_inv n (SSP c, ts)" "w < n" "t' = (ts ! w)\<lparr>th_pc := p, th_pulls := k\<rparr>" "let_in (sp_min_clock c) t'"
  shows "ssp_inv n (SSP c, ts[w := t'])"
proof -
  have w: "w < length ts" using assms(1,2) by simp
  have same: "map th_pushes (ts[w := t']) = map th_pushes ts" using w assms(3) by (simp add: map_update list_update_same_conv)
  have cnt: "length (filter (\<lambda>t. j < th_pushes t) (ts[w := t'])) = length (filter (\<lambda>t. j < th_pushes t) ts)" for j
    using count_update [OF w, of "\<lambda>t. j < th_pushes t" t'] assms(3) by (simp split: if_splits)
  have "(\<exists>t \<in> set (ts[w := t']). th_pushes t = m) = (\<exists>t \<in> set ts. th_pushes t = m)" for m
    using arg_cong [OF same, of set] by (metis (mono_tags, lifting) image_iff set_map)
  moreover have all: "list_all (\<lambda>t. P (th_pushes t)) (ts[w := t']) = list_all (\<lambda>t. P (th_pushes t)) ts" for P
    using arg_cong [OF same, of "list_all P"] by (simp add: list.pred_map comp_def)
  ultimately show ?thesis using assms(1) all [of "\<lambda>x. x \<le> length (sp_clock_count c)"] all [of "\<lambda>x. sp_min_clock c \<le> x"] same cnt list_all_update [of "let_in (sp_min_clock c)" ts t' w] assms(4) by simp
qed


lemma ssp_counts:
  assumes "ssp_inv n (SSP c, ts)" "w < n" "p = th_pushes (ts ! w)" "t' = (ts ! w)\<lparr>th_pc := AtPull, th_pushes := p + 1\<rparr>"
    and "cc = (grow_to p 0 (sp_clock_count c))[p := grow_to p 0 (sp_clock_count c) ! p + 1]"
  shows "\<forall>k < length cc. cc ! k = length (filter (\<lambda>t. k < th_pushes t) (ts[w := t']))" "list_all (\<lambda>t. th_pushes t \<le> length cc) (ts[w := t'])" "p < length cc"
proof -
  let ?cc = "sp_clock_count c"
  have w: "w < length ts" "p \<le> length ?cc" and top: "\<forall>t \<in> set ts. th_pushes t \<le> length ?cc" using assms(1-3) by (auto simp: list_all_iff)
  have len: "length cc = max (length ?cc) (p + 1)" using assms(5) by (simp add: grow_to_def)
  then show "p < length cc" by simp
  have "\<forall>t \<in> set ts. th_pushes t \<le> length cc" using top len by auto
  then show "list_all (\<lambda>t. th_pushes t \<le> length cc) (ts[w := t'])"
    using list_all_update [of "\<lambda>t. th_pushes t \<le> length cc" ts t' w] len assms(4) by (simp add: list_all_iff)
  have cnt: "length (filter (\<lambda>t. k < th_pushes t) (ts[w := t'])) = length (filter (\<lambda>t. k < th_pushes t) ts) + (if k = p then 1 else 0)" for k
  proof -
    have "th_pushes t' = Suc p" using assms(4) by simp
    then show ?thesis using count_update [OF w(1), of "\<lambda>t. k < th_pushes t" t', folded assms(3)] by (cases "k = p"; cases "k < p") simp_all
  qed
  have old: "grow_to p 0 ?cc ! k = length (filter (\<lambda>t. k < th_pushes t) ts)" if k: "k < length cc" for k
  proof (cases "k < length ?cc")
    case True
    then show ?thesis using assms(1) by (simp add: grow_to_def resize_def nth_append)
  next
    case False
    then have "k = length ?cc" "p = length ?cc" using len k w(2) by simp_all
    moreover from this have "filter (\<lambda>t. k < th_pushes t) ts = []" using top by (auto simp: filter_empty_conv)
    ultimately show ?thesis by (simp add: grow_to_def resize_def nth_append)
  qed
  show "\<forall>k < length cc. cc ! k = length (filter (\<lambda>t. k < th_pushes t) (ts[w := t']))"
  proof (intro allI impI)
    fix k assume k: "k < length cc"
    have "cc ! k = grow_to p 0 ?cc ! k + (if k = p then 1 else 0)" using k assms(5) by (simp add: nth_list_update)
    then show "cc ! k = length (filter (\<lambda>t. k < th_pushes t) (ts[w := t']))" unfolding cnt old [OF k] .
  qed
qed

lemma ssp_push_inv:
  assumes "ssp_inv n (SSP c, ts)" "w < n" "th_pc (ts ! w) = Pushing" "t' = (ts ! w)\<lparr>th_pc := AtPull, th_pushes := th_pushes (ts ! w) + 1\<rparr>"
  shows "\<exists>notify c'. ssp_AfterPush w c = Inr (notify, c') \<and> ssp_inv n (SSP c', notify_all notify (ts[w := t']))"
proof -
  define p where "p = th_pushes (ts ! w)"
  define cc where "cc = (grow_to p 0 (sp_clock_count c))[p := grow_to p 0 (sp_clock_count c) ! p + 1]"
  let ?m = "sp_min_clock c" and ?ts = "ts[w := t']"
  note counts = ssp_counts [OF assms(1,2) p_def _ cc_def, of t', folded p_def] and i = assms(1)
  have t': "t' = (ts ! w)\<lparr>th_pc := AtPull, th_pushes := p + 1\<rparr>" using assms(4) by (simp add: p_def)
  have w: "w < length ts" "?m \<le> p" using i assms(2) by (simp_all add: list_all_length p_def)
  have "let_in ?m (ts ! w)" using i w(1) by (simp add: list_all_length)
  then have p: "p \<le> ?m + 1" using assms(3) by (simp add: p_def)
  define nxt where "nxt = (p = ?m \<and> cc ! ?m = n)"
  define c' where "c' = c\<lparr>sp_worker_progress := (sp_worker_progress c)[w := p + 1], sp_clock_count := cc, sp_min_clock := (if nxt then ?m + 1 else ?m)\<rparr>"
  have r: "ssp_AfterPush w c = Inr (nxt, c')"
    using i w(1) by (simp add: ssp_AfterPush_def vec_get_def Let_def nxt_def c'_def cc_def p_def)
  have wp: "(sp_worker_progress c)[w := p + 1] = map th_pushes ?ts" using i w(1) t' by (simp add: map_update)
  have ge: "list_all (\<lambda>t. ?m \<le> th_pushes t) ?ts" using i w t' by (intro list_all_update) simp_all
  have tw: "t' \<in> set ?ts" using w(1) by (rule set_update_memI)
  have "ssp_inv n (SSP c', notify_all nxt ?ts)"
  proof (cases nxt)
    case True
    then have all: "length (filter (\<lambda>t. ?m < th_pushes t) ?ts) = length ?ts" using counts(1,3) t' i by (auto simp: nxt_def)
    have up: "list_all (\<lambda>t. ?m + 1 \<le> th_pushes t) ?ts" using full_count [OF all] by (auto simp: list_all_iff)
    have "list_all (let_in ?m) ?ts" using i t' p by (intro list_all_update) simp_all
    then have "list_all (let_in (?m + 1)) (notify_all True ?ts)" using let_in_awake [of ?m] by (simp add: list_all_iff notify_all_def del: let_in.simps)
    then show ?thesis using True i wp counts t' up tw
      by (auto simp: c'_def notify_all_def nxt_def filter_map comp_def list.pred_map intro!: bexI [of _ t'])
  next
    case False
    have "\<exists>t \<in> set ?ts. th_pushes t = ?m"
    proof (cases "p = ?m")
      case True
      then have "length (filter (\<lambda>t. ?m < th_pushes t) ?ts) < length ?ts"
        using False counts(1,3) t' i length_filter_le [of "\<lambda>t. ?m < th_pushes t" ?ts] by (auto simp: nxt_def)
      then obtain k where "k < length ?ts" "\<not> ?m < th_pushes (?ts ! k)" using missing_one by blast
      then show ?thesis using ge by (metis le_neq_implies_less list_all_length nth_mem)
    next
      case other: False
      obtain k where "k < length ts" "th_pushes (ts ! k) = ?m" using i by (auto simp: in_set_conv_nth)
      moreover from this have "k \<noteq> w" using other by (auto simp: p_def)
      ultimately show ?thesis by (metis length_list_update nth_list_update_neq nth_mem)
    qed
    moreover have "list_all (let_in ?m) ?ts" using i t' p by (intro list_all_update) simp_all
    ultimately show ?thesis using False i wp counts t' ge by (simp add: c'_def notify_all_def)
  qed
  then show ?thesis using r by blast
qed

interpretation ssp: protocol ssp_Init ssp_inv
proof
  fix n :: nat assume "0 < n"
  then show "ssp_inv n (ssp_Init n, new_threads n)"
    by (simp add: ssp_Init_def new_threads_def list_all_length resize_def)
next
  fix n s w assume s: "ssp_inv n s" "w < n"
  then obtain c ts where c: "s = (SSP c, ts)" by (cases s; cases "fst s") auto
  note i = s(1) [unfolded c]
  have "let_in (sp_min_clock c) (ts ! w)" using i s(2) by (simp add: list_all_length)
  then have le: "th_pushes (ts ! w) \<le> sp_min_clock c + 2" by simp
  have pc: "ssp_inv n (SSP c, ts[w := (ts ! w)\<lparr>th_pc := p\<rparr>])" if "let_in (sp_min_clock c) ((ts ! w)\<lparr>th_pc := p\<rparr>)" for p
    using ssp_pc_inv [OF i s(2), where t' = "(ts ! w)\<lparr>th_pc := p\<rparr>" and p = p and k = "th_pulls (ts ! w)"] that by simp
  have pull: "ssp_inv n (SSP c, ts[w := (ts ! w)\<lparr>th_pc := AtPush, th_pulls := th_pulls (ts ! w) + 1\<rparr>])"
    using ssp_pc_inv [OF i s(2) refl, where p = AtPush and k = "th_pulls (ts ! w) + 1"] le by simp
  show "\<exists>s'. local_step w s = Inr s' \<and> ssp_inv n s'"
  proof (cases "th_pc (ts ! w)")
    case Pushing
    then show ?thesis using ssp_push_inv [OF i s(2) _ refl] unfolding c local_step_def by (auto simp: Let_def simp del: ssp_inv.simps)
  qed (use le pc pull ssp_wait_inv [OF i s(2)] in \<open>auto simp: c local_step_def notify_all_def Let_def simp del: ssp_inv.simps\<close>)
next
  fix n s assume s: "ssp_inv n s"
  then obtain c ts where c: "s = (SSP c, ts)" by (cases s; cases "fst s") auto
  note i = s(1) [unfolded c]
  obtain w where w: "w < n" "th_pushes (ts ! w) = sp_min_clock c" using i by (auto simp: in_set_conv_nth)
  have "let_in (sp_min_clock c) (ts ! w)" using i w(1) by (simp add: list_all_length)
  then show "\<exists>w < n. runnable w s"
    using w ssp_wait_inv [OF i w(1)] unfolding c by (intro exI [of _ w]) (auto split: pc.splits)
qed


section \<open>Properties\<close>

text \<open>
  C32. The bulk-synchronous controller, for any number of threads that pull and push in turn and for every interleaving, spurious wake-ups included: no call fails; a thread that
  is reading the model in its round \<open>r\<close> finds the pushes of exactly the rounds before \<open>r\<close> of all threads, and no thread is writing; a thread that is writing does so only after all threads
  have read the model in its round, and none is reading; no wake-up is lost and there is no deadlock: some thread can always go on.
  Scope: threads that start together and alternate pull and push; counters do not overflow.
\<close>

theorem bsp_controller_rounds:
  assumes "0 < n" "interleaving n (bsp_Init n) (c, ts)"
  shows "(\<forall>w < n. \<exists>s'. local_step w (c, ts) = Inr s') \<and> (\<exists>w < n. runnable w (c, ts))
     \<and> list_all (\<lambda>t. th_pc t = Pulling \<longrightarrow> list_all (\<lambda>u. th_pushes u = th_pulls t \<and> th_pc u \<noteq> Pushing) ts) ts
     \<and> list_all (\<lambda>t. th_pc t = Pushing \<longrightarrow> list_all (\<lambda>u. th_pulls u = th_pushes t + 1 \<and> th_pc u \<noteq> Pulling) ts) ts"
proof -
  obtain r d where "bsp_phase n r (BSP d, ts)" "c = BSP d"
    using bsp.interleaving_inv [OF assms(2,1)] unfolding bsp_inv_def by (cases c) auto
  then show ?thesis using bsp.interleaving_ok [OF assms(2,1)]
    by (auto simp: list_all_iff reading_def writing_def split: if_splits)
qed

theorem bsp_controller_rounds_witness:
  "\<exists>w < 2. runnable w (bsp_Init 2, new_threads 2)"
  using bsp_controller_rounds [of 2 "bsp_Init 2" "new_threads 2", OF _ interleaving.start] by simp

text \<open>
  C33. The stale-synchronous controller, for every interleaving, spurious wake-ups included: no call fails; a thread that is reading or writing the model is at most one push ahead of
  every other thread, and no thread is ever more than two pushes ahead; no wake-up is lost and there is no deadlock: some thread can always go on.
  Scope: threads that start together and alternate pull and push, with the staleness that the code fixes; clocks do not overflow.
\<close>

theorem ssp_controller_staleness:
  assumes "0 < n" "interleaving n (ssp_Init n) (c, ts)"
  shows "(\<forall>w < n. \<exists>s'. local_step w (c, ts) = Inr s') \<and> (\<exists>w < n. runnable w (c, ts))
     \<and> list_all (\<lambda>t. th_pc t \<in> {Pulling, Pushing} \<longrightarrow> list_all (\<lambda>u. th_pushes t \<le> th_pushes u + 1) ts) ts
     \<and> list_all (\<lambda>t. list_all (\<lambda>u. th_pushes t \<le> th_pushes u + 2) ts) ts"
proof -
  obtain d where "ssp_inv n (SSP d, ts)" "c = SSP d" using ssp.interleaving_inv [OF assms(2,1)] by (cases c) auto
  then have i: "list_all (let_in (sp_min_clock d)) ts" "list_all (\<lambda>t. sp_min_clock d \<le> th_pushes t) ts" by simp_all
  have "th_pushes t \<le> th_pushes u + 1" if "t \<in> set ts" "u \<in> set ts" "th_pc t \<in> {Pulling, Pushing}" for t u
  proof -
    have "th_pushes t \<le> sp_min_clock d + 1" using i(1) that(1,3) by (auto simp: list_all_iff)
    moreover have "sp_min_clock d \<le> th_pushes u" using i(2) that(2) by (simp add: list_all_iff)
    ultimately show ?thesis by simp
  qed
  moreover have "th_pushes t \<le> th_pushes u + 2" if "t \<in> set ts" "u \<in> set ts" for t u
  proof -
    have "th_pushes t \<le> sp_min_clock d + 2" "sp_min_clock d \<le> th_pushes u" using i that by (auto simp: list_all_iff)
    then show ?thesis by simp
  qed
  ultimately show ?thesis using ssp.interleaving_ok [OF assms(2,1)] by (simp add: list_all_iff)
qed

theorem ssp_controller_staleness_witness:
  "\<exists>w < 3. runnable w (ssp_Init 3, new_threads 3)"
  using ssp_controller_staleness [of 3 "ssp_Init 3" "new_threads 3", OF _ interleaving.start] by simp

end
