(* ===== verification/Fetch_Manager.thy ===== *)
theory Fetch_Manager
  imports Prelude
begin

text \<open>
  The threads of a process that read one \<^verbatim>\<open>ChunkBasedPSModel\<close> (\<^verbatim>\<open>ml/model/chunk_based_ps_model.hpp\<close>): \<^verbatim>\<open>PullChunksWithMinClock\<close> with \<^verbatim>\<open>fetch_mgr_fetch_chunk\<close>, which lets one thread fetch a chunk for a clock
  while the others that need the same clock, or a later one, wait for it.

  A step is one access to what the threads share: a chunk and its clock (under the lock of the chunk, or without a lock), or one chunk of the test that a thread makes
  while it holds \<^verbatim>\<open>fetch_mgr_mtx_\<close>. The answer of the servers to a fetch is an argument of the step. \<open>'c\<close> is the type of the chunks.
\<close>

section \<open>Model\<close>

text \<open>An entry of \<^verbatim>\<open>fetch_mgr_[id]\<close>: a clock that is needed, and whether someone fetches for it.\<close>

type_synonym clock_list = "(int \<times> bool) list"

datatype 'c fm_pc =
    Gather "nat list" "nat list"     \<comment> \<open>still to test, \<^verbatim>\<open>chunks_to_fetch\<close>\<close>
  | Loop "nat list"                   \<comment> \<open>\<^verbatim>\<open>chunks_to_fetch\<close>\<close>
  | Test "nat list" "nat list" "nat list"     \<comment> \<open>still to test, \<^verbatim>\<open>chunks_to_wait\<close>, \<^verbatim>\<open>chunks_to_fetch_real\<close>\<close>
  | Asleep "nat list"
  | Fetch "nat list" "nat list"       \<comment> \<open>\<^verbatim>\<open>chunks_to_fetch_real\<close>, \<^verbatim>\<open>chunks_to_wait\<close>\<close>
  | Store "(nat \<times> 'c) list" int "nat list" "nat list"     \<comment> \<open>still to store, the clock of the answer\<close>
  | Erase int "nat list" "nat list"
  | Copy "nat list" "('c \<times> int) list"
  | Ready

text \<open>\<open>ft_calls\<close> are the calls to come, and \<open>ft_done\<close> are the calls that have returned, with the chunks and the clocks that they have copied.\<close>

record 'c fm_thread =
  ft_pc :: "'c fm_pc"
  ft_chunks :: "nat list"
  ft_min :: int
  ft_calls :: "(nat list \<times> int) list"
  ft_done :: "(nat list \<times> int \<times> ('c \<times> int) list) list"

record 'c fm_state =
  fm_params :: "'c list"
  fm_clocks :: "int list"             \<comment> \<open>\<^verbatim>\<open>chunk_clocks_\<close>\<close>
  fm_lists :: "clock_list list"       \<comment> \<open>\<^verbatim>\<open>fetch_mgr_\<close>\<close>
  fm_mutex :: "nat option"            \<comment> \<open>who holds \<^verbatim>\<open>fetch_mgr_mtx_\<close>\<close>
  fm_threads :: "'c fm_thread list"

definition mk_fm_state :: "'c \<Rightarrow> nat \<Rightarrow> (nat list \<times> int) list list \<Rightarrow> 'c fm_state" where
  "mk_fm_state none num_chunks calls = \<lparr>fm_params = replicate num_chunks none, fm_clocks = replicate num_chunks (-1), fm_lists = replicate num_chunks [], fm_mutex = None,
     fm_threads = map (\<lambda>cs. \<lparr>ft_pc = Ready, ft_chunks = [], ft_min = 0, ft_calls = cs, ft_done = []\<rparr>) calls\<rparr>"

fun insert_loop :: "int \<Rightarrow> clock_list \<Rightarrow> clock_list" where
  "insert_loop m [] = []"
| "insert_loop m ((f, x) # l) = (if f = m then (f, x) # l else if f > m then (m, False) # (f, x) # l else (f, x) # insert_loop m l)"

definition insert_clock :: "int \<Rightarrow> clock_list \<Rightarrow> clock_list" where
  "insert_clock m l = (let l = insert_loop m l in if m > fst (last l) then l @ [(m, False)] else l)"

text \<open>What a thread that needs clock \<open>m\<close> does with a stale chunk: the new list, and whether it fetches the chunk.\<close>

definition claim :: "int \<Rightarrow> clock_list \<Rightarrow> clock_list \<times> bool" where
  "claim m l = (case l of
     [] \<Rightarrow> ([(m, True)], True)
   | (f, x) # l' \<Rightarrow>
       if m = f then (if x then (l, False) else ((f, True) # l', True))
       else if m > f then (insert_clock m l, False)
       else ((m, True) # l, True))"

definition erase_clocks :: "int \<Rightarrow> clock_list \<Rightarrow> clock_list" where
  "erase_clocks k l = dropWhile (\<lambda>(f, x). f \<le> k) l"

fun wake :: "'c fm_pc \<Rightarrow> 'c fm_pc" where
  "wake (Asleep todo) = Loop todo"
| "wake pc = pc"

definition fm_step :: "int \<times> 'c list \<Rightarrow> nat \<Rightarrow> 'c fm_state \<Rightarrow> (error + 'c fm_state) option" where
  "fm_step ans t s =
     (let th = fm_threads s ! t; m = ft_min th; goto = (\<lambda>pc s. s\<lparr>fm_threads := (fm_threads s)[t := th\<lparr>ft_pc := pc\<rparr>]\<rparr>) in
      case ft_pc th of
        Ready \<Rightarrow> (case ft_calls th of
            [] \<Rightarrow> None
          | (chunks, m) # calls \<Rightarrow> Some (Inr (s\<lparr>fm_threads := (fm_threads s)[t := th\<lparr>ft_pc := Gather chunks [], ft_chunks := chunks, ft_min := m, ft_calls := calls\<rparr>]\<rparr>)))
      | Gather [] todo \<Rightarrow> Some (Inr (goto (Loop todo) s))
      | Gather (c # rest) todo \<Rightarrow> Some (bindE (vec_get (fm_clocks s) c) (\<lambda>q. Inr (goto (Gather rest (if q < m then todo @ [c] else todo)) s)))
      | Loop [] \<Rightarrow> Some (Inr (goto (Copy (ft_chunks th) []) s))
      | Loop (c # cs) \<Rightarrow> if fm_mutex s = None then Some (Inr (goto (Test (c # cs) [] []) (s\<lparr>fm_mutex := Some t\<rparr>))) else None
      | Test (c # rest) wait real \<Rightarrow> Some (bindE (vec_get (fm_clocks s) c) (\<lambda>q.
            if q < m then bindE (vec_get (fm_lists s) c) (\<lambda>l. let (l', mine) = claim m l in
              Inr (goto (if mine then Test rest wait (real @ [c]) else Test rest (wait @ [c]) real) (s\<lparr>fm_lists := (fm_lists s)[c := l']\<rparr>)))
            else Inr (goto (Test rest wait real) s)))
      | Test [] wait real \<Rightarrow> Some (Inr (goto (if real = [] \<and> wait = [] then Copy (ft_chunks th) [] else if real \<noteq> [] then Fetch real wait else Asleep wait) (s\<lparr>fm_mutex := None\<rparr>)))
      | Asleep todo \<Rightarrow> None
      | Fetch real wait \<Rightarrow> Some (Inr (goto (Store (zip real (snd ans)) (fst ans) real wait) s))
      | Store ((c, v) # items) k real wait \<Rightarrow> Some (bindE (vec_get (fm_clocks s) c) (\<lambda>q.
            Inr (goto (Store items k real wait) (if q < k then s\<lparr>fm_params := (fm_params s)[c := v], fm_clocks := (fm_clocks s)[c := k]\<rparr> else s))))
      | Store [] k real wait \<Rightarrow> Some (bindE (assertE (\<not> k < m)) (\<lambda>_. Inr (goto (Erase k real wait) s)))
      | Erase k real wait \<Rightarrow> if fm_mutex s = None then
            Some (bindE (foldE (\<lambda>c ls. bindE (vec_get ls c) (\<lambda>l. Inr (ls[c := erase_clocks k l]))) real (fm_lists s)) (\<lambda>ls.
              Inr (s\<lparr>fm_lists := ls, fm_threads := (map (\<lambda>th. th\<lparr>ft_pc := wake (ft_pc th)\<rparr>) (fm_threads s))[t := th\<lparr>ft_pc := Loop wait\<rparr>]\<rparr>)))
          else None
      | Copy (c # rest) vals \<Rightarrow> Some (bindE (vec_get (fm_params s) c) (\<lambda>v. bindE (vec_get (fm_clocks s) c) (\<lambda>q. Inr (goto (Copy rest (vals @ [(v, q)])) s))))
      | Copy [] vals \<Rightarrow> Some (Inr (s\<lparr>fm_threads := (fm_threads s)[t := th\<lparr>ft_pc := Ready, ft_done := ft_done th @ [(ft_chunks th, m, vals)]\<rparr>]\<rparr>)))"

text \<open>
  What the servers promise for a fetch: the clock of the answer is at least the clock that is needed, and every chunk is \<open>as_of\<close> that clock.
\<close>

definition answer_ok :: "(nat \<Rightarrow> int \<Rightarrow> 'c \<Rightarrow> bool) \<Rightarrow> int \<times> 'c list \<Rightarrow> 'c fm_thread \<Rightarrow> bool" where
  "answer_ok as_of ans th \<longleftrightarrow> (case ft_pc th of
     Fetch real wait \<Rightarrow> ft_min th \<le> fst ans \<and> list_all2 (\<lambda>c v. as_of c (fst ans) v) real (snd ans)
   | _ \<Rightarrow> True)"

text \<open>A thread may also wake up without a reason.\<close>

inductive fm_run :: "(nat \<Rightarrow> int \<Rightarrow> 'c \<Rightarrow> bool) \<Rightarrow> 'c fm_state \<Rightarrow> 'c fm_state \<Rightarrow> bool" for as_of s0 where
  start: "fm_run as_of s0 s0"
| step: "fm_run as_of s0 s \<Longrightarrow> t < length (fm_threads s) \<Longrightarrow> answer_ok as_of ans (fm_threads s ! t) \<Longrightarrow> fm_step ans t s = Some (Inr s') \<Longrightarrow> fm_run as_of s0 s'"
| spurious: "fm_run as_of s0 s \<Longrightarrow> t < length (fm_threads s) \<Longrightarrow> ft_pc (fm_threads s ! t) = Asleep todo \<Longrightarrow>
    fm_run as_of s0 (s\<lparr>fm_threads := (fm_threads s)[t := (fm_threads s ! t)\<lparr>ft_pc := Loop todo\<rparr>]\<rparr>)"

fun fm_exec :: "(nat \<Rightarrow> int \<Rightarrow> 'c \<Rightarrow> bool) \<Rightarrow> (nat \<times> int \<times> 'c list) list \<Rightarrow> 'c fm_state \<Rightarrow> 'c fm_state option" where
  "fm_exec as_of [] s = Some s"
| "fm_exec as_of ((t, ans) # sched) s = (if t < length (fm_threads s) \<and> answer_ok as_of ans (fm_threads s ! t)
     then (case fm_step ans t s of Some (Inr s') \<Rightarrow> fm_exec as_of sched s' | _ \<Rightarrow> None) else None)"

section \<open>Lists of clocks\<close>

definition clocks_sorted :: "clock_list \<Rightarrow> bool" where
  "clocks_sorted l \<longleftrightarrow> sorted_wrt (<) (map fst l)"

definition blocked :: "int \<Rightarrow> clock_list \<Rightarrow> bool" where
  "blocked m l \<longleftrightarrow> (case l of [] \<Rightarrow> False | (f, x) # l' \<Rightarrow> f < m \<or> (f = m \<and> x))"

lemma insert_clock_Cons:
  assumes "f < m" "clocks_sorted l"
  shows "insert_clock m ((f, x) # l) = (f, x) # (case l of [] \<Rightarrow> [(m, False)] | (g, y) # l' \<Rightarrow> if g = m then l else if g > m then (m, False) # l else insert_clock m l)"
proof (cases l)
  case (Cons p l')
  have "fst p < fst (last l')" if "l' \<noteq> []" using assms(2) that unfolding Cons clocks_sorted_def by (simp add: last_in_set)
  then show ?thesis using assms(1) Cons by (cases p) (auto simp: insert_clock_def Let_def)
qed (use assms(1) in \<open>simp add: insert_clock_def\<close>)

lemma insert_clock_ok:
  assumes "clocks_sorted ((f, x) # l)" "f < m"
  shows "clocks_sorted (insert_clock m ((f, x) # l)) \<and> (\<exists>l'. insert_clock m ((f, x) # l) = (f, x) # l')
    \<and> set (insert_clock m ((f, x) # l)) = set ((f, x) # l) \<union> (if m \<in> fst ` set l then {} else {(m, False)})"
  using assms
proof (induction l arbitrary: f x)
  case Nil
  then show ?case by (auto simp: insert_clock_Cons clocks_sorted_def)
next
  case (Cons p l)
  obtain g y where p: "p = (g, y)" by fastforce
  have sorted: "clocks_sorted (p # l)" using Cons.prems(1) by (simp add: clocks_sorted_def)
  have gt: "g < h" if "h \<in> fst ` set l" for h using Cons.prems(1) that by (auto simp: p clocks_sorted_def)
  show ?case
  proof (cases "g < m")
    case True
    then show ?thesis using Cons.IH [of g y] Cons.prems insert_clock_Cons [OF Cons.prems(2) sorted] by (auto simp: p clocks_sorted_def)
  next
    case False
    then have "m \<notin> fst ` set l" using gt by force
    then show ?thesis using Cons.prems False insert_clock_Cons [OF Cons.prems(2) sorted] by (auto simp: p clocks_sorted_def)
  qed
qed

lemma claim_cases:
  assumes "clocks_sorted l"
  obtains (none) "l = []" "claim m l = ([(m, True)], True)"
  | (work) l1 where "l = (m, False) # l1" "m \<notin> fst ` set l1" "claim m l = ((m, True) # l1, True)"
  | (busy) l1 where "l = (m, True) # l1" "m \<notin> fst ` set l1" "claim m l = (l, False)"
  | (later) g y l1 l2 where "l = (g, y) # l1" "g < m" "claim m l = ((g, y) # l2, False)" "clocks_sorted ((g, y) # l2)" "set l2 = set l1 \<union> (if m \<in> fst ` set l1 then {} else {(m, False)})"
  | (first) g y l1 where "l = (g, y) # l1" "m < g" "m \<notin> fst ` set l" "claim m l = ((m, True) # l, True)"
proof (cases l)
  case Nil
  then show ?thesis using none by (simp add: claim_def)
next
  case (Cons p l1)
  obtain g y where p: "p = (g, y)" by fastforce
  have up: "\<forall>h \<in> fst ` set l1. g < h" using assms by (auto simp: Cons p clocks_sorted_def)
  consider "m = g" "y" | "m = g" "\<not> y" | "g < m" | "m < g" by linarith
  then show ?thesis
  proof cases
    case 3
    let ?new = "set l1 \<union> (if m \<in> fst ` set l1 then {} else {(m, False)})"
    have "g \<notin> fst ` set l1" using up by blast
    then have "(g, y) \<notin> ?new" using 3 by (auto simp: image_iff)
    moreover obtain l2 where l2: "insert_clock m l = (g, y) # l2" "clocks_sorted ((g, y) # l2)" "set ((g, y) # l2) = set l \<union> (if m \<in> fst ` set l1 then {} else {(m, False)})"
      using insert_clock_ok [OF assms [unfolded Cons p] 3] by (auto simp: Cons p)
    moreover have "(g, y) \<notin> set l2" using l2(2) by (auto simp: clocks_sorted_def)
    moreover have "insert (g, y) (set l2) = insert (g, y) ?new" using l2(3) by (simp add: Cons p)
    ultimately have "set l2 = ?new" using insert_ident by metis
    then show ?thesis using later [OF _ 3 _ l2(2)] 3 l2(1) by (simp add: Cons p claim_def)
  qed (use up work busy first in \<open>fastforce simp: Cons p claim_def\<close>)+
qed

lemma claim_ok:
  assumes "clocks_sorted l" "claim m l = (l', mine)"
  shows "clocks_sorted l'" "if mine then (m, True) \<in> set l' \<and> (m, True) \<notin> set l else blocked m l'"
    "(f, x) \<in> set l' \<Longrightarrow> (f, x) \<in> set l \<or> f = m \<and> x = mine" "(f, x) \<in> set l \<Longrightarrow> (f, x) \<in> set l' \<or> f = m \<and> \<not> x \<and> mine"
    "(m, False) \<in> set l' \<Longrightarrow> \<not> mine" "blocked n l \<Longrightarrow> blocked n l'"
proof -
  have "clocks_sorted l' \<and> (if mine then (m, True) \<in> set l' \<and> (m, True) \<notin> set l else blocked m l') \<and> ((f, x) \<in> set l' \<longrightarrow> (f, x) \<in> set l \<or> f = m \<and> x = mine)
    \<and> ((f, x) \<in> set l \<longrightarrow> (f, x) \<in> set l' \<or> f = m \<and> \<not> x \<and> mine) \<and> ((m, False) \<in> set l' \<longrightarrow> \<not> mine) \<and> (blocked n l \<longrightarrow> blocked n l')" (is ?all)
    using assms(1)
  proof (cases rule: claim_cases [where m = m])
    case (first g y l1)
    then show ?thesis using assms by (force simp: clocks_sorted_def blocked_def)
  qed (use assms in \<open>force simp: clocks_sorted_def blocked_def split: if_splits\<close>)+
  then show "clocks_sorted l'" "if mine then (m, True) \<in> set l' \<and> (m, True) \<notin> set l else blocked m l'"
    "(f, x) \<in> set l' \<Longrightarrow> (f, x) \<in> set l \<or> f = m \<and> x = mine" "(f, x) \<in> set l \<Longrightarrow> (f, x) \<in> set l' \<or> f = m \<and> \<not> x \<and> mine"
    "(m, False) \<in> set l' \<Longrightarrow> \<not> mine" "blocked n l \<Longrightarrow> blocked n l'" by blast+
qed

lemma erase_clocks_ok:
  assumes "clocks_sorted l"
  shows "clocks_sorted (erase_clocks k l)" "(f, x) \<in> set (erase_clocks k l) \<longleftrightarrow> (f, x) \<in> set l \<and> k < f"
  using assms
proof (induction l)
  case (Cons p l)
  {
    case 1
    then show ?case using Cons.IH(1) by (auto simp: erase_clocks_def clocks_sorted_def split: prod.splits)
  next
    case 2
    then show ?case using Cons.IH(2) by (auto simp: erase_clocks_def clocks_sorted_def split: prod.splits)
  }
qed (auto simp: erase_clocks_def)

section \<open>Invariant\<close>

text \<open>The chunks that a thread waits for, that it has taken on itself, that it still has to bring up to date, and all that it names.\<close>

fun wants :: "'c fm_pc \<Rightarrow> nat set" where
  "wants (Loop todo) = set todo"
| "wants (Test rest wait real) = set rest \<union> set wait"
| "wants (Asleep todo) = set todo"
| "wants (Fetch real wait) = set wait"
| "wants (Store items k real wait) = set wait"
| "wants (Erase k real wait) = set wait"
| "wants pc = {}"

fun claims :: "'c fm_pc \<Rightarrow> nat set" where
  "claims (Test rest wait real) = set real"
| "claims (Fetch real wait) = set real"
| "claims (Store items k real wait) = set real"
| "claims (Erase k real wait) = set real"
| "claims pc = {}"

fun fm_pending :: "'c fm_pc \<Rightarrow> nat set" where
  "fm_pending (Gather rest todo) = set rest \<union> set todo"
| "fm_pending (Fetch real wait) = set real \<union> set wait"
| "fm_pending (Test rest wait real) = set rest \<union> set wait \<union> set real"
| "fm_pending (Store items k real wait) = fst ` set items \<union> set wait"
| "fm_pending pc = wants pc"

fun named :: "'c fm_pc \<Rightarrow> nat set" where
  "named (Copy rest vals) = set rest"
| "named pc = fm_pending pc \<union> claims pc"

text \<open>A thread that has an answer with clock \<open>k\<close> is going to erase all the entries of its chunks up to \<open>k\<close>.\<close>

fun covers :: "'c fm_pc \<Rightarrow> nat \<Rightarrow> int \<Rightarrow> bool" where
  "covers (Store items k real wait) c f \<longleftrightarrow> c \<in> set real \<and> f \<le> k"
| "covers (Erase k real wait) c f \<longleftrightarrow> c \<in> set real \<and> f \<le> k"
| "covers pc c f \<longleftrightarrow> False"

definition good :: "(nat \<Rightarrow> int \<Rightarrow> 'c \<Rightarrow> bool) \<Rightarrow> int \<Rightarrow> nat \<Rightarrow> 'c \<times> int \<Rightarrow> bool" where
  "good as_of m c = (\<lambda>(v, q). m \<le> q \<and> (q = -1 \<or> as_of c q v))"

fun fm_pc_ok :: "(nat \<Rightarrow> int \<Rightarrow> 'c \<Rightarrow> bool) \<Rightarrow> nat list \<Rightarrow> int \<Rightarrow> int list \<Rightarrow> clock_list list \<Rightarrow> 'c fm_pc \<Rightarrow> bool" where
  "fm_pc_ok as_of chunks m clocks ls (Test rest wait real) \<longleftrightarrow> (\<forall>c \<in> set wait. blocked m (ls ! c))"
| "fm_pc_ok as_of chunks m clocks ls (Asleep todo) \<longleftrightarrow> todo \<noteq> [] \<and> (\<forall>c \<in> set todo. blocked m (ls ! c))"
| "fm_pc_ok as_of chunks m clocks ls (Fetch real wait) \<longleftrightarrow> real \<noteq> []"
| "fm_pc_ok as_of chunks m clocks ls (Store items k real wait) \<longleftrightarrow> real \<noteq> [] \<and> m \<le> k \<and> fst ` set items \<subseteq> set real \<and> (\<forall>(c, v) \<in> set items. as_of c k v) \<and> (\<forall>c \<in> set real. c \<in> fst ` set items \<or> k \<le> clocks ! c)"
| "fm_pc_ok as_of chunks m clocks ls (Erase k real wait) \<longleftrightarrow> real \<noteq> [] \<and> m \<le> k \<and> (\<forall>c \<in> set real. k \<le> clocks ! c)"
| "fm_pc_ok as_of chunks m clocks ls (Copy rest vals) \<longleftrightarrow> (\<exists>pre. chunks = pre @ rest \<and> list_all2 (good as_of m) pre vals)"
| "fm_pc_ok as_of chunks m clocks ls pc \<longleftrightarrow> True"

definition current :: "'c fm_thread \<Rightarrow> (nat list \<times> int) list" where
  "current th = (if ft_pc th = Ready then [] else [(ft_chunks th, ft_min th)])"

definition fm_thread_ok :: "(nat \<Rightarrow> int \<Rightarrow> 'c \<Rightarrow> bool) \<Rightarrow> (nat list \<times> int) list \<Rightarrow> int list \<Rightarrow> clock_list list \<Rightarrow> 'c fm_thread \<Rightarrow> bool" where
  "fm_thread_ok as_of calls clocks ls th \<longleftrightarrow> map (\<lambda>(chunks, m, vals). (chunks, m)) (ft_done th) @ current th @ ft_calls th = calls
     \<and> (\<forall>(chunks, m, vals) \<in> set (ft_done th). list_all2 (good as_of m) chunks vals)
     \<and> named (ft_pc th) \<subseteq> set (ft_chunks th)
     \<and> (ft_pc th \<noteq> Ready \<longrightarrow> (\<forall>c \<in> set (ft_chunks th). c \<in> fm_pending (ft_pc th) \<or> ft_min th \<le> clocks ! c))
     \<and> (\<forall>c \<in> claims (ft_pc th). (ft_min th, True) \<in> set (ls ! c) \<or> ft_min th \<le> clocks ! c)
     \<and> fm_pc_ok as_of (ft_chunks th) (ft_min th) clocks ls (ft_pc th)"

definition testing :: "'c fm_pc \<Rightarrow> bool" where
  "testing pc \<longleftrightarrow> (\<exists>rest wait real. pc = Test rest wait real)"

definition supported :: "nat \<Rightarrow> nat \<Rightarrow> (nat \<Rightarrow> 'c fm_thread) \<Rightarrow> int list \<Rightarrow> clock_list list \<Rightarrow> bool" where
  "supported N T th clocks ls \<longleftrightarrow> (\<forall>c < N. \<forall>(f, x) \<in> set (ls ! c). (\<exists>t < T. covers (ft_pc (th t)) c f)
     \<or> clocks ! c < f \<and> (\<exists>t < T. ft_min (th t) = f \<and> c \<in> (if x then claims (ft_pc (th t)) else wants (ft_pc (th t)))))"

definition apart :: "nat \<Rightarrow> (nat \<Rightarrow> 'c fm_thread) \<Rightarrow> bool" where
  "apart T th \<longleftrightarrow> (\<forall>t < T. \<forall>t' < T. t \<noteq> t' \<and> ft_min (th t) = ft_min (th t') \<longrightarrow> claims (ft_pc (th t)) \<inter> claims (ft_pc (th t')) = {})"

definition shared_ok :: "(nat \<Rightarrow> int \<Rightarrow> 'c \<Rightarrow> bool) \<Rightarrow> nat \<Rightarrow> 'c list \<Rightarrow> int list \<Rightarrow> clock_list list \<Rightarrow> bool" where
  "shared_ok as_of N params clocks ls \<longleftrightarrow> length params = N \<and> length clocks = N \<and> length ls = N \<and> (\<forall>c < N. clocks_sorted (ls ! c) \<and> (clocks ! c = -1 \<or> as_of c (clocks ! c) (params ! c)))"

definition mutex_ok :: "nat \<Rightarrow> (nat \<Rightarrow> 'c fm_thread) \<Rightarrow> nat option \<Rightarrow> bool" where
  "mutex_ok T th holder \<longleftrightarrow> (\<forall>t < T. testing (ft_pc (th t)) \<longleftrightarrow> holder = Some t) \<and> (\<forall>t. holder = Some t \<longrightarrow> t < T)"

definition fm_inv :: "(nat \<Rightarrow> int \<Rightarrow> 'c \<Rightarrow> bool) \<Rightarrow> nat \<Rightarrow> (nat list \<times> int) list list \<Rightarrow> 'c fm_state \<Rightarrow> bool" where
  "fm_inv as_of N calls s \<longleftrightarrow> length (fm_threads s) = length calls \<and> shared_ok as_of N (fm_params s) (fm_clocks s) (fm_lists s)
     \<and> (\<forall>t < length calls. fm_thread_ok as_of (calls ! t) (fm_clocks s) (fm_lists s) (fm_threads s ! t))
     \<and> supported N (length calls) (\<lambda>t. fm_threads s ! t) (fm_clocks s) (fm_lists s) \<and> apart (length calls) (\<lambda>t. fm_threads s ! t) \<and> mutex_ok (length calls) (\<lambda>t. fm_threads s ! t) (fm_mutex s)"

definition calls_ok :: "nat \<Rightarrow> (nat list \<times> int) list list \<Rightarrow> bool" where
  "calls_ok N calls \<longleftrightarrow> list_all (list_all (\<lambda>(chunks, m). list_all (\<lambda>c. c < N) chunks)) calls"

lemma calls_in_range:
  assumes "calls_ok N calls" "t < length calls" "fm_thread_ok as_of (calls ! t) clocks ls th"
  shows "ft_pc th \<noteq> Ready \<Longrightarrow> set (ft_chunks th) \<subseteq> {..<N}" "ft_calls th = (chunks, m) # cs \<Longrightarrow> set chunks \<subseteq> {..<N}"
proof -
  have all: "list_all (\<lambda>(chunks, m). list_all (\<lambda>c. c < N) chunks) (calls ! t)" using assms(1,2) by (simp add: calls_ok_def list_all_length)
  have eq: "calls ! t = map (\<lambda>(chunks, m, vals). (chunks, m)) (ft_done th) @ current th @ ft_calls th" using assms(3) by (simp add: fm_thread_ok_def)
  show "set (ft_chunks th) \<subseteq> {..<N}" if "ft_pc th \<noteq> Ready"
  proof -
    have "(ft_chunks th, ft_min th) \<in> set (calls ! t)" using that unfolding eq by (simp add: current_def)
    then show ?thesis using all by (auto simp: list_all_iff)
  qed
  show "set chunks \<subseteq> {..<N}" if "ft_calls th = (chunks, m) # cs"
  proof -
    have "(chunks, m) \<in> set (calls ! t)" using that unfolding eq by simp
    then show ?thesis using all by (auto simp: list_all_iff)
  qed
qed

text \<open>The invariant of a thread survives what the others do to the clocks and the lists.\<close>

lemma fm_thread_ok_mono:
  assumes "fm_thread_ok as_of cs clocks ls th" and range: "ft_pc th \<noteq> Ready \<Longrightarrow> set (ft_chunks th) \<subseteq> {..<N}" and up: "\<And>c. c < N \<Longrightarrow> clocks ! c \<le> clocks' ! c"
    and kept: "\<And>c. c < N \<Longrightarrow> (ft_min th, True) \<in> set (ls ! c) \<Longrightarrow> (ft_min th, True) \<in> set (ls' ! c) \<or> ft_min th \<le> clocks' ! c"
    and blk: "\<And>c. c < N \<Longrightarrow> blocked (ft_min th) (ls ! c) \<Longrightarrow> testing (ft_pc th) \<or> (\<exists>todo. ft_pc th = Asleep todo) \<Longrightarrow> blocked (ft_min th) (ls' ! c)"
  shows "fm_thread_ok as_of cs clocks' ls' th"
proof -
  have ids: "c < N" if "c \<in> named (ft_pc th)" for c using assms(1) range that by (cases "ft_pc th = Ready") (auto simp: fm_thread_ok_def)
  have mono: "a \<le> clocks' ! c" if "a \<le> clocks ! c" "c < N" for a c using up [OF that(2)] that(1) by linarith
  have "\<forall>c \<in> claims (ft_pc th). (ft_min th, True) \<in> set (ls' ! c) \<or> ft_min th \<le> clocks' ! c"
  proof
    fix c assume c: "c \<in> claims (ft_pc th)"
    then have "c < N" by (intro ids) (cases "ft_pc th", auto)
    then show "(ft_min th, True) \<in> set (ls' ! c) \<or> ft_min th \<le> clocks' ! c" using c assms(1) kept mono unfolding fm_thread_ok_def by blast
  qed
  moreover have "fm_pc_ok as_of (ft_chunks th) (ft_min th) clocks' ls' (ft_pc th)"
  proof -
    have "fm_pc_ok as_of (ft_chunks th) (ft_min th) clocks ls (ft_pc th)" using assms(1) by (simp add: fm_thread_ok_def)
    then show ?thesis using ids mono blk by (cases "ft_pc th") (fastforce simp: testing_def)+
  qed
  ultimately show ?thesis using assms(1) range mono unfolding fm_thread_ok_def by blast
qed

lemma fm_update:
  assumes inv: "fm_inv as_of N calls s" and calls: "calls_ok N calls" and t: "t < length calls" and shared: "shared_ok as_of N params clocks ls"
    and up: "\<And>c. c < N \<Longrightarrow> fm_clocks s ! c \<le> clocks ! c"
    and kept: "\<And>c f. c < N \<Longrightarrow> (f, True) \<in> set (fm_lists s ! c) \<Longrightarrow> (f, True) \<in> set (ls ! c) \<or> f \<le> clocks ! c"
    and blk: "\<And>c m t'. c < N \<Longrightarrow> blocked m (fm_lists s ! c) \<Longrightarrow> t' < length calls \<Longrightarrow> testing (ft_pc (fm_threads s ! t')) \<or> (\<exists>todo. ft_pc (fm_threads s ! t') = Asleep todo) \<Longrightarrow> blocked m (ls ! c)"
    and th: "fm_thread_ok as_of (calls ! t) clocks ls th" and sup: "supported N (length calls) (\<lambda>t'. (fm_threads s)[t := th] ! t') clocks ls"
    and ap: "\<And>t'. t' < length calls \<Longrightarrow> t' \<noteq> t \<Longrightarrow> ft_min (fm_threads s ! t') = ft_min th \<Longrightarrow> claims (ft_pc th) \<inter> claims (ft_pc (fm_threads s ! t')) = {}"
    and mu: "mutex_ok (length calls) (\<lambda>t'. (fm_threads s)[t := th] ! t') holder"
  shows "fm_inv as_of N calls (s\<lparr>fm_params := params, fm_clocks := clocks, fm_lists := ls, fm_mutex := holder, fm_threads := (fm_threads s)[t := th]\<rparr>)"
proof -
  have len: "length (fm_threads s) = length calls" using inv by (simp add: fm_inv_def)
  have "fm_thread_ok as_of (calls ! t') clocks ls ((fm_threads s)[t := th] ! t')" if t': "t' < length calls" for t'
  proof (cases "t' = t")
    case True
    then show ?thesis using th len t by simp
  next
    case False
    have old: "fm_thread_ok as_of (calls ! t') (fm_clocks s) (fm_lists s) (fm_threads s ! t')" using inv t' by (simp add: fm_inv_def)
    have "fm_thread_ok as_of (calls ! t') clocks ls (fm_threads s ! t')" by (rule fm_thread_ok_mono [OF old calls_in_range(1) [OF calls t' old]]) (use up kept blk t' in blast)+
    then show ?thesis using False by simp
  qed
  moreover have "apart (length calls) (\<lambda>t'. (fm_threads s)[t := th] ! t')"
  proof -
    have "apart (length calls) (\<lambda>t'. fm_threads s ! t')" using inv by (simp add: fm_inv_def)
    then show ?thesis using ap len t unfolding apart_def by (auto simp: nth_list_update Int_commute)
  qed
  ultimately show ?thesis using shared sup mu len by (simp add: fm_inv_def)
qed

text \<open>The support of the entries has to be looked at only where it came from the thread that makes the step.\<close>

lemma supported_step:
  assumes sup: "supported N T (\<lambda>t. ths ! t) clocks ls" and len: "length ths = T" and t: "t < T"
    and new: "\<And>c f x. c < N \<Longrightarrow> (f, x) \<in> set (ls' ! c) \<Longrightarrow> covers (ft_pc th) c f \<or> clocks' ! c < f \<and> ft_min th = f \<and> c \<in> (if x then claims (ft_pc th) else wants (ft_pc th))
      \<or> (f, x) \<in> set (ls ! c) \<and> (clocks ! c < f \<longrightarrow> clocks' ! c < f) \<and> \<not> covers (ft_pc (ths ! t)) c f
        \<and> \<not> (clocks ! c < f \<and> ft_min (ths ! t) = f \<and> c \<in> (if x then claims (ft_pc (ths ! t)) else wants (ft_pc (ths ! t))))"
  shows "supported N T (\<lambda>t'. ths[t := th] ! t') clocks' ls'"
proof -
  have "(\<exists>t' < T. covers (ft_pc (ths[t := th] ! t')) c f) \<or> clocks' ! c < f \<and> (\<exists>t' < T. ft_min (ths[t := th] ! t') = f
    \<and> c \<in> (if x then claims (ft_pc (ths[t := th] ! t')) else wants (ft_pc (ths[t := th] ! t'))))" if c: "c < N" "(f, x) \<in> set (ls' ! c)" for c f x
  proof (cases "covers (ft_pc th) c f \<or> clocks' ! c < f \<and> ft_min th = f \<and> c \<in> (if x then claims (ft_pc th) else wants (ft_pc th))")
    case True
    then show ?thesis using t len by (metis nth_list_update_eq)
  next
    case False
    then have n: "(f, x) \<in> set (ls ! c)" "clocks ! c < f \<longrightarrow> clocks' ! c < f" "\<not> covers (ft_pc (ths ! t)) c f"
      "\<not> (clocks ! c < f \<and> ft_min (ths ! t) = f \<and> c \<in> (if x then claims (ft_pc (ths ! t)) else wants (ft_pc (ths ! t))))" using new [OF c] by blast+
    consider t' where "t' < T" "covers (ft_pc (ths ! t')) c f"
      | t' where "clocks ! c < f" "t' < T" "ft_min (ths ! t') = f" "c \<in> (if x then claims (ft_pc (ths ! t')) else wants (ft_pc (ths ! t')))"
      using sup c(1) n(1) unfolding supported_def by blast
    then obtain t' where t': "t' < T" "t' \<noteq> t" "covers (ft_pc (ths ! t')) c f \<or> clocks ! c < f \<and> ft_min (ths ! t') = f \<and> c \<in> (if x then claims (ft_pc (ths ! t')) else wants (ft_pc (ths ! t')))"
      using n(3,4) by (metis (no_types))
    then have "ths[t := th] ! t' = ths ! t'" by simp
    then show ?thesis using t' n(2) by (metis (no_types))
  qed
  then show ?thesis unfolding supported_def by blast
qed

text \<open>A step of a thread that changes neither clocks nor lists.\<close>

lemma fm_local:
  assumes inv: "fm_inv as_of N calls s" and calls: "calls_ok N calls" and t: "t < length calls" and th: "fm_thread_ok as_of (calls ! t) (fm_clocks s) (fm_lists s) th'"
    and wants: "wants (ft_pc (fm_threads s ! t)) \<noteq> {} \<or> claims (ft_pc (fm_threads s ! t)) \<noteq> {} \<Longrightarrow> ft_min th' = ft_min (fm_threads s ! t)"
      "wants (ft_pc (fm_threads s ! t)) \<subseteq> wants (ft_pc th')" "claims (ft_pc th') = claims (ft_pc (fm_threads s ! t))" "\<And>c f. covers (ft_pc (fm_threads s ! t)) c f \<Longrightarrow> covers (ft_pc th') c f"
    and mu: "mutex_ok (length calls) (\<lambda>t'. (fm_threads s)[t := th'] ! t') holder"
  shows "fm_inv as_of N calls (s\<lparr>fm_mutex := holder, fm_threads := (fm_threads s)[t := th']\<rparr>)"
proof -
  have len: "length (fm_threads s) = length calls" and sup: "supported N (length calls) (\<lambda>t. fm_threads s ! t) (fm_clocks s) (fm_lists s)"
    and ap: "apart (length calls) (\<lambda>t. fm_threads s ! t)" and sh: "shared_ok as_of N (fm_params s) (fm_clocks s) (fm_lists s)" using inv by (simp_all add: fm_inv_def)
  have sup': "supported N (length calls) (\<lambda>t'. (fm_threads s)[t := th'] ! t') (fm_clocks s) (fm_lists s)"
    by (rule supported_step [OF sup len t]) (use wants in \<open>auto split: if_splits\<close>)
  have "claims (ft_pc th') \<inter> claims (ft_pc (fm_threads s ! t')) = {}" if "t' < length calls" "t' \<noteq> t" "ft_min (fm_threads s ! t') = ft_min th'" for t'
    using ap that t wants(1,3) unfolding apart_def by (cases "claims (ft_pc (fm_threads s ! t)) = {}") (simp, metis)
  then have "fm_inv as_of N calls (s\<lparr>fm_params := fm_params s, fm_clocks := fm_clocks s, fm_lists := fm_lists s, fm_mutex := holder, fm_threads := (fm_threads s)[t := th']\<rparr>)"
    by (intro fm_update [OF inv calls t sh _ _ _ th sup' _ mu]) auto
  then show ?thesis by simp
qed

lemma mutex_update:
  assumes "mutex_ok T (\<lambda>t. ths ! t) holder" "t < T" "T = length ths"
    and "if testing (ft_pc th) then holder \<in> {None, Some t} \<and> holder' = Some t else holder' = (if holder = Some t then None else holder)"
  shows "mutex_ok T (\<lambda>t'. ths[t := th] ! t') holder'"
  using assms unfolding mutex_ok_def by (auto simp: nth_list_update split: if_splits)

lemma fm_goto:
  assumes inv: "fm_inv as_of N calls s" and calls: "calls_ok N calls" and t: "t < length calls" and th: "th = fm_threads s ! t"
    and ok: "ft_pc th \<noteq> Ready" "pc \<noteq> Ready" "named pc \<subseteq> set (ft_chunks th)" "\<And>c. c \<in> set (ft_chunks th) \<Longrightarrow> c \<in> fm_pending (ft_pc th) \<Longrightarrow> c \<notin> fm_pending pc \<Longrightarrow> ft_min th \<le> fm_clocks s ! c"
      "fm_pc_ok as_of (ft_chunks th) (ft_min th) (fm_clocks s) (fm_lists s) pc"
    and wants: "wants (ft_pc th) \<subseteq> wants pc" "claims pc = claims (ft_pc th)" "\<And>c f. covers (ft_pc th) c f \<Longrightarrow> covers pc c f"
    and mu: "if testing pc then fm_mutex s \<in> {None, Some t} \<and> holder = Some t else holder = (if fm_mutex s = Some t then None else fm_mutex s)"
  shows "fm_inv as_of N calls (s\<lparr>fm_mutex := holder, fm_threads := (fm_threads s)[t := th\<lparr>ft_pc := pc\<rparr>]\<rparr>)"
proof (rule fm_local [OF inv calls t])
  have old: "fm_thread_ok as_of (calls ! t) (fm_clocks s) (fm_lists s) th" and len: "length calls = length (fm_threads s)" and mo: "mutex_ok (length calls) (\<lambda>t. fm_threads s ! t) (fm_mutex s)"
    using inv t th by (simp_all add: fm_inv_def)
  have "\<forall>c \<in> set (ft_chunks th). c \<in> fm_pending pc \<or> ft_min th \<le> fm_clocks s ! c" using old ok(1,4) unfolding fm_thread_ok_def by blast
  then show "fm_thread_ok as_of (calls ! t) (fm_clocks s) (fm_lists s) (th\<lparr>ft_pc := pc\<rparr>)" using old ok(1,2,3,5) wants(2) by (simp add: fm_thread_ok_def current_def)
  show "mutex_ok (length calls) (\<lambda>t'. (fm_threads s)[t := th\<lparr>ft_pc := pc\<rparr>] ! t') holder" by (rule mutex_update [OF mo t len]) (use mu in simp)
qed (use wants th in simp_all)

lemma fm_apart:
  assumes "fm_inv as_of N calls s" "t < length calls" "t' < length calls" "t' \<noteq> t" "ft_min (fm_threads s ! t') = ft_min (fm_threads s ! t)"
  shows "claims (ft_pc (fm_threads s ! t)) \<inter> claims (ft_pc (fm_threads s ! t')) = {}"
proof -
  have "apart (length calls) (\<lambda>t. fm_threads s ! t)" using assms(1) by (simp add: fm_inv_def)
  then show ?thesis using assms(2-5) unfolding apart_def by metis
qed

lemma fm_invD:
  assumes "fm_inv as_of N calls s" "calls_ok N calls" "t < length calls"
  shows "length (fm_threads s) = length calls" "shared_ok as_of N (fm_params s) (fm_clocks s) (fm_lists s)" "fm_thread_ok as_of (calls ! t) (fm_clocks s) (fm_lists s) (fm_threads s ! t)"
    "testing (ft_pc (fm_threads s ! t)) \<longleftrightarrow> fm_mutex s = Some t" "length (fm_clocks s) = N" "length (fm_params s) = N" "length (fm_lists s) = N"
    "c \<in> named (ft_pc (fm_threads s ! t)) \<Longrightarrow> c < N"
proof -
  show th: "fm_thread_ok as_of (calls ! t) (fm_clocks s) (fm_lists s) (fm_threads s ! t)" using assms by (simp add: fm_inv_def)
  show "c < N" if "c \<in> named (ft_pc (fm_threads s ! t))"
    using calls_in_range(1) [OF assms(2,3) th] th that by (cases "ft_pc (fm_threads s ! t) = Ready") (auto simp: fm_thread_ok_def)
qed (use assms in \<open>simp_all add: fm_inv_def shared_ok_def mutex_ok_def\<close>)

definition fm_safe :: "(nat \<Rightarrow> int \<Rightarrow> 'c \<Rightarrow> bool) \<Rightarrow> nat \<Rightarrow> (nat list \<times> int) list list \<Rightarrow> (error + 'c fm_state) option \<Rightarrow> bool" where
  "fm_safe as_of N calls r \<longleftrightarrow> r = None \<or> (\<exists>s'. r = Some (Inr s') \<and> fm_inv as_of N calls s')"

lemma fm_safeI: "r = Some (Inr s') \<Longrightarrow> fm_inv as_of N calls s' \<Longrightarrow> fm_safe as_of N calls r"
  by (simp add: fm_safe_def)

lemma keep_mutex: "(s::'c fm_state)\<lparr>fm_mutex := fm_mutex s, fm_threads := ths\<rparr> = s\<lparr>fm_threads := ths\<rparr>"
  by simp

lemma step_Gather:
  assumes inv: "fm_inv as_of N calls s" "calls_ok N calls" "t < length calls" and pc: "ft_pc (fm_threads s ! t) = Gather rest todo"
  shows "fm_safe as_of N calls (fm_step ans t s)"
proof -
  note d = fm_invD [OF inv]
  note goto = fm_goto [OF inv refl, where holder = "fm_mutex s", unfolded keep_mutex]
  have named: "set rest \<union> set todo \<subseteq> set (ft_chunks (fm_threads s ! t))" using d(3) pc by (simp add: fm_thread_ok_def)
  have mu: "fm_mutex s \<noteq> Some t" using d(4) pc by (simp add: testing_def)
  show ?thesis
  proof (cases rest)
    case Nil
    have "fm_inv as_of N calls (s\<lparr>fm_threads := (fm_threads s)[t := (fm_threads s ! t)\<lparr>ft_pc := Loop todo\<rparr>]\<rparr>)" by (rule goto) (use pc Nil named mu in \<open>auto simp: testing_def\<close>)
    then show ?thesis by (intro fm_safeI) (simp add: fm_step_def Let_def pc Nil)
  next
    case (Cons c rest')
    have c: "c < N" by (rule d(8)) (simp add: pc Cons)
    have "fm_inv as_of N calls (s\<lparr>fm_threads := (fm_threads s)[t := (fm_threads s ! t)\<lparr>ft_pc := Gather rest' (if fm_clocks s ! c < ft_min (fm_threads s ! t) then todo @ [c] else todo)\<rparr>]\<rparr>)"
      by (rule goto) (use pc Cons named mu in \<open>auto simp: testing_def split: if_splits\<close>)
    then show ?thesis by (intro fm_safeI) (simp_all add: fm_step_def Let_def pc Cons vec_get_def d(5) c)
  qed
qed

lemma step_Loop:
  assumes inv: "fm_inv as_of N calls s" "calls_ok N calls" "t < length calls" and pc: "ft_pc (fm_threads s ! t) = Loop todo"
  shows "fm_safe as_of N calls (fm_step ans t s)"
proof -
  note d = fm_invD [OF inv]
  have named: "set todo \<subseteq> set (ft_chunks (fm_threads s ! t))" using d(3) pc by (simp add: fm_thread_ok_def)
  have mu: "fm_mutex s \<noteq> Some t" using d(4) pc by (simp add: testing_def)
  show ?thesis
  proof (cases todo)
    case Nil
    have "fm_inv as_of N calls (s\<lparr>fm_threads := (fm_threads s)[t := (fm_threads s ! t)\<lparr>ft_pc := Copy (ft_chunks (fm_threads s ! t)) []\<rparr>]\<rparr>)"
      by (rule fm_goto [OF inv refl, where holder = "fm_mutex s", unfolded keep_mutex]) (use pc Nil mu in \<open>auto simp: testing_def\<close>)
    then show ?thesis by (intro fm_safeI) (simp add: fm_step_def Let_def pc Nil)
  next
    case (Cons c cs)
    have "fm_inv as_of N calls (s\<lparr>fm_mutex := Some t, fm_threads := (fm_threads s)[t := (fm_threads s ! t)\<lparr>ft_pc := Test todo [] []\<rparr>]\<rparr>)" if "fm_mutex s = None"
      by (rule fm_goto [OF inv refl]) (use pc named that in \<open>auto simp: testing_def\<close>)
    then show ?thesis by (cases "fm_mutex s") (simp_all add: fm_safe_def fm_step_def Let_def pc Cons)
  qed
qed

lemma step_Test_end:
  assumes inv: "fm_inv as_of N calls s" "calls_ok N calls" "t < length calls" and pc: "ft_pc (fm_threads s ! t) = Test [] wait real"
  shows "fm_safe as_of N calls (fm_step ans t s)"
proof -
  note d = fm_invD [OF inv]
  let ?th = "fm_threads s ! t"
  let ?pc = "if real = [] \<and> wait = [] then Copy (ft_chunks ?th) [] else if real \<noteq> [] then Fetch real wait else Asleep wait"
  have named: "set wait \<union> set real \<subseteq> set (ft_chunks ?th)" and blk: "\<forall>c \<in> set wait. blocked (ft_min ?th) (fm_lists s ! c)" using d(3) pc by (simp_all add: fm_thread_ok_def)
  have mu: "fm_mutex s = Some t" using d(4) pc by (simp add: testing_def)
  have "fm_inv as_of N calls (s\<lparr>fm_mutex := None, fm_threads := (fm_threads s)[t := ?th\<lparr>ft_pc := ?pc\<rparr>]\<rparr>)"
    by (rule fm_goto [OF inv refl]) (use pc named blk mu in \<open>auto simp: testing_def split: if_splits\<close>)
  then show ?thesis by (intro fm_safeI) (simp_all add: fm_step_def Let_def pc)
qed

lemma step_Fetch:
  assumes inv: "fm_inv as_of N calls s" "calls_ok N calls" "t < length calls" and pc: "ft_pc (fm_threads s ! t) = Fetch real wait" and ans: "answer_ok as_of ans (fm_threads s ! t)"
  shows "fm_safe as_of N calls (fm_step ans t s)"
proof -
  note d = fm_invD [OF inv]
  let ?th = "fm_threads s ! t"
  have a: "ft_min ?th \<le> fst ans" "list_all2 (\<lambda>c v. as_of c (fst ans) v) real (snd ans)" using ans pc by (simp_all add: answer_ok_def)
  have keys: "fst ` set (zip real (snd ans)) = set real" using list_all2_lengthD [OF a(2)] by (metis list.set_map map_fst_zip)
  have vals: "\<forall>(c, v) \<in> set (zip real (snd ans)). as_of c (fst ans) v" using a(2) by (auto simp: list_all2_iff)
  have named: "set real \<union> set wait \<subseteq> set (ft_chunks ?th)" "real \<noteq> []" using d(3) pc by (simp_all add: fm_thread_ok_def)
  have mu: "fm_mutex s \<noteq> Some t" using d(4) pc by (simp add: testing_def)
  have "fm_inv as_of N calls (s\<lparr>fm_threads := (fm_threads s)[t := ?th\<lparr>ft_pc := Store (zip real (snd ans)) (fst ans) real wait\<rparr>]\<rparr>)"
    by (rule fm_goto [OF inv refl, where holder = "fm_mutex s", unfolded keep_mutex]) (use pc named keys vals a(1) mu in \<open>auto simp: testing_def\<close>)
  then show ?thesis by (intro fm_safeI) (simp_all add: fm_step_def Let_def pc)
qed

lemma step_Store_end:
  assumes inv: "fm_inv as_of N calls s" "calls_ok N calls" "t < length calls" and pc: "ft_pc (fm_threads s ! t) = Store [] k real wait"
  shows "fm_safe as_of N calls (fm_step ans t s)"
proof -
  note d = fm_invD [OF inv]
  let ?th = "fm_threads s ! t"
  have named: "set real \<union> set wait \<subseteq> set (ft_chunks ?th)" and k: "ft_min ?th \<le> k" "\<forall>c \<in> set real. k \<le> fm_clocks s ! c" "real \<noteq> []" using d(3) pc by (simp_all add: fm_thread_ok_def)
  have mu: "fm_mutex s \<noteq> Some t" using d(4) pc by (simp add: testing_def)
  have "fm_inv as_of N calls (s\<lparr>fm_threads := (fm_threads s)[t := ?th\<lparr>ft_pc := Erase k real wait\<rparr>]\<rparr>)"
    by (rule fm_goto [OF inv refl, where holder = "fm_mutex s", unfolded keep_mutex]) (use pc named k mu in \<open>auto simp: testing_def\<close>)
  then show ?thesis using k(1) by (intro fm_safeI) (simp_all add: fm_step_def Let_def pc)
qed

lemma step_Copy:
  assumes inv: "fm_inv as_of N calls s" "calls_ok N calls" "t < length calls" and pc: "ft_pc (fm_threads s ! t) = Copy (c # rest) vals"
  shows "fm_safe as_of N calls (fm_step ans t s)"
proof -
  note d = fm_invD [OF inv]
  let ?th = "fm_threads s ! t"
  obtain pre where pre: "ft_chunks ?th = pre @ c # rest" "list_all2 (good as_of (ft_min ?th)) pre vals" using d(3) pc by (auto simp: fm_thread_ok_def)
  have c: "c < N" by (rule d(8)) (simp add: pc)
  have "ft_min ?th \<le> fm_clocks s ! c" using d(3) pc pre(1) by (simp add: fm_thread_ok_def)
  moreover have "fm_clocks s ! c = -1 \<or> as_of c (fm_clocks s ! c) (fm_params s ! c)" using d(2) c by (simp add: shared_ok_def)
  ultimately have "list_all2 (good as_of (ft_min ?th)) (pre @ [c]) (vals @ [(fm_params s ! c, fm_clocks s ! c)])" using pre(2) by (auto simp: good_def intro: list_all2_appendI)
  moreover have "ft_chunks ?th = (pre @ [c]) @ rest" using pre(1) by simp
  ultimately have ok: "fm_pc_ok as_of (ft_chunks ?th) (ft_min ?th) (fm_clocks s) (fm_lists s) (Copy rest (vals @ [(fm_params s ! c, fm_clocks s ! c)]))" unfolding fm_pc_ok.simps by blast
  have mu: "fm_mutex s \<noteq> Some t" using d(4) pc by (simp add: testing_def)
  have "fm_inv as_of N calls (s\<lparr>fm_threads := (fm_threads s)[t := ?th\<lparr>ft_pc := Copy rest (vals @ [(fm_params s ! c, fm_clocks s ! c)])\<rparr>]\<rparr>)"
    by (rule fm_goto [OF inv refl, where holder = "fm_mutex s", unfolded keep_mutex]) (use pc pre(1) ok mu in \<open>auto simp: testing_def\<close>)
  then show ?thesis by (intro fm_safeI) (simp_all add: fm_step_def Let_def pc vec_get_def d(5,6) c)
qed

lemma step_Copy_end:
  assumes inv: "fm_inv as_of N calls s" "calls_ok N calls" "t < length calls" and pc: "ft_pc (fm_threads s ! t) = Copy [] vals"
  shows "fm_safe as_of N calls (fm_step ans t s)"
proof -
  note d = fm_invD [OF inv]
  let ?th = "fm_threads s ! t"
  let ?th' = "?th\<lparr>ft_pc := Ready, ft_done := ft_done ?th @ [(ft_chunks ?th, ft_min ?th, vals)]\<rparr>"
  have mo: "mutex_ok (length calls) (\<lambda>t. fm_threads s ! t) (fm_mutex s)" and mu: "fm_mutex s \<noteq> Some t" using inv d(4) pc by (simp_all add: testing_def fm_inv_def)
  have "fm_thread_ok as_of (calls ! t) (fm_clocks s) (fm_lists s) ?th'" using d(3) pc by (auto simp: fm_thread_ok_def current_def)
  then have "fm_inv as_of N calls (s\<lparr>fm_mutex := fm_mutex s, fm_threads := (fm_threads s)[t := ?th']\<rparr>)"
    by (rule fm_local [OF inv]) (use pc mu mutex_update [OF mo inv(3) d(1) [symmetric], of ?th' "fm_mutex s"] in \<open>simp_all add: testing_def\<close>)
  then show ?thesis by (intro fm_safeI) (simp_all add: fm_step_def Let_def pc)
qed

lemma step_Ready:
  assumes inv: "fm_inv as_of N calls s" "calls_ok N calls" "t < length calls" and pc: "ft_pc (fm_threads s ! t) = Ready"
  shows "fm_safe as_of N calls (fm_step ans t s)"
proof (cases "ft_calls (fm_threads s ! t)")
  case Nil
  then show ?thesis by (simp add: fm_safe_def fm_step_def pc)
next
  case (Cons call cs)
  note d = fm_invD [OF inv]
  let ?th = "fm_threads s ! t"
  let ?th' = "?th\<lparr>ft_pc := Gather (fst call) [], ft_chunks := fst call, ft_min := snd call, ft_calls := cs\<rparr>"
  have mo: "mutex_ok (length calls) (\<lambda>t. fm_threads s ! t) (fm_mutex s)" and mu: "fm_mutex s \<noteq> Some t" using inv d(4) pc by (simp_all add: testing_def fm_inv_def)
  have "fm_thread_ok as_of (calls ! t) (fm_clocks s) (fm_lists s) ?th'" using d(3) pc Cons by (simp add: fm_thread_ok_def current_def)
  then have "fm_inv as_of N calls (s\<lparr>fm_mutex := fm_mutex s, fm_threads := (fm_threads s)[t := ?th']\<rparr>)"
    by (rule fm_local [OF inv]) (use pc mu mutex_update [OF mo inv(3) d(1) [symmetric], of ?th' "fm_mutex s"] in \<open>simp_all add: testing_def\<close>)
  then show ?thesis by (intro fm_safeI) (simp_all add: fm_step_def Let_def pc Cons split: prod.splits)
qed

subsection \<open>Steps on clocks and lists\<close>

lemma testD:
  assumes inv: "fm_inv as_of N calls s" "calls_ok N calls" "t < length calls" and pc: "ft_pc (fm_threads s ! t) = Test (c # rest) wait real"
  shows "set (c # rest) \<union> set wait \<union> set real \<subseteq> set (ft_chunks (fm_threads s ! t))" "\<forall>c \<in> set wait. blocked (ft_min (fm_threads s ! t)) (fm_lists s ! c)"
    "\<forall>c' \<in> set (ft_chunks (fm_threads s ! t)). c' \<in> set (c # rest) \<union> set wait \<union> set real \<or> ft_min (fm_threads s ! t) \<le> fm_clocks s ! c'"
    "\<forall>c \<in> set real. (ft_min (fm_threads s ! t), True) \<in> set (fm_lists s ! c) \<or> ft_min (fm_threads s ! t) \<le> fm_clocks s ! c"
    "map (\<lambda>(chunks, m, vals). (chunks, m)) (ft_done (fm_threads s ! t)) @ (ft_chunks (fm_threads s ! t), ft_min (fm_threads s ! t)) # ft_calls (fm_threads s ! t) = calls ! t"
    "\<forall>(chunks, m, vals) \<in> set (ft_done (fm_threads s ! t)). list_all2 (good as_of m) chunks vals"
    "supported N (length calls) (\<lambda>t. fm_threads s ! t) (fm_clocks s) (fm_lists s)" "fm_mutex s = Some t" "c < N"
    "t' < length calls \<Longrightarrow> t' \<noteq> t \<Longrightarrow> ft_min (fm_threads s ! t') = ft_min (fm_threads s ! t) \<Longrightarrow> set real \<inter> claims (ft_pc (fm_threads s ! t')) = {}"
    "testing (ft_pc th) \<Longrightarrow> mutex_ok (length calls) (\<lambda>t'. (fm_threads s)[t := th] ! t') (Some t)"
proof -
  note d = fm_invD [OF inv]
  show mu: "fm_mutex s = Some t" using d(4) pc by (simp add: testing_def)
  show "c < N" by (rule d(8)) (simp add: pc)
  show "set real \<inter> claims (ft_pc (fm_threads s ! t')) = {}" if "t' < length calls" "t' \<noteq> t" "ft_min (fm_threads s ! t') = ft_min (fm_threads s ! t)"
    using fm_apart [OF inv(1,3) that(1)] that(2,3) pc by simp
  have mo: "mutex_ok (length calls) (\<lambda>t. fm_threads s ! t) (fm_mutex s)" using inv(1) by (simp add: fm_inv_def)
  show "mutex_ok (length calls) (\<lambda>t'. (fm_threads s)[t := th] ! t') (Some t)" if "testing (ft_pc th)" by (rule mutex_update [OF mo inv(3) d(1) [symmetric]]) (simp add: that mu)
qed (use fm_invD(3) [OF inv] inv(1) pc in \<open>simp_all add: fm_thread_ok_def current_def fm_inv_def\<close>)

lemma step_Test_fresh:
  assumes inv: "fm_inv as_of N calls s" "calls_ok N calls" "t < length calls" and pc: "ft_pc (fm_threads s ! t) = Test (c # rest) wait real" and fresh: "\<not> fm_clocks s ! c < ft_min (fm_threads s ! t)"
  shows "fm_safe as_of N calls (fm_step ans t s)"
proof -
  note d = fm_invD [OF inv] and ok = testD [OF inv pc]
  let ?th' = "(fm_threads s ! t)\<lparr>ft_pc := Test rest wait real\<rparr>"
  have th: "fm_thread_ok as_of (calls ! t) (fm_clocks s) (fm_lists s) ?th'" using ok(1-6) fresh by (auto simp: fm_thread_ok_def current_def)
  have sup: "supported N (length calls) (\<lambda>t'. (fm_threads s)[t := ?th'] ! t') (fm_clocks s) (fm_lists s)"
    by (rule supported_step [OF ok(7) d(1) inv(3)]) (use pc fresh in \<open>auto split: if_splits\<close>)
  have "mutex_ok (length calls) (\<lambda>t'. (fm_threads s)[t := ?th'] ! t') (Some t)" by (rule ok(11)) (simp add: testing_def)
  then have "fm_inv as_of N calls (s\<lparr>fm_params := fm_params s, fm_clocks := fm_clocks s, fm_lists := fm_lists s, fm_mutex := Some t, fm_threads := (fm_threads s)[t := ?th']\<rparr>)"
    using ok(10) by (intro fm_update [OF inv d(2) _ _ _ th sup]) auto
  moreover have "s\<lparr>fm_params := fm_params s, fm_clocks := fm_clocks s, fm_lists := fm_lists s, fm_mutex := Some t, fm_threads := (fm_threads s)[t := ?th']\<rparr> = s\<lparr>fm_threads := (fm_threads s)[t := ?th']\<rparr>" using ok(8) by simp
  ultimately show ?thesis using fresh by (intro fm_safeI) (simp_all add: fm_step_def Let_def pc vec_get_def d(5) ok(9))
qed

lemma claim_supported:
  assumes sup: "supported N T (\<lambda>t. ths ! t) clocks ls" and t: "length ths = T" "t < T" and pc: "ft_pc (ths ! t) = Test (c # rest) wait real" and stale: "clocks ! c < ft_min (ths ! t)" and c: "c < N" "length ls = N" "clocks_sorted (ls ! c)"
    and cl: "claim (ft_min (ths ! t)) (ls ! c) = (l', mine)"
  shows "supported N T (\<lambda>t'. ths[t := (ths ! t)\<lparr>ft_pc := if mine then Test rest wait (real @ [c]) else Test rest (wait @ [c]) real\<rparr>] ! t') clocks (ls[c := l'])"
proof (rule supported_step [OF sup t])
  let ?th' = "(ths ! t)\<lparr>ft_pc := if mine then Test rest wait (real @ [c]) else Test rest (wait @ [c]) real\<rparr>"
  fix c' f x assume c': "c' < N" and e: "(f, x) \<in> set (ls[c := l'] ! c')"
  show "covers (ft_pc ?th') c' f \<or> clocks ! c' < f \<and> ft_min ?th' = f \<and> c' \<in> (if x then claims (ft_pc ?th') else wants (ft_pc ?th'))
    \<or> (f, x) \<in> set (ls ! c') \<and> (clocks ! c' < f \<longrightarrow> clocks ! c' < f) \<and> \<not> covers (ft_pc (ths ! t)) c' f
      \<and> \<not> (clocks ! c' < f \<and> ft_min (ths ! t) = f \<and> c' \<in> (if x then claims (ft_pc (ths ! t)) else wants (ft_pc (ths ! t))))"
  proof (cases "c' = c")
    case False
    then show ?thesis using e pc by auto
  next
    case True
    then have "(f, x) \<in> set (ls ! c) \<or> f = ft_min (ths ! t) \<and> x = mine" "(f, x) = (ft_min (ths ! t), False) \<Longrightarrow> \<not> mine" using e c claim_ok(3,5) [OF c(3) cl] by auto
    then show ?thesis using stale True pc by (cases x; cases mine) auto
  qed
qed

lemma step_Test_stale:
  assumes inv: "fm_inv as_of N calls s" "calls_ok N calls" "t < length calls" and pc: "ft_pc (fm_threads s ! t) = Test (c # rest) wait real" and stale: "fm_clocks s ! c < ft_min (fm_threads s ! t)"
  shows "fm_safe as_of N calls (fm_step ans t s)"
proof -
  note d = fm_invD [OF inv] and ok = testD [OF inv pc]
  let ?th = "fm_threads s ! t"
  obtain l' mine where cl: "claim (ft_min ?th) (fm_lists s ! c) = (l', mine)" by fastforce
  have sorted: "clocks_sorted (fm_lists s ! c)" using d(2) ok(9) by (simp add: shared_ok_def)
  note cl_ok = claim_ok [OF sorted cl]
  let ?th' = "?th\<lparr>ft_pc := if mine then Test rest wait (real @ [c]) else Test rest (wait @ [c]) real\<rparr>" and ?ls = "(fm_lists s)[c := l']"
  have ls: "?ls ! c' = (if c' = c then l' else fm_lists s ! c')" if "c' < N" for c' using that d(7) by simp
  have ids: "c' < N" if "c' \<in> set wait \<union> set real" for c' by (rule d(8)) (use that pc in auto)
  have blk: "\<forall>c' \<in> set wait. blocked (ft_min ?th) (?ls ! c')" using ok(2) cl_ok(6) ls ids by auto
  have cla: "\<forall>c' \<in> set real. (ft_min ?th, True) \<in> set (?ls ! c') \<or> ft_min ?th \<le> fm_clocks s ! c'" using ok(4) cl_ok(4) ls ids by auto
  have new: "if mine then (ft_min ?th, True) \<in> set (?ls ! c) else blocked (ft_min ?th) (?ls ! c)" using cl_ok(2) ls [OF ok(9)] by simp
  have th: "fm_thread_ok as_of (calls ! t) (fm_clocks s) ?ls ?th'" using ok(1,3,5,6) blk cla new by (auto simp: fm_thread_ok_def current_def)
  have "fm_inv as_of N calls (s\<lparr>fm_params := fm_params s, fm_clocks := fm_clocks s, fm_lists := ?ls, fm_mutex := Some t, fm_threads := (fm_threads s)[t := ?th']\<rparr>)"
  proof (intro fm_update [OF inv _ _ _ _ th claim_supported [OF ok(7) d(1) inv(3) pc stale ok(9) d(7) sorted cl]] ok(11))
    show "shared_ok as_of N (fm_params s) (fm_clocks s) ?ls" using d(2) cl_ok(1) ls by (simp add: shared_ok_def)
    show "(f, True) \<in> set (?ls ! c') \<or> f \<le> fm_clocks s ! c'" if "c' < N" "(f, True) \<in> set (fm_lists s ! c')" for c' f using that cl_ok(4) ls by auto
    show "blocked m (?ls ! c')" if "c' < N" "blocked m (fm_lists s ! c')" for c' m using that cl_ok(6) ls by auto
    show "claims (ft_pc ?th') \<inter> claims (ft_pc (fm_threads s ! t')) = {}" if t': "t' < length calls" "t' \<noteq> t" "ft_min (fm_threads s ! t') = ft_min ?th'" for t'
    proof -
      have "c \<notin> claims (ft_pc (fm_threads s ! t'))" if mine using fm_invD(3) [OF inv(1,2) t'(1)] cl_ok(2) that stale t'(3) by (auto simp: fm_thread_ok_def)
      then show ?thesis using ok(10) [OF t'(1,2)] t'(3) by auto
    qed
  qed (auto simp: testing_def)
  moreover have "s\<lparr>fm_params := fm_params s, fm_clocks := fm_clocks s, fm_lists := ?ls, fm_mutex := Some t, fm_threads := (fm_threads s)[t := ?th']\<rparr> = s\<lparr>fm_lists := ?ls, fm_threads := (fm_threads s)[t := ?th']\<rparr>" using ok(8) by simp
  ultimately show ?thesis using stale cl by (intro fm_safeI) (simp_all add: fm_step_def Let_def pc vec_get_def d(5,7) ok(9))
qed

lemma step_Store:
  assumes inv: "fm_inv as_of N calls s" "calls_ok N calls" "t < length calls" and pc: "ft_pc (fm_threads s ! t) = Store ((c, v) # items) k real wait"
  shows "fm_safe as_of N calls (fm_step ans t s)"
proof -
  note d = fm_invD [OF inv]
  let ?th = "fm_threads s ! t" and ?th' = "(fm_threads s ! t)\<lparr>ft_pc := Store items k real wait\<rparr>"
  have ok: "insert c (fst ` set items) \<union> set real \<union> set wait \<subseteq> set (ft_chunks ?th)" "ft_min ?th \<le> k" "insert c (fst ` set items) \<subseteq> set real" "\<forall>(c, v) \<in> set items. as_of c k v" "as_of c k v"
    "\<forall>c' \<in> set real. c' \<in> insert c (fst ` set items) \<or> k \<le> fm_clocks s ! c'" "real \<noteq> []" using d(3) pc by (auto simp: fm_thread_ok_def)
  have c: "c < N" by (rule d(8)) (simp add: pc)
  have mu: "fm_mutex s \<noteq> Some t" using d(4) pc by (simp add: testing_def)
  show ?thesis
  proof (cases "fm_clocks s ! c < k")
    case False
    have "fm_inv as_of N calls (s\<lparr>fm_threads := (fm_threads s)[t := ?th']\<rparr>)"
      by (rule fm_goto [OF inv refl, where holder = "fm_mutex s", unfolded keep_mutex]) (use pc ok False mu in \<open>auto simp: testing_def\<close>)
    then show ?thesis using False by (intro fm_safeI) (simp_all add: fm_step_def Let_def pc vec_get_def d(5) c)
  next
    case True
    let ?clocks = "(fm_clocks s)[c := k]" and ?params = "(fm_params s)[c := v]"
    have clocks: "?clocks ! c' = (if c' = c then k else fm_clocks s ! c')" if "c' < N" for c' using that d(5) by simp
    have in_real: "c \<in> set real" and range: "\<And>c'. c' \<in> set (ft_chunks ?th) \<Longrightarrow> c' < N" using ok(3) calls_in_range(1) [OF inv(2,3) d(3)] pc by auto
    have sup: "supported N (length calls) (\<lambda>t. fm_threads s ! t) (fm_clocks s) (fm_lists s)" and mo: "mutex_ok (length calls) (\<lambda>t. fm_threads s ! t) (fm_mutex s)" using inv(1) by (simp_all add: fm_inv_def)
    have up: "fm_clocks s ! c' \<le> ?clocks ! c'" if "c' < N" for c' using clocks [OF that] True by simp
    have th1: "fm_thread_ok as_of (calls ! t) ?clocks (fm_lists s) ?th" by (rule fm_thread_ok_mono [OF d(3) calls_in_range(1) [OF inv(2,3) d(3)] up]) simp_all
    then have th: "fm_thread_ok as_of (calls ! t) ?clocks (fm_lists s) ?th'" using pc clocks [OF c] ok(2) by (auto simp: fm_thread_ok_def current_def)
    have sup': "supported N (length calls) (\<lambda>t'. (fm_threads s)[t := ?th'] ! t') ?clocks (fm_lists s)"
      by (rule supported_step [OF sup d(1) inv(3)]) (use pc clocks in_real in \<open>auto split: if_splits\<close>)
    have mu': "mutex_ok (length calls) (\<lambda>t'. (fm_threads s)[t := ?th'] ! t') (fm_mutex s)" by (rule mutex_update [OF mo inv(3) d(1) [symmetric]]) (simp add: testing_def mu)
    have "?params ! c' = (if c' = c then v else fm_params s ! c')" if "c' < N" for c' using that d(6) by simp
    then have "shared_ok as_of N ?params ?clocks (fm_lists s)" using d(2) ok(5) clocks by (simp add: shared_ok_def)
    moreover have "claims (ft_pc ?th') \<inter> claims (ft_pc (fm_threads s ! t')) = {}" if t': "t' < length calls" "t' \<noteq> t" "ft_min (fm_threads s ! t') = ft_min ?th'" for t'
      using fm_apart [OF inv(1,3) t'(1)] t'(2,3) pc by simp
    ultimately have "fm_inv as_of N calls (s\<lparr>fm_params := ?params, fm_clocks := ?clocks, fm_lists := fm_lists s, fm_mutex := fm_mutex s, fm_threads := (fm_threads s)[t := ?th']\<rparr>)"
      using up by (intro fm_update [OF inv _ _ _ _ th sup' _ mu']) auto
    then show ?thesis using True by (intro fm_safeI) (simp_all add: fm_step_def Let_def pc vec_get_def d(5) c)
  qed
qed

lemma wake_same: "wants (wake pc) = wants pc" "claims (wake pc) = claims pc" "covers (wake pc) = covers pc" "testing (wake pc) = testing pc" "fm_pending (wake pc) = fm_pending pc" "named (wake pc) = named pc"
  "wake pc = Ready \<longleftrightarrow> pc = Ready" "wake pc \<noteq> Asleep todo"
  by (cases pc; simp add: testing_def fun_eq_iff)+

lemma supported_cong:
  assumes "\<And>t. t < T \<Longrightarrow> ft_min (th' t) = ft_min (th t)" "\<And>t. t < T \<Longrightarrow> wants (ft_pc (th' t)) = wants (ft_pc (th t))" "\<And>t. t < T \<Longrightarrow> claims (ft_pc (th' t)) = claims (ft_pc (th t))"
    "\<And>t. t < T \<Longrightarrow> covers (ft_pc (th' t)) = covers (ft_pc (th t))"
  shows "supported N T th' clocks ls = supported N T th clocks ls"
proof -
  have "(\<exists>t < T. covers (ft_pc (th' t)) c f) = (\<exists>t < T. covers (ft_pc (th t)) c f)" for c f using assms(4) by metis
  moreover have "(\<exists>t < T. ft_min (th' t) = f \<and> c \<in> (if x then claims (ft_pc (th' t)) else wants (ft_pc (th' t)))) = (\<exists>t < T. ft_min (th t) = f \<and> c \<in> (if x then claims (ft_pc (th t)) else wants (ft_pc (th t))))" for c f x
    using assms(1,2,3) by metis
  ultimately show ?thesis unfolding supported_def by simp
qed

lemma fm_wake:
  assumes "fm_inv as_of N calls s"
  shows "fm_inv as_of N calls (s\<lparr>fm_threads := map (\<lambda>th. th\<lparr>ft_pc := wake (ft_pc th)\<rparr>) (fm_threads s)\<rparr>)"
proof -
  have len: "length (fm_threads s) = length calls" using assms by (simp add: fm_inv_def)
  have "fm_thread_ok as_of cs clocks ls (th\<lparr>ft_pc := wake (ft_pc th)\<rparr>)" if "fm_thread_ok as_of cs clocks ls th" for cs clocks ls and th
    using that by (cases "ft_pc th") (auto simp: fm_thread_ok_def current_def)
  moreover have "supported N (length calls) (\<lambda>t. map (\<lambda>th. th\<lparr>ft_pc := wake (ft_pc th)\<rparr>) (fm_threads s) ! t) clocks ls = supported N (length calls) (\<lambda>t. fm_threads s ! t) clocks ls" for clocks ls
    by (rule supported_cong) (simp_all add: len wake_same)
  ultimately show ?thesis using assms by (simp add: fm_inv_def len apart_def mutex_ok_def wake_same)
qed

lemma erase_fold:
  assumes "length ls = N" "set real \<subseteq> {..<N}"
  shows "\<exists>ls'. foldE (\<lambda>c ls. bindE (vec_get ls c) (\<lambda>l. Inr (ls[c := erase_clocks k l]))) real ls = Inr ls' \<and> length ls' = N \<and> (\<forall>c < N. ls' ! c = (if c \<in> set real then erase_clocks k (ls ! c) else ls ! c))"
  using assms
proof (induction real arbitrary: ls)
  case (Cons c real)
  have "erase_clocks k (erase_clocks k l) = erase_clocks k l" for l by (simp add: erase_clocks_def)
  then show ?case using Cons.prems Cons.IH [of "ls[c := erase_clocks k (ls ! c)]"] by (fastforce simp: vec_get_def nth_list_update)
qed simp

lemma step_Erase:
  assumes inv: "fm_inv as_of N calls s" "calls_ok N calls" "t < length calls" and pc: "ft_pc (fm_threads s ! t) = Erase k real wait"
  shows "fm_safe as_of N calls (fm_step ans t s)"
proof (cases "fm_mutex s")
  case (Some t')
  then show ?thesis by (simp add: fm_safe_def fm_step_def Let_def pc)
next
  case None
  define s1 where "s1 = s\<lparr>fm_threads := map (\<lambda>th. th\<lparr>ft_pc := wake (ft_pc th)\<rparr>) (fm_threads s)\<rparr>"
  have inv1: "fm_inv as_of N calls s1" unfolding s1_def by (rule fm_wake [OF inv(1)])
  note d = fm_invD [OF inv1 inv(2,3)]
  have len: "length (fm_threads s) = length calls" using inv(1) by (simp add: fm_inv_def)
  let ?th = "fm_threads s1 ! t" and ?th' = "(fm_threads s1 ! t)\<lparr>ft_pc := Loop wait\<rparr>"
  have pc1: "ft_pc ?th = Erase k real wait" using pc len inv(3) by (simp add: s1_def)
  have awake: "ft_pc (fm_threads s1 ! t') \<noteq> Asleep todo" "\<not> testing (ft_pc (fm_threads s1 ! t'))" if "t' < length calls" for t' todo
    using inv(1) that len None by (simp_all add: s1_def wake_same fm_inv_def mutex_ok_def)
  have ids: "set real \<subseteq> {..<N}" using d(8) pc1 by auto
  have len1: "length (fm_lists s) = N" using d(7) by (simp add: s1_def)
  obtain ls where ls: "foldE (\<lambda>c ls. bindE (vec_get ls c) (\<lambda>l. Inr (ls[c := erase_clocks k l]))) real (fm_lists s) = Inr ls" "length ls = N"
    "\<And>c. c < N \<Longrightarrow> ls ! c = (if c \<in> set real then erase_clocks k (fm_lists s ! c) else fm_lists s ! c)" using erase_fold [OF len1 ids, of k] by blast
  have sorted: "clocks_sorted (fm_lists s ! c)" if "c < N" for c using d(2) that by (simp add: shared_ok_def s1_def)
  have mem: "(f, x) \<in> set (ls ! c) \<longleftrightarrow> (f, x) \<in> set (fm_lists s1 ! c) \<and> (c \<in> set real \<longrightarrow> k < f)" if "c < N" for c f x
    using ls(3) [OF that] erase_clocks_ok(2) [OF sorted [OF that]] by (simp add: s1_def)
  have k: "ft_min ?th \<le> k" "\<forall>c \<in> set real. k \<le> fm_clocks s1 ! c" "real \<noteq> []" using d(3) pc1 by (simp_all add: fm_thread_ok_def)
  have sup: "supported N (length calls) (\<lambda>t. fm_threads s1 ! t) (fm_clocks s1) (fm_lists s1)" and mo: "mutex_ok (length calls) (\<lambda>t. fm_threads s1 ! t) None" using inv1 None by (simp_all add: fm_inv_def s1_def)
  have "fm_inv as_of N calls (s1\<lparr>fm_params := fm_params s1, fm_clocks := fm_clocks s1, fm_lists := ls, fm_mutex := None, fm_threads := (fm_threads s1)[t := ?th']\<rparr>)"
  proof (rule fm_update [OF inv1 inv(2,3)])
    show "shared_ok as_of N (fm_params s1) (fm_clocks s1) ls" using d(2) ls(2,3) erase_clocks_ok(1) [OF sorted] sorted by (simp add: shared_ok_def)
    show "(f, True) \<in> set (ls ! c) \<or> f \<le> fm_clocks s1 ! c" if "c < N" "(f, True) \<in> set (fm_lists s1 ! c)" for c f using that mem k(2) by fastforce
    show "fm_thread_ok as_of (calls ! t) (fm_clocks s1) ls ?th'" using d(3) pc1 by (simp add: fm_thread_ok_def current_def)
    show "supported N (length calls) (\<lambda>t'. (fm_threads s1)[t := ?th'] ! t') (fm_clocks s1) ls"
      by (rule supported_step [OF sup d(1) inv(3)]) (use mem pc1 k(1) in \<open>fastforce split: if_splits\<close>)
    show "mutex_ok (length calls) (\<lambda>t'. (fm_threads s1)[t := ?th'] ! t') None" by (rule mutex_update [OF mo inv(3) d(1) [symmetric]]) (simp add: testing_def)
  qed (use awake in auto)
  moreover have "s1\<lparr>fm_params := fm_params s1, fm_clocks := fm_clocks s1, fm_lists := ls, fm_mutex := None, fm_threads := (fm_threads s1)[t := ?th']\<rparr>
    = s\<lparr>fm_lists := ls, fm_threads := (map (\<lambda>th. th\<lparr>ft_pc := wake (ft_pc th)\<rparr>) (fm_threads s))[t := (fm_threads s ! t)\<lparr>ft_pc := Loop wait\<rparr>]\<rparr>" using None len inv(3) by (simp add: s1_def)
  ultimately show ?thesis using ls(1) None by (intro fm_safeI) (simp_all add: fm_step_def Let_def pc)
qed

lemma fm_step_ok:
  assumes inv: "fm_inv as_of N calls s" "calls_ok N calls" "t < length calls" and ans: "answer_ok as_of ans (fm_threads s ! t)"
  shows "fm_safe as_of N calls (fm_step ans t s)"
proof (cases "ft_pc (fm_threads s ! t)")
  case (Test rest wait real)
  then show ?thesis using step_Test_fresh [OF inv] step_Test_stale [OF inv] step_Test_end [OF inv] by (cases rest) blast+
next
  case (Store items k real wait)
  then show ?thesis using step_Store [OF inv] step_Store_end [OF inv] by (metis list.exhaust surj_pair)
next
  case (Copy rest vals)
  then show ?thesis using step_Copy [OF inv] step_Copy_end [OF inv] by (cases rest) auto
next
  case (Asleep todo)
  then show ?thesis by (simp add: fm_safe_def fm_step_def Let_def)
qed (use step_Gather [OF inv] step_Loop [OF inv] step_Fetch [OF inv] step_Erase [OF inv] step_Ready [OF inv] ans in auto)

section \<open>Runs\<close>

lemma fm_inv_init: "fm_inv as_of N calls (mk_fm_state none N calls)"
proof -
  have "fm_thread_ok as_of cs clocks ls \<lparr>ft_pc = Ready, ft_chunks = [], ft_min = 0, ft_calls = cs, ft_done = []\<rparr>" for cs clocks and ls :: "clock_list list" by (simp add: fm_thread_ok_def current_def)
  then show ?thesis by (simp add: fm_inv_def mk_fm_state_def shared_ok_def clocks_sorted_def supported_def apart_def mutex_ok_def testing_def)
qed

lemma fm_run_inv:
  assumes "fm_run as_of s0 s" "fm_inv as_of N calls s0" "calls_ok N calls"
  shows "fm_inv as_of N calls s"
  using assms
proof (induction rule: fm_run.induct)
  case (step s t ans s')
  then have inv: "fm_inv as_of N calls s" "t < length calls" by (simp_all add: fm_inv_def)
  then show ?case using fm_step_ok [OF inv(1) assms(3) inv(2) step.hyps(3)] step.hyps(4) by (simp add: fm_safe_def)
next
  case (spurious s t todo)
  then have inv: "fm_inv as_of N calls s" "t < length calls" by (simp_all add: fm_inv_def)
  note d = fm_invD [OF inv(1) assms(3) inv(2)]
  have named: "set todo \<subseteq> set (ft_chunks (fm_threads s ! t))" using d(3) spurious.hyps(3) by (simp add: fm_thread_ok_def)
  have "fm_mutex s \<noteq> Some t" using d(4) spurious.hyps(3) by (simp add: testing_def)
  then show ?case by (intro fm_goto [OF inv(1) assms(3) inv(2) refl, where holder = "fm_mutex s", unfolded keep_mutex]) (use spurious.hyps(3) named in \<open>auto simp: testing_def\<close>)
qed

text \<open>When nobody can make a step, everybody is asleep, and the one that needs the lowest clock would have been able to fetch.\<close>

lemma fm_stuck:
  assumes inv: "fm_inv as_of N calls s" "t < length calls" "fm_step ans t s = None" and free: "fm_mutex s = None"
  shows "(\<exists>todo. ft_pc (fm_threads s ! t) = Asleep todo) \<or> ft_pc (fm_threads s ! t) = Ready \<and> ft_calls (fm_threads s ! t) = []"
  using inv(3) free by (auto simp: fm_step_def Let_def split: fm_pc.splits list.splits)

lemma fm_no_deadlock:
  assumes inv: "fm_inv as_of N calls s" "calls_ok N calls" and stuck: "\<And>t. t < length calls \<Longrightarrow> \<exists>ans. fm_step ans t s = None" and t: "t < length calls"
  shows "ft_pc (fm_threads s ! t) = Ready \<and> ft_calls (fm_threads s ! t) = []"
proof (rule ccontr)
  assume open_call: "\<not> ?thesis"
  have free: "fm_mutex s = None"
  proof (rule ccontr)
    assume "fm_mutex s \<noteq> None"
    then obtain t' where t': "fm_mutex s = Some t'" by blast
    then have lt: "t' < length calls" using inv(1) by (simp add: fm_inv_def mutex_ok_def)
    then obtain rest wait real where "ft_pc (fm_threads s ! t') = Test rest wait real" using fm_invD(4) [OF inv lt] t' by (auto simp: testing_def)
    then show False using stuck [OF lt] by (cases rest) (auto simp: fm_step_def Let_def)
  qed
  have asleep: "(\<exists>todo. ft_pc (fm_threads s ! t') = Asleep todo) \<or> ft_pc (fm_threads s ! t') = Ready" if "t' < length calls" for t' using fm_stuck [OF inv(1) that _ free] stuck [OF that] by blast
  have no: "claims (ft_pc (fm_threads s ! t')) = {}" "\<not> covers (ft_pc (fm_threads s ! t')) c f" if "t' < length calls" for t' c f using asleep [OF that] by auto
  define sleepers where "sleepers = {t'. t' < length calls \<and> (\<exists>todo. ft_pc (fm_threads s ! t') = Asleep todo)}"
  have "t \<in> sleepers" using fm_stuck [OF inv(1) t _ free] stuck [OF t] open_call t by (auto simp: sleepers_def)
  moreover have "finite sleepers" by (simp add: sleepers_def)
  ultimately obtain t1 where t1: "t1 \<in> sleepers" and least: "\<And>t'. t' \<in> sleepers \<Longrightarrow> ft_min (fm_threads s ! t1) \<le> ft_min (fm_threads s ! t')"
    using ex_is_arg_min_if_finite [of sleepers "\<lambda>t. ft_min (fm_threads s ! t)"] by (auto simp: is_arg_min_linorder)
  then obtain todo where lt: "t1 < length calls" and todo: "ft_pc (fm_threads s ! t1) = Asleep todo" by (auto simp: sleepers_def)
  then obtain c where c: "c \<in> set todo" "blocked (ft_min (fm_threads s ! t1)) (fm_lists s ! c)" using fm_invD(3) [OF inv lt] by (cases todo) (auto simp: fm_thread_ok_def)
  have N: "c < N" by (rule fm_invD(8) [OF inv lt]) (simp add: todo c(1))
  obtain f x l where l: "fm_lists s ! c = (f, x) # l" and fx: "f < ft_min (fm_threads s ! t1) \<or> f = ft_min (fm_threads s ! t1) \<and> x" using c(2) by (auto simp: blocked_def split: list.splits)
  then have "(f, x) \<in> set (fm_lists s ! c)" by simp
  then obtain t2 where t2: "t2 < length calls" "ft_min (fm_threads s ! t2) = f" "c \<in> (if x then claims (ft_pc (fm_threads s ! t2)) else wants (ft_pc (fm_threads s ! t2)))"
    using inv(1) N no(2) unfolding fm_inv_def supported_def by blast
  then have "\<not> x" "t2 \<in> sleepers" using no(1) asleep [OF t2(1)] by (auto simp: sleepers_def split: if_splits)
  then show False using least [of t2] fx t2(2) by simp
qed

subsection \<open>Termination\<close>

text \<open>A fetch reduces the number of chunks that are still needed, and between two fetches every thread makes a bounded number of steps.\<close>

fun needed :: "'c fm_pc \<Rightarrow> nat" where
  "needed (Gather rest todo) = length rest + length todo"
| "needed (Loop todo) = length todo"
| "needed (Test rest wait real) = length rest + length wait + length real"
| "needed (Asleep todo) = length todo"
| "needed (Fetch real wait) = length real + length wait"
| "needed (Store items k real wait) = length real + length wait"
| "needed (Erase k real wait) = length real + length wait"
| "needed pc = 0"

fun steps_left :: "nat \<Rightarrow> 'c fm_pc \<Rightarrow> nat" where
  "steps_left n (Gather rest todo) = 3 * length rest + 2 * length todo + n + 6"
| "steps_left n (Loop todo) = 2 * length todo + n + 5"
| "steps_left n (Test rest wait real) = 2 * length rest + length wait + length real + n + 4"
| "steps_left n (Fetch real wait) = length real + 2"
| "steps_left n (Store items k real wait) = length items + 1"
| "steps_left n (Copy rest vals) = length rest + 1"
| "steps_left n pc = 0"

definition chunks_left :: "'c fm_thread \<Rightarrow> nat" where
  "chunks_left th = needed (ft_pc th) + (\<Sum>(chunks, m) \<leftarrow> ft_calls th. length chunks)"

definition rank :: "'c fm_thread \<Rightarrow> nat" where
  "rank th = steps_left (length (ft_chunks th)) (ft_pc th) + (\<Sum>(chunks, m) \<leftarrow> ft_calls th. 4 * length chunks + 7)"

definition fm_next :: "(nat \<Rightarrow> int \<Rightarrow> 'c \<Rightarrow> bool) \<Rightarrow> 'c fm_state \<Rightarrow> 'c fm_state \<Rightarrow> bool" where
  "fm_next as_of s s' \<longleftrightarrow> (\<exists>t ans. t < length (fm_threads s) \<and> answer_ok as_of ans (fm_threads s ! t) \<and> fm_step ans t s = Some (Inr s'))"

lemma own_step_decreases:
  assumes "fm_step ans t s = Some (Inr s')" "t < length (fm_threads s)" "\<And>k real wait. ft_pc (fm_threads s ! t) \<noteq> Erase k real wait"
  shows "fm_threads s' = (fm_threads s)[t := fm_threads s' ! t] \<and> chunks_left (fm_threads s' ! t) \<le> chunks_left (fm_threads s ! t) \<and> rank (fm_threads s' ! t) < rank (fm_threads s ! t)"
proof (cases "ft_pc (fm_threads s ! t)")
  case (Gather rest todo)
  then show ?thesis using assms(1,2) by (cases rest) (auto simp: fm_step_def Let_def res_simps chunks_left_def rank_def)
next
  case (Loop todo)
  then show ?thesis using assms(1,2) by (cases todo) (auto simp: fm_step_def Let_def chunks_left_def rank_def split: if_splits)
next
  case (Test rest wait real)
  then show ?thesis using assms(1,2) by (cases rest) (auto simp: fm_step_def Let_def res_simps chunks_left_def rank_def split_beta split: if_splits)
next
  case (Store items k real wait)
  then show ?thesis using assms(1,2) by (cases items) (auto simp: fm_step_def Let_def res_simps chunks_left_def rank_def split: prod.splits)
next
  case (Copy rest vals)
  then show ?thesis using assms(1,2) by (cases rest) (auto simp: fm_step_def Let_def res_simps chunks_left_def rank_def)
next
  case Ready
  then show ?thesis using assms(1,2) by (cases "ft_calls (fm_threads s ! t)") (auto simp: fm_step_def Let_def chunks_left_def rank_def)
qed (use assms in \<open>auto simp: fm_step_def Let_def chunks_left_def rank_def\<close>)

lemma sum_update:
  fixes f :: "'a \<Rightarrow> nat"
  assumes "t < length xs"
  shows "f (xs ! t) + (\<Sum>x \<leftarrow> xs[t := y]. f x) = f y + (\<Sum>x \<leftarrow> xs. f x)"
  using assms by (induction xs arbitrary: t) (auto split: nat.splits)

lemma next_decreases:
  assumes inv: "fm_inv as_of N calls s" "calls_ok N calls" and step: "fm_next as_of s s'"
  shows "((\<Sum>th \<leftarrow> fm_threads s'. chunks_left th, \<Sum>th \<leftarrow> fm_threads s'. rank th), (\<Sum>th \<leftarrow> fm_threads s. chunks_left th, \<Sum>th \<leftarrow> fm_threads s. rank th)) \<in> less_than <*lex*> less_than"
proof -
  obtain t ans where t: "t < length (fm_threads s)" and st: "fm_step ans t s = Some (Inr s')" using step by (auto simp: fm_next_def)
  have lt: "t < length calls" using inv(1) t by (simp add: fm_inv_def)
  show ?thesis
  proof (cases "\<exists>k real wait. ft_pc (fm_threads s ! t) = Erase k real wait")
    case True
    then obtain k real wait where pc: "ft_pc (fm_threads s ! t) = Erase k real wait" by blast
    let ?woken = "map (\<lambda>th. th\<lparr>ft_pc := wake (ft_pc th)\<rparr>) (fm_threads s)"
    have "real \<noteq> []" using fm_invD(3) [OF inv lt] pc by (simp add: fm_thread_ok_def)
    then have less: "chunks_left ((fm_threads s ! t)\<lparr>ft_pc := Loop wait\<rparr>) < chunks_left (?woken ! t)" using pc t by (simp add: chunks_left_def)
    have s': "fm_threads s' = ?woken[t := (fm_threads s ! t)\<lparr>ft_pc := Loop wait\<rparr>]" using st pc by (auto simp: fm_step_def Let_def res_simps split: if_splits)
    have "needed (wake pc) = needed pc" for pc :: "'a fm_pc" by (cases pc) auto
    then have "(\<Sum>th \<leftarrow> ?woken. chunks_left th) = (\<Sum>th \<leftarrow> fm_threads s. chunks_left th)" by (simp add: chunks_left_def o_def)
    then have "(\<Sum>th \<leftarrow> fm_threads s'. chunks_left th) < (\<Sum>th \<leftarrow> fm_threads s. chunks_left th)" using sum_update [of t ?woken chunks_left "(fm_threads s ! t)\<lparr>ft_pc := Loop wait\<rparr>"] less t unfolding s' length_map by linarith
    then show ?thesis by simp
  next
    case False
    then have s': "fm_threads s' = (fm_threads s)[t := fm_threads s' ! t]" "chunks_left (fm_threads s' ! t) \<le> chunks_left (fm_threads s ! t)" "rank (fm_threads s' ! t) < rank (fm_threads s ! t)"
      using own_step_decreases [OF st t] by blast+
    have "(\<Sum>th \<leftarrow> fm_threads s'. chunks_left th) \<le> (\<Sum>th \<leftarrow> fm_threads s. chunks_left th)" "(\<Sum>th \<leftarrow> fm_threads s'. rank th) < (\<Sum>th \<leftarrow> fm_threads s. rank th)"
      using sum_update [OF t, of chunks_left "fm_threads s' ! t"] sum_update [OF t, of rank "fm_threads s' ! t"] s' by simp_all
    then show ?thesis by auto
  qed
qed

lemma fm_exec_run:
  assumes "fm_exec as_of sched s = Some s'" "fm_run as_of s0 s"
  shows "fm_run as_of s0 s'"
  using assms
proof (induction as_of sched s rule: fm_exec.induct)
  case (2 as_of t ans sched s)
  then obtain s1 where "fm_step ans t s = Some (Inr s1)" "t < length (fm_threads s)" "answer_ok as_of ans (fm_threads s ! t)" "fm_exec as_of sched s1 = Some s'" by (auto split: if_splits option.splits sum.splits)
  then show ?case using 2 by (auto intro: fm_run.step)
qed simp

section \<open>Properties\<close>

text \<open>
  C37. For any interleaving of the threads and any answers of the servers, with threads that wake up without a reason, no assertion fails and no access is out of range; the calls of a thread return in order,
  and every chunk that a call copies has a clock that is at least the clock it asked for, and is what the servers held at its clock (a clock of \<open>-1\<close> is that of a chunk which was never fetched);
  two threads never fetch the same chunk for the same clock at the same time.
  Scope: chunk ids that exist, and servers whose answer to a fetch for a clock is at least as new as that clock.
\<close>

theorem fetch_mgr_safe:
  assumes "calls_ok N calls" and run: "fm_run as_of (mk_fm_state none N calls) s" and t: "t < length calls"
  shows "(answer_ok as_of ans (fm_threads s ! t) \<longrightarrow> fm_step ans t s \<noteq> Some (Inl e))
    \<and> (\<exists>more_calls. map (\<lambda>(chunks, m, vals). (chunks, m)) (ft_done (fm_threads s ! t)) @ more_calls = calls ! t)
    \<and> (\<forall>(chunks, m, vals) \<in> set (ft_done (fm_threads s ! t)). list_all2 (\<lambda>c (v, q). m \<le> q \<and> (q = -1 \<or> as_of c q v)) chunks vals)
    \<and> (\<forall>t' < length calls. \<forall>real wait real' wait'. t' \<noteq> t \<and> ft_min (fm_threads s ! t') = ft_min (fm_threads s ! t)
        \<and> ft_pc (fm_threads s ! t) = Fetch real wait \<and> ft_pc (fm_threads s ! t') = Fetch real' wait' \<longrightarrow> set real \<inter> set real' = {})"
proof -
  have inv: "fm_inv as_of N calls s" by (rule fm_run_inv [OF run fm_inv_init assms(1)])
  have "fm_thread_ok as_of (calls ! t) (fm_clocks s) (fm_lists s) (fm_threads s ! t)" by (rule fm_invD(3) [OF inv assms(1) t])
  then have res: "\<exists>more_calls. map (\<lambda>(chunks, m, vals). (chunks, m)) (ft_done (fm_threads s ! t)) @ more_calls = calls ! t" "\<forall>(chunks, m, vals) \<in> set (ft_done (fm_threads s ! t)). list_all2 (good as_of m) chunks vals"
    by (auto simp: fm_thread_ok_def)
  have step: "answer_ok as_of ans (fm_threads s ! t) \<longrightarrow> fm_step ans t s \<noteq> Some (Inl e)" using fm_step_ok [OF inv assms(1) t, of ans] by (auto simp: fm_safe_def)
  have "set real \<inter> set real' = {}" if "t' < length calls" "t' \<noteq> t \<and> ft_min (fm_threads s ! t') = ft_min (fm_threads s ! t) \<and> ft_pc (fm_threads s ! t) = Fetch real wait \<and> ft_pc (fm_threads s ! t') = Fetch real' wait'" for t' real wait real' wait'
    using fm_apart [OF inv t that(1)] that(2) by simp
  then show ?thesis using res step unfolding good_def by blast
qed

theorem fetch_mgr_safe_witness:
  "\<exists>s. fm_run (\<lambda>c k v. v = k) (mk_fm_state 0 2 [[([0, 1], 1)], [([1], 2)]]) s \<and> ft_done (fm_threads s ! 0) = [([0, 1], 1, [(1, 1), (3, 3)])]
    \<and> (\<forall>(chunks, m, vals) \<in> set (ft_done (fm_threads s ! 0)). list_all2 (\<lambda>c (v, q). m \<le> q \<and> (q = -1 \<or> v = q)) chunks vals)"
proof -
  define sched :: "(nat \<times> int \<times> int list) list" where "sched = map (\<lambda>t. (t, 0, [])) [0, 0, 0, 0, 0, 0, 0, 0, 1, 1, 1, 1, 1, 1] @ [(0, 1, [1, 1])] @ map (\<lambda>t. (t, 0, [])) [0, 0, 0, 0, 1, 1, 1] @ [(1, 3, [3])] @ map (\<lambda>t. (t, 0, [])) [1, 1, 1, 1, 1, 1, 0, 0, 0, 0]"
  have "case fm_exec (\<lambda>c k v. v = k) sched (mk_fm_state 0 2 [[([0, 1], 1)], [([1], 2)]]) of None \<Rightarrow> False | Some s \<Rightarrow> ft_done (fm_threads s ! 0) = [([0, 1], 1, [(1, 1), (3, 3)])]"
    unfolding sched_def by code_simp
  then obtain s where s: "fm_exec (\<lambda>c k v. v = k) sched (mk_fm_state 0 2 [[([0, 1], 1)], [([1], 2)]]) = Some s" "ft_done (fm_threads s ! 0) = [([0, 1], 1, [(1, 1), (3, 3)])]" by (auto split: option.splits)
  have run: "fm_run (\<lambda>c k v. v = k) (mk_fm_state 0 2 [[([0, 1], 1)], [([1], 2)]]) s" by (rule fm_exec_run [OF s(1) fm_run.start])
  have "calls_ok 2 [[([0, 1], 1)], [([1], 2)]]" by (simp add: calls_ok_def)
  from fetch_mgr_safe [OF this run, of 0] show ?thesis using run s(2) by blast
qed

text \<open>
  C38. The calls of the threads end: as long as the servers answer, no run is infinite, and when no thread can make a step all the calls of all threads have returned. In particular threads that wait for each other's fetches never block each other.
  (A thread that wakes up without a reason makes a step that is not counted.)
  Scope: chunk ids that exist, and servers that can answer every fetch.
\<close>

theorem fetch_mgr_ends:
  assumes "calls_ok N calls" and run: "fm_run as_of (mk_fm_state none N calls) s" and servers: "\<forall>m real. \<exists>k vs. m \<le> k \<and> list_all2 (\<lambda>c v. as_of c k v) real vs"
  shows "\<not> (\<exists>f. f 0 = s \<and> (\<forall>i. fm_next as_of (f i) (f (Suc i)))) \<and> ((\<nexists>s'. fm_next as_of s s') \<longrightarrow> (\<forall>t < length calls. map (\<lambda>(chunks, m, vals). (chunks, m)) (ft_done (fm_threads s ! t)) = calls ! t))"
proof (intro conjI notI impI allI)
  have inv: "fm_inv as_of N calls s" by (rule fm_run_inv [OF run fm_inv_init assms(1)])
  assume "\<exists>f. f 0 = s \<and> (\<forall>i. fm_next as_of (f i) (f (Suc i)))"
  then obtain f where f: "f 0 = s" "\<And>i. fm_next as_of (f i) (f (Suc i))" by blast
  have "fm_run as_of s (f i)" for i
  proof (induction i)
    case 0
    then show ?case using f(1) fm_run.start by simp
  next
    case (Suc i)
    then show ?case using f(2) [of i] fm_run.step by (fastforce simp: fm_next_def)
  qed
  then have "fm_inv as_of N calls (f i)" for i using fm_run_inv [OF _ inv assms(1)] by blast
  then have "\<exists>g. \<forall>i. (g (Suc i), g i) \<in> less_than <*lex*> less_than" using next_decreases [OF _ assms(1) f(2)]
    by (intro exI [of _ "\<lambda>i. (\<Sum>th \<leftarrow> fm_threads (f i). chunks_left th, \<Sum>th \<leftarrow> fm_threads (f i). rank th)"]) blast
  then show False using wf_iff_no_infinite_down_chain [of "less_than <*lex*> less_than"] by blast
next
  have inv: "fm_inv as_of N calls s" by (rule fm_run_inv [OF run fm_inv_init assms(1)])
  fix t assume none: "\<nexists>s'. fm_next as_of s s'" and t: "t < length calls"
  have "\<exists>ans. fm_step ans t' s = None" if t': "t' < length calls" for t'
  proof -
    have "\<exists>k vs. answer_ok as_of (k, vs) (fm_threads s ! t')" using servers by (cases "ft_pc (fm_threads s ! t')") (simp_all add: answer_ok_def)
    then obtain k vs where "answer_ok as_of (k, vs) (fm_threads s ! t')" by blast
    then have "fm_step (k, vs) t' s = None" using fm_step_ok [OF inv assms(1) t', of "(k, vs)"] none t' inv by (auto simp: fm_safe_def fm_next_def fm_inv_def)
    then show ?thesis by blast
  qed
  then have "ft_pc (fm_threads s ! t) = Ready \<and> ft_calls (fm_threads s ! t) = []" using fm_no_deadlock [OF inv assms(1) _ t] by blast
  then show "map (\<lambda>(chunks, m, vals). (chunks, m)) (ft_done (fm_threads s ! t)) = calls ! t" using fm_invD(3) [OF inv assms(1) t] by (simp add: fm_thread_ok_def current_def)
qed

theorem fetch_mgr_ends_witness:
  "\<not> (\<exists>f. f 0 = mk_fm_state 0 2 [[([0, 1], 1)], [([1], 2)]] \<and> (\<forall>i. fm_next (\<lambda>c k v. v = k) (f i) (f (Suc i))))"
proof -
  have "\<forall>(m::int) real. \<exists>k vs. m \<le> k \<and> list_all2 (\<lambda>(c::nat) v. v = k) real vs"
  proof (intro allI)
    fix m :: int and real :: "nat list"
    show "\<exists>k vs. m \<le> k \<and> list_all2 (\<lambda>(c::nat) v. v = k) real vs" by (intro exI [of _ m] exI [of _ "replicate (length real) m"]) (simp add: list_all2_conv_all_nth)
  qed
  moreover have "calls_ok 2 [[([0, 1], 1)], [([1], 2)]]" by (simp add: calls_ok_def)
  ultimately show ?thesis using fetch_mgr_ends [of 2 "[[([0, 1], 1)], [([1], 2)]]" "\<lambda>c k v. v = k" 0, OF _ fm_run.start] by blast
qed

end
