(* ===== verification/Shared_State.thy ===== *)
theory Shared_State
  imports Prelude
begin

text \<open>
  \<^verbatim>\<open>SharedState\<close> (\<^verbatim>\<open>ml/shared/shared_state.hpp\<close>): the threads of a task in one process get the pointer to their shared state from the leader, and meet in barriers.

  The leader has one socket, into which the messages of the others go (\<open>ss_inbox\<close>) and from which it receives in any order of senders; each of the others has one, into which the leader replies. The others are numbered from 0.
  A step is one \<^verbatim>\<open>send\<close> or one \<^verbatim>\<open>recv\<close> with the delimiters that belong to it; a \<^verbatim>\<open>recv\<close> with nothing to receive is a step that cannot be made. \<open>prog\<close> says which call the threads of the task make as their \<open>k\<close>-th.
\<close>

section \<open>Model\<close>

datatype sync_call = SyncState | Barrier

datatype leader_pc = Outside | Collect nat "nat list" | Reply "nat list"

record 'p other =
  ot_shared :: "'p option"        \<comment> \<open>\<^verbatim>\<open>shared_\<close>\<close>
  ot_waiting :: bool
  ot_mail :: "'p option option"   \<comment> \<open>the reply: the pointer or a dummy message\<close>
  ot_round :: nat

record 'p SharedState =
  ss_shared :: "'p option"        \<comment> \<open>\<^verbatim>\<open>shared_\<close> of the leader\<close>
  ss_pc :: leader_pc
  ss_round :: nat
  ss_inbox :: "nat list"
  ss_others :: "'p other list"

definition mk_SharedState :: "nat \<Rightarrow> 'p SharedState" where
  "mk_SharedState num_threads = \<lparr>ss_shared = None, ss_pc = Outside, ss_round = 0, ss_inbox = [],
     ss_others = replicate (num_threads - 1) \<lparr>ot_shared = None, ot_waiting = False, ot_mail = None, ot_round = 0\<rparr>\<rparr>"

definition ss_Init :: "'p \<Rightarrow> 'p SharedState \<Rightarrow> 'p SharedState" where
  "ss_Init shared s = s\<lparr>ss_shared := Some shared\<rparr>"

text \<open>The leader: collect all, then reply to all. \<open>j\<close> is the message that the socket hands out; \<open>None\<close>: it waits.\<close>

definition leader_step :: "(nat \<Rightarrow> sync_call) \<Rightarrow> nat \<Rightarrow> 'p SharedState \<Rightarrow> (error + 'p SharedState) option" where
  "leader_step prog j s =
     (case ss_pc s of
        Outside \<Rightarrow> Some (bindE (assertE (prog (ss_round s) = SyncState \<longrightarrow> ss_shared s \<noteq> None)) (\<lambda>_. Inr (s\<lparr>ss_pc := Collect 0 []\<rparr>)))
      | Collect i identity_store \<Rightarrow>
          if i \<ge> length (ss_others s) then Some (Inr (s\<lparr>ss_pc := Reply identity_store\<rparr>))
          else if j < length (ss_inbox s) then
            Some (Inr (s\<lparr>ss_pc := Collect (i + 1) (identity_store @ [ss_inbox s ! j]), ss_inbox := take j (ss_inbox s) @ drop (Suc j) (ss_inbox s)\<rparr>))
          else None
      | Reply [] \<Rightarrow> Some (Inr (s\<lparr>ss_pc := Outside, ss_round := ss_round s + 1\<rparr>))
      | Reply (identity # ids) \<Rightarrow>
          Some (Inr (s\<lparr>ss_pc := Reply ids,
            ss_others := (ss_others s)[identity := (ss_others s ! identity)\<lparr>ot_mail := Some (if prog (ss_round s) = SyncState then ss_shared s else None)\<rparr>]\<rparr>)))"

text \<open>The others: send to the leader, then receive its reply.\<close>

definition other_step :: "(nat \<Rightarrow> sync_call) \<Rightarrow> nat \<Rightarrow> 'p SharedState \<Rightarrow> (error + 'p SharedState) option" where
  "other_step prog t s =
     (let o1 = ss_others s ! t in
      if \<not> ot_waiting o1 then Some (Inr (s\<lparr>ss_inbox := ss_inbox s @ [t], ss_others := (ss_others s)[t := o1\<lparr>ot_waiting := True\<rparr>]\<rparr>))
      else case ot_mail o1 of
        None \<Rightarrow> None
      | Some ptr \<Rightarrow> Some (Inr (s\<lparr>ss_others := (ss_others s)[t := o1\<lparr>ot_waiting := False, ot_mail := None, ot_round := ot_round o1 + 1,
            ot_shared := (if prog (ot_round o1) = SyncState then ptr else ot_shared o1)\<rparr>]\<rparr>)))"

text \<open>Participant 0 is the leader.\<close>

definition participant_step :: "(nat \<Rightarrow> sync_call) \<Rightarrow> nat \<Rightarrow> nat \<Rightarrow> 'p SharedState \<Rightarrow> (error + 'p SharedState) option" where
  "participant_step prog j x s = (if x = 0 then leader_step prog j s else other_step prog (x - 1) s)"

inductive ss_run :: "(nat \<Rightarrow> sync_call) \<Rightarrow> nat \<Rightarrow> 'p \<Rightarrow> 'p SharedState \<Rightarrow> bool" for prog num_threads shared where
  start: "ss_run prog num_threads shared (ss_Init shared (mk_SharedState num_threads))"
| step: "ss_run prog num_threads shared s \<Longrightarrow> x < num_threads \<Longrightarrow> participant_step prog j x s = Some (Inr s') \<Longrightarrow> ss_run prog num_threads shared s'"

fun ss_exec :: "(nat \<Rightarrow> sync_call) \<Rightarrow> nat list \<Rightarrow> 'p SharedState \<Rightarrow> 'p SharedState option" where
  "ss_exec prog [] s = Some s"
| "ss_exec prog (x # xs) s = (if x \<le> length (ss_others s) then (case participant_step prog 0 x s of Some (Inr s') \<Rightarrow> ss_exec prog xs s' | _ \<Rightarrow> None) else None)"

section \<open>Invariant\<close>

fun pending :: "leader_pc \<Rightarrow> nat list" where
  "pending Outside = []"
| "pending (Collect i ids) = ids"
| "pending (Reply ids) = ids"

text \<open>How many calls of a thread the leader has replied to.\<close>

fun released :: "leader_pc \<Rightarrow> nat \<Rightarrow> nat \<Rightarrow> nat" where
  "released (Reply ids) r t = (if t \<in> set ids then r else r + 1)"
| "released _ r t = r"

definition payload :: "(nat \<Rightarrow> sync_call) \<Rightarrow> 'p \<Rightarrow> nat \<Rightarrow> 'p option" where
  "payload prog shared r = (if prog r = SyncState then Some shared else None)"

definition other_ok :: "(nat \<Rightarrow> sync_call) \<Rightarrow> 'p \<Rightarrow> nat \<Rightarrow> bool \<Rightarrow> 'p other \<Rightarrow> bool" where
  "other_ok prog shared g arrived o1 \<longleftrightarrow>
     ((\<not> ot_waiting o1 \<and> ot_round o1 = g \<and> ot_mail o1 = None \<and> \<not> arrived)
      \<or> (ot_waiting o1 \<and> ot_round o1 = g \<and> ot_mail o1 = None \<and> arrived)
      \<or> (ot_waiting o1 \<and> ot_round o1 + 1 = g \<and> ot_mail o1 = Some (payload prog shared (ot_round o1)) \<and> \<not> arrived))
     \<and> ((\<exists>i < ot_round o1. prog i = SyncState) \<longrightarrow> ot_shared o1 = Some shared)"

definition ss_inv :: "(nat \<Rightarrow> sync_call) \<Rightarrow> nat \<Rightarrow> 'p \<Rightarrow> 'p SharedState \<Rightarrow> bool" where
  "ss_inv prog num_threads shared s \<longleftrightarrow> ss_shared s = Some shared \<and> length (ss_others s) = num_threads - 1
     \<and> distinct (ss_inbox s @ pending (ss_pc s)) \<and> set (ss_inbox s) \<union> set (pending (ss_pc s)) \<subseteq> {..<num_threads - 1}
     \<and> (\<forall>i ids. ss_pc s = Collect i ids \<longrightarrow> length ids = i)
     \<and> (\<forall>t < num_threads - 1. other_ok prog shared (released (ss_pc s) (ss_round s) t) (t \<in> set (ss_inbox s) \<union> set (pending (ss_pc s))) (ss_others s ! t))"

lemma all_arrived:
  assumes "distinct ids" "set ids \<subseteq> {..<m}" "m \<le> length ids"
  shows "set ids = {..<m}"
proof (rule card_subset_eq)
  have "card (set ids) \<le> m" using card_mono [OF _ assms(2)] by simp
  then show "card (set ids) = card {..<m}" using assms(1,3) by (simp add: distinct_card)
qed (use assms in simp_all)

lemma leader_step_inv:
  assumes inv: "ss_inv prog n shared s"
  shows "case leader_step prog j s of None \<Rightarrow> True | Some r \<Rightarrow> (\<exists>s'. r = Inr s' \<and> ss_inv prog n shared s')"
proof (cases "ss_pc s")
  case Outside
  then show ?thesis using inv by (auto simp: leader_step_def ss_inv_def)
next
  case (Collect i ids)
  show ?thesis
  proof (cases "i \<ge> length (ss_others s)")
    case True
    have "set ids = {..<n - 1}" using inv Collect True by (intro all_arrived) (auto simp: ss_inv_def)
    then show ?thesis using inv Collect True by (auto simp: leader_step_def ss_inv_def)
  next
    case False
    show ?thesis
    proof (cases "j < length (ss_inbox s)")
      case True
      have "ss_inbox s = take j (ss_inbox s) @ ss_inbox s ! j # drop (Suc j) (ss_inbox s)" using id_take_nth_drop [OF True] .
      then obtain xs x ys where xs: "ss_inbox s = xs @ x # ys" "ss_inbox s ! j = x" "take j (ss_inbox s) @ drop (Suc j) (ss_inbox s) = xs @ ys" by metis
      then show ?thesis using inv Collect False True by (auto simp: leader_step_def ss_inv_def disj_ac)
    qed (use Collect False in \<open>simp add: leader_step_def\<close>)
  qed
next
  case (Reply ids)
  show ?thesis
  proof (cases ids)
    case Nil
    then show ?thesis using inv Reply by (auto simp: leader_step_def ss_inv_def)
  next
    case (Cons x ids')
    have x: "x < n - 1" "x \<notin> set ids'" "x \<notin> set (ss_inbox s)" "other_ok prog shared (ss_round s) True (ss_others s ! x)" using inv Reply Cons by (auto simp: ss_inv_def)
    have "other_ok prog shared (ss_round s + 1) False ((ss_others s ! x)\<lparr>ot_mail := Some (payload prog shared (ss_round s))\<rparr>)" using x(4) by (auto simp: other_ok_def)
    then show ?thesis using inv Reply Cons x by (auto simp: leader_step_def ss_inv_def payload_def nth_list_update)
  qed
qed

lemma other_step_inv:
  assumes inv: "ss_inv prog n shared s" and t: "t < n - 1"
  shows "case other_step prog t s of None \<Rightarrow> True | Some r \<Rightarrow> (\<exists>s'. r = Inr s' \<and> ss_inv prog n shared s')"
proof -
  let ?o = "ss_others s ! t" and ?g = "released (ss_pc s) (ss_round s) t" and ?in = "t \<in> set (ss_inbox s) \<union> set (pending (ss_pc s))"
  have ok: "other_ok prog shared ?g ?in ?o" using inv t by (simp add: ss_inv_def)
  show ?thesis
  proof (cases "ot_waiting ?o")
    case False
    then have "\<not> ?in" "other_ok prog shared ?g True (?o\<lparr>ot_waiting := True\<rparr>)" using ok by (auto simp: other_ok_def)
    then show ?thesis using inv t False by (auto simp: other_step_def ss_inv_def nth_list_update Let_def)
  next
    case True
    show ?thesis
    proof (cases "ot_mail ?o")
      case (Some ptr)
      let ?o' = "?o\<lparr>ot_waiting := False, ot_mail := None, ot_round := ot_round ?o + 1, ot_shared := (if prog (ot_round ?o) = SyncState then ptr else ot_shared ?o)\<rparr>"
      have g: "?g = Suc (ot_round ?o)" "\<not> ?in" using ok True Some by (auto simp: other_ok_def)
      have "(\<exists>i < ot_round ?o. prog i = SyncState) \<longrightarrow> ot_shared ?o = Some shared" "ptr = payload prog shared (ot_round ?o)" using ok True Some by (auto simp: other_ok_def)
      then have "(\<exists>i < Suc (ot_round ?o). prog i = SyncState) \<longrightarrow> ot_shared ?o' = Some shared" by (auto simp: payload_def less_Suc_eq)
      then have "other_ok prog shared ?g False ?o'" unfolding g(1) by (simp add: other_ok_def)
      then show ?thesis using g(2) inv t True Some by (auto simp: other_step_def ss_inv_def nth_list_update Let_def)
    qed (use True in \<open>simp add: other_step_def Let_def\<close>)
  qed
qed

lemma participant_step_inv:
  assumes "ss_inv prog n shared s" "x < n"
  shows "case participant_step prog j x s of None \<Rightarrow> True | Some r \<Rightarrow> (\<exists>s'. r = Inr s' \<and> ss_inv prog n shared s')"
proof (cases "x = 0")
  case False
  then have "x - 1 < n - 1" using assms(2) by linarith
  then show ?thesis using other_step_inv [OF assms(1)] False by (simp add: participant_step_def)
qed (use leader_step_inv [OF assms(1)] in \<open>simp add: participant_step_def\<close>)

lemma ss_run_inv: "ss_run prog n shared s \<Longrightarrow> ss_inv prog n shared s"
proof (induction rule: ss_run.induct)
  case start
  then show ?case by (auto simp: ss_inv_def ss_Init_def mk_SharedState_def other_ok_def)
next
  case (step s x j s')
  then show ?case using participant_step_inv [OF step.IH step.hyps(2), of j] by simp
qed

lemma ss_exec_run: "ss_exec prog xs s = Some s' \<Longrightarrow> ss_run prog n shared s \<Longrightarrow> 0 < n \<Longrightarrow> ss_run prog n shared s'"
proof (induction prog xs s rule: ss_exec.induct)
  case (2 prog x xs s)
  from 2(2) obtain s1 where s1: "x \<le> length (ss_others s)" "participant_step prog 0 x s = Some (Inr s1)" "ss_exec prog xs s1 = Some s'" by (auto split: if_splits option.splits sum.splits)
  have "length (ss_others s) = n - 1" using ss_run_inv [OF 2(3)] by (simp add: ss_inv_def)
  then have "x < n" using s1(1) 2(4) by linarith
  then show ?case using 2(1) [OF s1(1,2) refl s1(3)] ss_run.step [OF 2(3) _ s1(2)] 2(4) by simp
qed simp

section \<open>Properties\<close>

text \<open>\<open>completed\<close> counts the calls that have returned, \<open>entered\<close> those that have begun.\<close>

definition completed :: "'p SharedState \<Rightarrow> nat \<Rightarrow> nat" where
  "completed s x = (if x = 0 then ss_round s else ot_round (ss_others s ! (x - 1)))"

definition inside :: "'p SharedState \<Rightarrow> nat \<Rightarrow> bool" where
  "inside s x \<longleftrightarrow> (if x = 0 then ss_pc s \<noteq> Outside else ot_waiting (ss_others s ! (x - 1)))"

definition entered :: "'p SharedState \<Rightarrow> nat \<Rightarrow> nat" where
  "entered s x = completed s x + (if inside s x then 1 else 0)"

lemma other_bounds:
  assumes "ss_inv prog n shared s" "0 < x" "x < n"
  shows "completed s x \<le> released (ss_pc s) (ss_round s) (x - 1)" "released (ss_pc s) (ss_round s) (x - 1) \<le> entered s x"
    "x - 1 \<in> set (pending (ss_pc s)) \<Longrightarrow> entered s x = released (ss_pc s) (ss_round s) (x - 1) + 1"
proof -
  have "x - 1 < n - 1" using assms(2,3) by linarith
  then have "other_ok prog shared (released (ss_pc s) (ss_round s) (x - 1)) (x - 1 \<in> set (ss_inbox s) \<union> set (pending (ss_pc s))) (ss_others s ! (x - 1))"
    using assms(1) unfolding ss_inv_def by blast
  then show "completed s x \<le> released (ss_pc s) (ss_round s) (x - 1)" "released (ss_pc s) (ss_round s) (x - 1) \<le> entered s x"
    "x - 1 \<in> set (pending (ss_pc s)) \<Longrightarrow> entered s x = released (ss_pc s) (ss_round s) (x - 1) + 1"
    using assms(2) by (auto simp: other_ok_def completed_def entered_def inside_def)
qed

lemma released_bounds: "r \<le> released pc r t" "released pc r t \<le> r + (if pc = Outside then 0 else 1)"
  by (cases pc; simp)+

lemma released_other:
  assumes "ss_inv prog n shared s" "0 < y" "y < n"
  shows "released (ss_pc s) (ss_round s) t \<le> entered s y"
proof (cases "released (ss_pc s) (ss_round s) t = ss_round s")
  case True
  then show ?thesis using other_bounds(2) [OF assms] released_bounds(1) [of "ss_round s" "ss_pc s" "y - 1"] by linarith
next
  case False
  then obtain ids where ids: "ss_pc s = Reply ids" "released (ss_pc s) (ss_round s) t = ss_round s + 1" by (cases "ss_pc s") (auto split: if_splits)
  then show ?thesis using other_bounds(2,3) [OF assms] by (cases "y - 1 \<in> set ids") simp_all
qed

lemma barrier_order:
  assumes inv: "ss_inv prog n shared s" and "x < n" "y < n"
  shows "completed s x \<le> entered s y"
proof (cases "x = 0")
  case True
  then show ?thesis using other_bounds(2) [OF inv, of y] released_bounds(1) [of "ss_round s" "ss_pc s" "y - 1"] assms(3) by (cases "y = 0") (simp_all add: completed_def entered_def)
next
  case False
  show ?thesis
  proof (cases "y = 0")
    case True
    then show ?thesis using other_bounds(1) [OF inv, of x] False assms(2) released_bounds(2) [of "ss_pc s" "ss_round s" "x - 1"] by (auto simp: completed_def entered_def inside_def split: if_splits)
  next
    case y: False
    then show ?thesis using other_bounds(1) [OF inv, of x] released_other [OF inv, of y "x - 1"] False assms(2,3) by simp
  qed
qed

text \<open>When nobody can make a step, the leader waits for messages and nobody has a reply, so all messages have been collected.\<close>

lemma barrier_no_deadlock:
  assumes inv: "ss_inv prog n shared s" and "0 < n" and inside: "\<forall>z < n. inside s z"
  shows "\<exists>z < n. \<exists>s'. participant_step prog 0 z s = Some (Inr s')"
proof (rule ccontr)
  assume stuck: "\<not> (\<exists>z < n. \<exists>s'. participant_step prog 0 z s = Some (Inr s'))"
  then have none: "participant_step prog 0 z s = None" if "z < n" for z using participant_step_inv [OF inv that, of 0] that by (auto split: option.splits)
  have "ss_pc s \<noteq> Outside" using inside assms(2) by (auto simp: inside_def)
  then obtain i ids where ids: "ss_pc s = Collect i ids" "i < n - 1" "ss_inbox s = []" using none [OF assms(2)] inv
    by (auto simp: participant_step_def leader_step_def ss_inv_def split: leader_pc.splits if_splits list.splits)
  have "t \<in> set ids" if t: "t < n - 1" for t
  proof -
    have "participant_step prog 0 (t + 1) s = None" using none [of "t + 1"] t by linarith
    then have "ot_mail (ss_others s ! t) = None" "ot_waiting (ss_others s ! t)" by (auto simp: participant_step_def other_step_def Let_def split: if_splits option.splits)
    moreover have "other_ok prog shared (released (ss_pc s) (ss_round s) t) (t \<in> set (ss_inbox s) \<union> set (pending (ss_pc s))) (ss_others s ! t)" using inv t by (simp add: ss_inv_def)
    ultimately show ?thesis using ids(1,3) by (auto simp: other_ok_def)
  qed
  then have "card {..<n - 1} \<le> card (set ids)" by (intro card_mono) auto
  moreover have "card (set ids) \<le> i" using card_length [of ids] inv ids(1) by (simp add: ss_inv_def)
  ultimately show False using ids(2) by simp
qed

text \<open>
  C36. The shared state of a task is handed over safely and its barriers are barriers, for any number of threads and any interleaving of their sends and receives: no thread returns from its \<open>k\<close>-th call before every thread has begun its
  own \<open>k\<close>-th call; a thread that has returned from \<^verbatim>\<open>SyncState\<close> has the pointer of the leader; no assertion fails; and when all threads are inside a call, one of them can make a step. A fast thread may send for its next call while the
  leader still replies to the others.
  Scope: all threads make the same sequence of calls.
\<close>

theorem barrier_safe:
  assumes "ss_run prog n shared s" "x < n" "y < n"
  shows "completed s x \<le> entered s y
     \<and> (0 < x \<and> (\<exists>i < completed s x. prog i = SyncState) \<longrightarrow> ot_shared (ss_others s ! (x - 1)) = Some shared)
     \<and> participant_step prog j x s \<noteq> Some (Inl err)
     \<and> ((\<forall>z < n. inside s z) \<longrightarrow> (\<exists>z < n. \<exists>s'. participant_step prog 0 z s = Some (Inr s')))"
proof -
  note inv = ss_run_inv [OF assms(1)]
  have "ot_shared (ss_others s ! (x - 1)) = Some shared" if sync: "0 < x" "\<exists>i < completed s x. prog i = SyncState"
  proof -
    have "x - 1 < n - 1" using sync(1) assms(2) by linarith
    then have "(\<exists>i < ot_round (ss_others s ! (x - 1)). prog i = SyncState) \<longrightarrow> ot_shared (ss_others s ! (x - 1)) = Some shared" using inv by (simp add: ss_inv_def other_ok_def)
    then show ?thesis using sync by (simp add: completed_def)
  qed
  moreover have "participant_step prog j x s \<noteq> Some (Inl err)" using participant_step_inv [OF inv assms(2), of j] by auto
  ultimately show ?thesis using barrier_order [OF inv assms(2,3)] barrier_no_deadlock [OF inv] assms(2) by auto
qed

text \<open>Three threads: thread 1 has the pointer and is already in the next call while the leader has still to reply to thread 2.\<close>

theorem barrier_safe_witness:
  "\<exists>s. ss_exec (\<lambda>k. if k = 0 then SyncState else Barrier) [1, 0, 2, 0, 0, 0, 0, 1, 1] (ss_Init (7 :: int) (mk_SharedState 3)) = Some s
     \<and> completed s 1 = 1 \<and> entered s 1 = 2 \<and> completed s 1 \<le> entered s 2 \<and> ot_shared (ss_others s ! 0) = Some 7"
proof -
  let ?prog = "\<lambda>k. if k = 0 then SyncState else Barrier"
  obtain s where s: "ss_exec ?prog [1, 0, 2, 0, 0, 0, 0, 1, 1] (ss_Init (7 :: int) (mk_SharedState 3)) = Some s" "completed s 1 = 1" "entered s 1 = 2"
    by (simp add: ss_Init_def mk_SharedState_def participant_step_def leader_step_def other_step_def Let_def completed_def entered_def inside_def eval_nat_numeral)
  have "ss_run ?prog 3 7 s" by (rule ss_exec_run [OF s(1) ss_run.start]) simp
  from barrier_safe [OF this, of 1 2] s show ?thesis by (intro exI [of _ s]) force
qed

end
