(* ===== verification/Data_Store.thy ===== *)
theory Data_Store
  imports Prelude "HOL-Library.Multiset"
begin

text \<open>
  The training data of a process and the classes that walk over it: \<^verbatim>\<open>datastore/datastore.hpp\<close>, \<^verbatim>\<open>data_store_wrapper.hpp\<close>, \<^verbatim>\<open>data_iterator.hpp\<close>,
  \<^verbatim>\<open>data_load_balance.hpp\<close>, \<^verbatim>\<open>data_sampler.hpp\<close> and \<^verbatim>\<open>batch_data_sampler.hpp\<close>.

  A store is one list of items for each local worker. The positions of the walking classes are values of \<^verbatim>\<open>int\<close>, so every change of them may overflow.
  The loops that look for the next list that is not empty have no bound in the code; they are partial functions, and the theorems show that they end.
\<close>

section \<open>Model\<close>

subsection \<open>DataStore and DataStoreWrapper\<close>

type_synonym 'a DataStore = "'a list list"

text \<open>Indexing with an \<^verbatim>\<open>int\<close>, and \<^verbatim>\<open>+=\<close> on an \<^verbatim>\<open>int\<close>.\<close>

definition at_int :: "'b list \<Rightarrow> int \<Rightarrow> error + 'b" where
  "at_int xs i = (if 0 \<le> i then vec_get xs (nat i) else Inl OutOfRange)"

definition add_int :: "int \<Rightarrow> int \<Rightarrow> error + int" where
  "add_int i j = (if - (2 ^ 31) \<le> i + j \<and> i + j < 2 ^ 31 then Inr (i + j) else Inl UndefinedBehaviour)"

definition mk_DataStore :: "nat \<Rightarrow> 'a DataStore" where
  "mk_DataStore num_local_workers = replicate num_local_workers []"

definition ds_Push :: "int \<Rightarrow> 'a \<Rightarrow> 'a DataStore \<Rightarrow> error + 'a DataStore" where
  "ds_Push local_id x ds = bindE (at_int ds local_id) (\<lambda>xs. Inr (ds[nat local_id := xs @ [x]]))"

definition ds_Pull :: "int \<Rightarrow> 'a DataStore \<Rightarrow> error + 'a list" where
  "ds_Pull local_id ds = at_int ds local_id"

text \<open>\<^verbatim>\<open>data_count_\<close> starts as the largest \<^verbatim>\<open>size_t\<close>; it is the result and the new state.\<close>

definition dw_get_data_size :: "'a DataStore \<Rightarrow> u64 \<Rightarrow> u64" where
  "dw_get_data_size ds data_count = (if data_count \<noteq> - 1 then data_count else fold (\<lambda>xs n. n + of_nat (length xs)) ds 0)"

definition dw_empty :: "'a DataStore \<Rightarrow> u64 \<Rightarrow> bool" where
  "dw_empty ds data_count = (\<not> dw_get_data_size ds data_count > 0)"

subsection \<open>DataIterator\<close>

record Position =
  chunk_id :: int
  local_id :: int

text \<open>The comparison \<^verbatim>\<open>local_id_ < size()\<close> is between values of \<^verbatim>\<open>size_t\<close>.\<close>

definition below_size :: "int \<Rightarrow> 'a list \<Rightarrow> bool" where
  "below_size i xs \<longleftrightarrow> 0 \<le> i \<and> i < int (length xs)"

function di_scan :: "'a DataStore \<Rightarrow> int \<Rightarrow> int \<Rightarrow> error + (bool \<times> Position)" where
  "di_scan ds c l =
     (if ds \<noteq> [] \<and> c = int (length ds) - 1 \<and> l = int (length (last ds)) then Inr (False, \<lparr>chunk_id = c, local_id = l\<rparr>) else
      case at_int ds c of Inl e \<Rightarrow> Inl e
      | Inr xs \<Rightarrow> if below_size l xs then Inr (True, \<lparr>chunk_id = c, local_id = l\<rparr>)
                  else (case add_int c 1 of Inl e \<Rightarrow> Inl e | Inr c' \<Rightarrow> di_scan ds c' 0))"
  by pat_completeness auto

termination
  by (relation "measure (\<lambda>(ds, c, l). nat (int (length ds) - c))") (auto simp: at_int_def vec_get_def add_int_def split: if_splits)

definition mk_DataIterator :: Position where
  "mk_DataIterator = \<lparr>chunk_id = 0, local_id = - 1\<rparr>"

definition di_has_next :: "'a DataStore \<Rightarrow> Position \<Rightarrow> error + (bool \<times> Position)" where
  "di_has_next ds p = bindE (add_int (local_id p) 1) (\<lambda>l. di_scan ds (chunk_id p) l)"

definition next_item :: "'a DataStore \<Rightarrow> Position \<Rightarrow> error + 'a" where
  "next_item ds p = bindE (at_int ds (chunk_id p)) (\<lambda>xs. at_int xs (local_id p))"

text \<open>The loop of the comments: \<^verbatim>\<open>while (has_next()) { ... next() ... }\<close>.\<close>

partial_function (option) iterate :: "('p \<Rightarrow> error + (bool \<times> 'p)) \<Rightarrow> ('p \<Rightarrow> error + 'a) \<Rightarrow> 'p \<Rightarrow> (error + 'a list) option" where
  "iterate has_next nxt p =
     (case has_next p of Inl e \<Rightarrow> Some (Inl e)
      | Inr (go, p) \<Rightarrow> if \<not> go then Some (Inr [])
          else (case nxt p of Inl e \<Rightarrow> Some (Inl e) | Inr x \<Rightarrow> Option.bind (iterate has_next nxt p) (\<lambda>r. Some (map_sum id ((#) x) r))))"

text \<open>\<^verbatim>\<open>DataLooper\<close> starts over at the end.\<close>

partial_function (option) dl_scan :: "'a DataStore \<Rightarrow> int \<Rightarrow> int \<Rightarrow> (error + Position) option" where
  "dl_scan ds c l =
     (let (c, l) = (if ds \<noteq> [] \<and> c = int (length ds) - 1 \<and> l = int (length (last ds)) then (0, 0) else (c, l)) in
      case at_int ds c of Inl e \<Rightarrow> Some (Inl e)
      | Inr xs \<Rightarrow> if below_size l xs then Some (Inr \<lparr>chunk_id = c, local_id = l\<rparr>)
                  else (case add_int c 1 of Inl e \<Rightarrow> Some (Inl e) | Inr c' \<Rightarrow> dl_scan ds c' 0))"

definition dl_has_next :: "'a DataStore \<Rightarrow> Position \<Rightarrow> (error + (bool \<times> Position)) option" where
  "dl_has_next ds p =
     (if dw_get_data_size ds (- 1) = 0 then Some (Inr (False, p)) else
      bindO (Some (add_int (local_id p) 1)) (\<lambda>l. bindO (dl_scan ds (chunk_id p) l) (\<lambda>p. Some (Inr (True, p)))))"

subsection \<open>DataLoadBalance\<close>

partial_function (option) skip_empty :: "'a DataStore \<Rightarrow> int \<Rightarrow> (error + int) option" where
  "skip_empty ds c =
     (case at_int ds c of Inl e \<Rightarrow> Some (Inl e)
      | Inr xs \<Rightarrow> if xs \<noteq> [] then Some (Inr c)
          else (case add_int c 1 of Inl e \<Rightarrow> Some (Inl e) | Inr c' \<Rightarrow> skip_empty ds (c' mod int (length ds))))"

record DataLoadBalance = Position +
  lb_is_empty :: bool

definition mk_DataLoadBalance :: "'a DataStore \<Rightarrow> int \<Rightarrow> int \<Rightarrow> (error + DataLoadBalance) option" where
  "mk_DataLoadBalance ds thread_num thread_pos =
     bindO (Some (add_int thread_pos (- thread_num))) (\<lambda>l.
     let is_empty = dw_empty ds (- 1) in
     bindO (if is_empty then Some (Inr 0) else skip_empty ds 0) (\<lambda>c. Some (Inr \<lparr>chunk_id = c, local_id = l, lb_is_empty = is_empty\<rparr>)))"

definition lb_reset :: "int \<Rightarrow> int \<Rightarrow> DataLoadBalance \<Rightarrow> error + DataLoadBalance" where
  "lb_reset thread_num thread_pos b = bindE (add_int thread_pos (- thread_num)) (\<lambda>l. Inr (b\<lparr>local_id := l, chunk_id := 0\<rparr>))"

function lb_scan :: "'a DataStore \<Rightarrow> int \<Rightarrow> int \<Rightarrow> int \<Rightarrow> error + (bool \<times> Position)" where
  "lb_scan ds thread_pos c l =
     (if ds \<noteq> [] \<and> c = int (length ds) - 1 \<and> \<not> below_size l (last ds) then Inr (False, \<lparr>chunk_id = c, local_id = l\<rparr>) else
      case at_int ds c of Inl e \<Rightarrow> Inl e
      | Inr xs \<Rightarrow> if below_size l xs then Inr (True, \<lparr>chunk_id = c, local_id = l\<rparr>)
                  else (case add_int c 1 of Inl e \<Rightarrow> Inl e | Inr c' \<Rightarrow> lb_scan ds thread_pos c' thread_pos))"
  by pat_completeness auto

termination
  by (relation "measure (\<lambda>(ds, p, c, l). nat (int (length ds) - c))") (auto simp: at_int_def vec_get_def add_int_def split: if_splits)

definition lb_has_next :: "'a DataStore \<Rightarrow> int \<Rightarrow> int \<Rightarrow> DataLoadBalance \<Rightarrow> error + (bool \<times> DataLoadBalance)" where
  "lb_has_next ds thread_num thread_pos b =
     (if lb_is_empty b then Inr (False, b) else
      bindE (add_int (local_id b) thread_num) (\<lambda>l. bindE (lb_scan ds thread_pos (chunk_id b) l) (\<lambda>(go, p).
      Inr (go, b\<lparr>chunk_id := chunk_id p, local_id := local_id p\<rparr>))))"

definition lb_next :: "'a DataStore \<Rightarrow> DataLoadBalance \<Rightarrow> error + 'a" where
  "lb_next ds b = bindE (at_int ds (chunk_id b)) (\<lambda>xs. at_int xs (local_id b))"

subsection \<open>DataSampler and BatchDataSampler\<close>

record DataSampler = Position +
  sp_is_empty :: bool

definition mk_DataSampler :: "'a DataStore \<Rightarrow> DataSampler" where
  "mk_DataSampler ds = \<lparr>chunk_id = 0, local_id = - 1, sp_is_empty = dw_empty ds (- 1)\<rparr>"

text \<open>The two values of \<^verbatim>\<open>rand()\<close> are arguments.\<close>

definition sp_random_start_point :: "nat \<Rightarrow> nat \<Rightarrow> 'a DataStore \<Rightarrow> DataSampler \<Rightarrow> (error + DataSampler) option" where
  "sp_random_start_point r1 r2 ds p =
     (if sp_is_empty p then Some (Inr p)
      else if ds = [] then Some (Inl DivideByZero) else
      bindO (skip_empty ds (int (r1 mod length ds))) (\<lambda>c. bindO (Some (at_int ds c)) (\<lambda>xs.
      Some (Inr (p\<lparr>chunk_id := c, local_id := int (r2 mod length xs) - 1\<rparr>)))))"

definition sp_next :: "'a DataStore \<Rightarrow> DataSampler \<Rightarrow> (error + ('a \<times> DataSampler)) option" where
  "sp_next ds p =
     bindO (Some (assertE (\<not> sp_is_empty p))) (\<lambda>_. bindO (Some (add_int (local_id p) 1)) (\<lambda>l. bindO (Some (at_int ds (chunk_id p))) (\<lambda>xs.
     bindO (if below_size l xs then Some (Inr (p\<lparr>local_id := l\<rparr>))
            else bindO (Some (add_int (chunk_id p) 1)) (\<lambda>c. bindO (skip_empty ds (c mod int (length ds))) (\<lambda>c. Some (Inr (p\<lparr>chunk_id := c, local_id := 0\<rparr>))))) (\<lambda>p.
     bindO (Some (at_int ds (chunk_id p))) (\<lambda>xs. bindO (Some (at_int xs (local_id p))) (\<lambda>x. Some (Inr (x, p))))))))"

text \<open>Calls of \<^verbatim>\<open>next\<close>, one after the other.\<close>

fun sp_run :: "nat \<Rightarrow> 'a DataStore \<Rightarrow> DataSampler \<Rightarrow> (error + ('a list \<times> DataSampler)) option" where
  "sp_run 0 ds p = Some (Inr ([], p))"
| "sp_run (Suc n) ds p = bindO (sp_next ds p) (\<lambda>(x, p). bindO (sp_run n ds p) (\<lambda>(xs, p). Some (Inr (x # xs, p))))"

record 'a BatchDataSampler =
  bs_batch_size :: nat
  bs_data_sampler :: DataSampler
  bs_batch_data :: "'a list"

definition mk_BatchDataSampler :: "'a DataStore \<Rightarrow> nat \<Rightarrow> 'a BatchDataSampler" where
  "mk_BatchDataSampler ds batch_size = \<lparr>bs_batch_size = batch_size, bs_data_sampler = mk_DataSampler ds, bs_batch_data = []\<rparr>"

definition bs_random_start_point :: "nat \<Rightarrow> nat \<Rightarrow> 'a DataStore \<Rightarrow> 'a BatchDataSampler \<Rightarrow> (error + 'a BatchDataSampler) option" where
  "bs_random_start_point r1 r2 ds b = bindO (sp_random_start_point r1 r2 ds (bs_data_sampler b)) (\<lambda>p. Some (Inr (b\<lparr>bs_data_sampler := p\<rparr>)))"

definition bs_prepare_next_batch_data :: "'a DataStore \<Rightarrow> 'a BatchDataSampler \<Rightarrow> (error + 'a BatchDataSampler) option" where
  "bs_prepare_next_batch_data ds b =
     (if sp_is_empty (bs_data_sampler b) then Some (Inr b) else
      bindO (sp_run (bs_batch_size b) ds (bs_data_sampler b)) (\<lambda>(xs, p). Some (Inr (b\<lparr>bs_data_sampler := p, bs_batch_data := xs\<rparr>))))"

text \<open>\<open>fea_of\<close> lists the feature ids of an item; \<^verbatim>\<open>std::set\<close> is iterated in order.\<close>

definition bs_prepare_next_batch :: "('a \<Rightarrow> Key list) \<Rightarrow> 'a DataStore \<Rightarrow> 'a BatchDataSampler \<Rightarrow> (error + (Key list \<times> 'a BatchDataSampler)) option" where
  "bs_prepare_next_batch fea_of ds b =
     (if sp_is_empty (bs_data_sampler b) then Some (Inr ([], b)) else
      bindO (bs_prepare_next_batch_data ds b) (\<lambda>b. Some (Inr (sorted_list_of_set (set (concat (map fea_of (bs_batch_data b)))), b))))"

definition bs_get_data_ptrs :: "'a BatchDataSampler \<Rightarrow> 'a list" where
  "bs_get_data_ptrs b = (if sp_is_empty (bs_data_sampler b) then [] else bs_batch_data b)"

text \<open>The use of the class: batch after batch, each with its keys.\<close>

fun bs_batches :: "('a \<Rightarrow> Key list) \<Rightarrow> nat \<Rightarrow> 'a DataStore \<Rightarrow> 'a BatchDataSampler \<Rightarrow> (error + ((Key list \<times> 'a list) list \<times> 'a BatchDataSampler)) option" where
  "bs_batches fea_of 0 ds b = Some (Inr ([], b))"
| "bs_batches fea_of (Suc k) ds b =
     bindO (bs_prepare_next_batch fea_of ds b) (\<lambda>(keys, b). bindO (bs_batches fea_of k ds b) (\<lambda>(out, b'). Some (Inr ((keys, bs_get_data_ptrs b) # out, b'))))"

section \<open>Positions\<close>

text \<open>Sizes for which no position overflows.\<close>

definition ds_fits :: "nat \<Rightarrow> 'a DataStore \<Rightarrow> bool" where
  "ds_fits n ds \<longleftrightarrow> length ds < 2 ^ 31 \<and> list_all (\<lambda>xs. length xs + n < 2 ^ 31) ds"

lemma at_int_nth [simp]: "c < length xs \<Longrightarrow> at_int xs (int c) = Inr (xs ! c)"
  by (simp add: at_int_def vec_get_def)

lemma add_int_nat: "a + b < 2 ^ 31 \<Longrightarrow> add_int (int a) (int b) = Inr (int (a + b))"
  by (simp add: add_int_def)

lemma add_int_one: "a + 1 < 2 ^ 31 \<Longrightarrow> add_int (int a) 1 = Inr (int (Suc a))"
  using add_int_nat [of a 1] by simp

lemma fits_nth: "ds_fits n ds \<Longrightarrow> c < length ds \<Longrightarrow> length (ds ! c) + n < 2 ^ 31"
  by (simp add: ds_fits_def list_all_length)

lemma total_size: "fold (\<lambda>xs n. n + of_nat (length xs)) ds m = m + (of_nat (length (concat ds)) :: u64)"
  by (induction ds arbitrary: m) (simp_all add: algebra_simps)

lemma concat_small: "list_all (\<lambda>xs. length xs < b) ds \<Longrightarrow> length (concat ds) \<le> length ds * b"
  by (induction ds) auto

lemma data_size:
  assumes "ds_fits n ds"
  shows "unat (dw_get_data_size ds (- 1)) = length (concat ds)" "dw_empty ds (- 1) \<longleftrightarrow> concat ds = []" "dw_get_data_size ds (- 1) = 0 \<longleftrightarrow> concat ds = []"
proof -
  have "length (concat ds) \<le> length ds * 2 ^ 31" using assms by (intro concat_small) (auto simp: ds_fits_def list_all_iff)
  also have "\<dots> \<le> 2 ^ 31 * 2 ^ 31" using assms by (simp add: ds_fits_def)
  finally have "length (concat ds) < 2 ^ 64" by simp
  then show *: "unat (dw_get_data_size ds (- 1)) = length (concat ds)" by (simp add: dw_get_data_size_def total_size unat_of_nat_u64)
  show "dw_get_data_size ds (- 1) = 0 \<longleftrightarrow> concat ds = []" using * by (metis length_0_conv unat_eq_zero)
  then show "dw_empty ds (- 1) \<longleftrightarrow> concat ds = []" by (simp add: dw_empty_def word_greater_zero_iff)
qed

text \<open>The items at the places \<open>l, l + n, l + 2 * n, ...\<close>.\<close>

definition stripe :: "nat \<Rightarrow> nat \<Rightarrow> 'a list \<Rightarrow> 'a list" where
  "stripe n l xs = map (\<lambda>j. xs ! j) (filter (\<lambda>j. l \<le> j \<and> n dvd j - l) [0..<length xs])"

lemma stripe_end: "length xs \<le> l \<Longrightarrow> stripe n l xs = []"
  by (auto simp: stripe_def filter_empty_conv)

lemma stripe_first:
  assumes "l < length xs" "0 < n"
  shows "stripe n l xs = xs ! l # stripe n (l + n) xs"
proof -
  have step: "j > l \<and> n dvd j - l \<longleftrightarrow> l + n \<le> j \<and> n dvd j - (l + n)" for j
  proof (cases "l + n \<le> j")
    case True
    then have "j - l = n + (j - (l + n))" by simp
    then have "n dvd j - l \<longleftrightarrow> n dvd j - (l + n)" by (metis dvd_add_right_iff dvd_refl)
    then show ?thesis using True assms(2) by auto
  next
    case False
    then have "\<not> (j > l \<and> n dvd j - l)" by (auto dest!: dvd_imp_le)
    then show ?thesis using False by blast
  qed
  have split: "[0..<length xs] = [0..<l] @ l # [Suc l..<length xs]" using assms(1) by (metis le_add1 less_imp_le_nat plus_nat.add_0 upt_add_eq_append upt_conv_Cons less_imp_add_positive add_0)
  have "filter (\<lambda>j. l \<le> j \<and> n dvd j - l) [0..<length xs] = l # filter (\<lambda>j. l \<le> j \<and> n dvd j - l) [Suc l..<length xs]"
    unfolding split by (simp add: filter_empty_conv)
  also have "filter (\<lambda>j. l \<le> j \<and> n dvd j - l) [Suc l..<length xs] = filter (\<lambda>j. l + n \<le> j \<and> n dvd j - (l + n)) [Suc l..<length xs]"
    by (rule filter_cong [OF refl]) (metis atLeastLessThan_iff atLeastLessThan_upt less_eq_Suc_le less_imp_le_nat set_upt step)
  also have "\<dots> = filter (\<lambda>j. l + n \<le> j \<and> n dvd j - (l + n)) [0..<length xs]"
    unfolding split using assms(2) by (simp add: filter_empty_conv)
  finally show ?thesis by (simp add: stripe_def)
qed

lemma stripe_all: "stripe 1 l xs = drop l xs"
proof (induction "length xs - l" arbitrary: l)
  case 0
  then show ?case by (simp add: stripe_end)
next
  case (Suc k)
  then have "stripe 1 l xs = xs ! l # stripe 1 (l + 1) xs" by (intro stripe_first) simp_all
  also have "\<dots> = xs ! l # drop (l + 1) xs" using Suc by simp
  also have "\<dots> = drop l xs" using Suc.hyps(2) by (simp add: Cons_nth_drop_Suc)
  finally show ?case .
qed

lemma stripes_cover:
  assumes "0 < n"
  shows "(\<Sum>p<n. mset (stripe n p xs)) = mset xs"
proof -
  have mod: "p \<le> j \<and> n dvd j - p \<longleftrightarrow> j mod n = p" if "p < n" for p j
    using that by (metis mod_eq_dvd_iff_nat mod_less mod_less_eq_dividend)
  have part: "(\<Sum>p<n. filter_mset (\<lambda>j. j mod n = p) M) = M" for M
  proof (induction M)
    case (add x M)
    have "(\<Sum>p<n. filter_mset (\<lambda>j. j mod n = p) (add_mset x M)) = (\<Sum>p<n. (if p = x mod n then {#x#} else {#}) + filter_mset (\<lambda>j. j mod n = p) M)"
      by (rule sum.cong) auto
    also have "\<dots> = {#x#} + M" using assms by (simp add: sum.distrib add sum.delta)
    finally show ?case by simp
  qed simp
  have "mset (stripe n p xs) = image_mset (\<lambda>j. xs ! j) (filter_mset (\<lambda>j. j mod n = p) (mset [0..<length xs]))" if "p < n" for p
    unfolding stripe_def using mod [OF that] by (simp add: mset_map mset_filter)
  then have "(\<Sum>p<n. mset (stripe n p xs)) = image_mset (\<lambda>j. xs ! j) (\<Sum>p<n. filter_mset (\<lambda>j. j mod n = p) (mset [0..<length xs]))"
    using sum_comp_morphism [of "image_mset (\<lambda>j. xs ! j)" "\<lambda>p. filter_mset (\<lambda>j. j mod n = p) (mset [0..<length xs])" "{..<n}"] by (simp add: comp_def)
  then show ?thesis unfolding part by (metis map_nth mset_map)
qed

section \<open>Walking over all items\<close>

text \<open>\<open>R xs p\<close>: from the position \<open>p\<close> on the items \<open>xs\<close> are still to come.\<close>

locale iterator =
  fixes has_next :: "'p \<Rightarrow> error + (bool \<times> 'p)" and nxt :: "'p \<Rightarrow> error + 'a" and R :: "'a list \<Rightarrow> 'p \<Rightarrow> bool"
  assumes at_end: "R [] p \<Longrightarrow> \<exists>p'. has_next p = Inr (False, p')"
    and advance: "R (x # xs) p \<Longrightarrow> \<exists>p'. has_next p = Inr (True, p') \<and> nxt p' = Inr x \<and> R xs p'"
begin

lemma iterate_all: "R xs p \<Longrightarrow> iterate has_next nxt p = Some (Inr xs)"
proof (induction xs arbitrary: p)
  case Nil
  from at_end [OF this] show ?case by (auto simp: iterate.simps [of has_next nxt p])
next
  case (Cons x xs)
  from advance [OF Cons.prems] obtain p' where "has_next p = Inr (True, p')" "nxt p' = Inr x" "R xs p'" by blast
  then show ?case using Cons.IH [of p'] by (simp add: iterate.simps [of has_next nxt p])
qed

end

text \<open>What a thread still visits from place \<open>l\<close> of list \<open>c\<close> on.\<close>

definition rest_from :: "nat \<Rightarrow> nat \<Rightarrow> 'a DataStore \<Rightarrow> nat \<Rightarrow> nat \<Rightarrow> 'a list" where
  "rest_from n p ds c l = stripe n l (ds ! c) @ concat (map (stripe n p) (drop (Suc c) ds))"

declare lb_scan.simps [simp del] di_scan.simps [simp del]

lemma rest_from_next: "Suc c < length ds \<Longrightarrow> length (ds ! c) \<le> l \<Longrightarrow> rest_from n p ds c l = rest_from n p ds (Suc c) p"
  by (simp add: rest_from_def stripe_end) (metis Cons_nth_drop_Suc concat.simps(2) list.simps(9))

lemma last_list:
  assumes "c < length ds"
  shows "ds \<noteq> [] \<and> int c = int (length ds) - 1 \<longleftrightarrow> Suc c = length ds" "Suc c = length ds \<Longrightarrow> last ds = ds ! c"
proof -
  show "ds \<noteq> [] \<and> int c = int (length ds) - 1 \<longleftrightarrow> Suc c = length ds" using assms by auto
  assume "Suc c = length ds"
  then have "length ds - 1 = c" by simp
  then show "last ds = ds ! c" using assms last_conv_nth [of ds] by force
qed

lemma lb_scan_ok:
  assumes "ds_fits n ds" "c < length ds" "0 < n"
  shows "if rest_from n p ds c l = [] then \<exists>q. lb_scan ds (int p) (int c) (int l) = Inr (False, q)
     else \<exists>c' l'. c' < length ds \<and> l' < length (ds ! c') \<and> lb_scan ds (int p) (int c) (int l) = Inr (True, \<lparr>chunk_id = int c', local_id = int l'\<rparr>)
       \<and> rest_from n p ds c l = ds ! c' ! l' # rest_from n p ds c' (l' + n)"
  using assms(2)
proof (induction "length ds - c" arbitrary: c l)
  case 0
  then show ?case by simp
next
  case (Suc k)
  note unfold = lb_scan.simps [of ds "int p" "int c" "int l"]
  note last = last_list [OF Suc.prems]
  show ?case
  proof (cases "l < length (ds ! c)")
    case True
    then have "lb_scan ds (int p) (int c) (int l) = Inr (True, \<lparr>chunk_id = int c, local_id = int l\<rparr>)" using Suc.prems last by (auto simp: unfold below_size_def)
    moreover have "rest_from n p ds c l = ds ! c ! l # rest_from n p ds c (l + n)" using stripe_first [OF True assms(3)] by (simp add: rest_from_def)
    ultimately show ?thesis using True Suc.prems by auto
  next
    case False
    show ?thesis
    proof (cases "Suc c = length ds")
      case True
      then have "rest_from n p ds c l = []" using False by (simp add: rest_from_def stripe_end)
      moreover have "lb_scan ds (int p) (int c) (int l) = Inr (False, \<lparr>chunk_id = int c, local_id = int l\<rparr>)" using last True False by (simp add: unfold below_size_def)
      ultimately show ?thesis by simp
    next
      case next_list: False
      then have c: "Suc c < length ds" using Suc.prems by simp
      have "Suc c < 2 ^ 31" using c assms(1) by (simp add: ds_fits_def)
      then have step: "lb_scan ds (int p) (int c) (int l) = lb_scan ds (int p) (int (Suc c)) (int p)"
        using last next_list Suc.prems False add_int_one [of c] by (simp add: unfold below_size_def)
      have "k = length ds - Suc c" "rest_from n p ds c l = rest_from n p ds (Suc c) p" using Suc.hyps(2) c False by (simp_all add: rest_from_next)
      then show ?thesis unfolding step using Suc.hyps(1) [of "Suc c" p] c by presburger
    qed
  qed
qed

lemma di_scan_lb:
  assumes "c < length ds" "l \<le> length (ds ! c)"
  shows "di_scan ds (int c) (int l) = lb_scan ds 0 (int c) (int l)"
  using assms
proof (induction "length ds - c" arbitrary: c l)
  case (Suc k)
  note last = last_list [OF Suc.prems(1)]
  note unfold = di_scan.simps [of ds "int c" "int l"] lb_scan.simps [of ds 0 "int c" "int l"]
  show ?case
  proof (cases "Suc c = length ds")
    case True
    then have "int (length ds) = int c + 1" "ds \<noteq> []" "last ds = ds ! c" using last(2) by auto
    then show ?thesis unfolding unfold using Suc.prems by (simp add: below_size_def)
  next
    case False
    then have end_c: "int c \<noteq> int (length ds) - 1" by linarith
    have "di_scan ds (int (Suc c)) (int 0) = lb_scan ds 0 (int (Suc c)) (int 0)" using Suc False by (intro Suc.hyps(1)) simp_all
    then show ?thesis unfolding unfold using end_c Suc.prems(1) by (simp add: add_int_def add.commute)
  qed
qed simp

text \<open>Positions of the two classes.\<close>

definition di_rest :: "'a DataStore \<Rightarrow> 'a list \<Rightarrow> Position \<Rightarrow> bool" where
  "di_rest ds xs p \<longleftrightarrow> (\<exists>c l. c < length ds \<and> l \<le> length (ds ! c) \<and> p = \<lparr>chunk_id = int c, local_id = int l - 1\<rparr> \<and> xs = rest_from 1 0 ds c l)"

definition lb_rest :: "'a DataStore \<Rightarrow> nat \<Rightarrow> nat \<Rightarrow> 'a list \<Rightarrow> DataLoadBalance \<Rightarrow> bool" where
  "lb_rest ds n p xs b \<longleftrightarrow> (if lb_is_empty b then xs = [] else
     \<exists>c l. c < length ds \<and> l < length (ds ! c) + n \<and> chunk_id b = int c \<and> local_id b = int l - int n \<and> xs = rest_from n p ds c l)"

lemma di_step:
  assumes "ds_fits 1 ds" "di_rest ds xs p"
  shows "case xs of [] \<Rightarrow> \<exists>p'. di_has_next ds p = Inr (False, p')
     | y # ys \<Rightarrow> \<exists>p'. di_has_next ds p = Inr (True, p') \<and> next_item ds p' = Inr y \<and> di_rest ds ys p'"
proof -
  obtain c l where p: "c < length ds" "l \<le> length (ds ! c)" "p = \<lparr>chunk_id = int c, local_id = int l - 1\<rparr>" "xs = rest_from 1 0 ds c l" using assms(2) by (auto simp: di_rest_def)
  have "add_int (int l - 1) 1 = Inr (int l)" using fits_nth [OF assms(1) p(1)] p(2) by (simp add: add_int_def)
  then have run: "di_has_next ds p = lb_scan ds (int 0) (int c) (int l)" using p di_scan_lb [OF p(1,2)] by (simp add: di_has_next_def)
  note scan = lb_scan_ok [OF assms(1) p(1) zero_less_one, of 0 l]
  show ?thesis
  proof (cases xs)
    case Nil
    then show ?thesis using scan p(4) run by simp
  next
    case (Cons y ys)
    then obtain c' l' where n: "c' < length ds" "l' < length (ds ! c')" "di_has_next ds p = Inr (True, \<lparr>chunk_id = int c', local_id = int l'\<rparr>)"
      "y = ds ! c' ! l'" "ys = rest_from 1 0 ds c' (l' + 1)" using scan p(4) run by (auto split: if_splits)
    then have "di_rest ds ys \<lparr>chunk_id = int c', local_id = int l'\<rparr>" unfolding di_rest_def by (intro exI [of _ c'] exI [of _ "l' + 1"]) simp
    then show ?thesis using n Cons by (auto simp: next_item_def)
  qed
qed

interpretation di: iterator "di_has_next ds" "next_item ds" "\<lambda>xs p. ds_fits 1 ds \<and> di_rest ds xs p" for ds
  by unfold_locales (use di_step in fastforce)+

lemma lb_step:
  assumes "ds_fits n ds" "0 < n" "lb_rest ds n p xs b"
  shows "case xs of [] \<Rightarrow> \<exists>b'. lb_has_next ds (int n) (int p) b = Inr (False, b')
     | y # ys \<Rightarrow> \<exists>b'. lb_has_next ds (int n) (int p) b = Inr (True, b') \<and> lb_next ds b' = Inr y \<and> lb_rest ds n p ys b'"
proof (cases "lb_is_empty b")
  case True
  then show ?thesis using assms(3) by (simp add: lb_rest_def lb_has_next_def)
next
  case False
  then obtain c l where q: "c < length ds" "l < length (ds ! c) + n" "chunk_id b = int c" "local_id b = int l - int n" "xs = rest_from n p ds c l"
    using assms(3) unfolding lb_rest_def by auto
  have "add_int (int l - int n) (int n) = Inr (int l)" using fits_nth [OF assms(1) q(1)] q(2) by (simp add: add_int_def)
  then have run: "lb_has_next ds (int n) (int p) b = bindE (lb_scan ds (int p) (int c) (int l)) (\<lambda>(go, p). Inr (go, b\<lparr>chunk_id := chunk_id p, local_id := local_id p\<rparr>))"
    using q False by (simp add: lb_has_next_def)
  note scan = lb_scan_ok [OF assms(1) q(1) assms(2), of p l]
  show ?thesis
  proof (cases xs)
    case Nil
    then show ?thesis using scan q(5) run by auto
  next
    case (Cons y ys)
    then obtain c' l' where r: "c' < length ds" "l' < length (ds ! c')" "lb_has_next ds (int n) (int p) b = Inr (True, b\<lparr>chunk_id := int c', local_id := int l'\<rparr>)"
      "y = ds ! c' ! l'" "ys = rest_from n p ds c' (l' + n)" using scan q(5) run by auto
    have "lb_rest ds n p ys (b\<lparr>chunk_id := int c', local_id := int l'\<rparr>)" 
      unfolding lb_rest_def by (subst if_not_P, use False in simp) (intro exI [of _ c'] exI [of _ "l' + n"], use r in simp)
    then show ?thesis using r Cons by (auto simp: lb_next_def)
  qed
qed

interpretation lb: iterator "lb_has_next ds (int n) (int p)" "lb_next ds" "\<lambda>xs b. ds_fits n ds \<and> 0 < n \<and> lb_rest ds n p xs b" for ds n p
  by unfold_locales (use lb_step in fastforce)+

section \<open>Walking in a circle\<close>

text \<open>The place of the first item of a list among all items.\<close>

definition offset_of :: "'a DataStore \<Rightarrow> nat \<Rightarrow> nat" where
  "offset_of ds c = length (concat (take c ds))"

lemma offset_Suc: "c < length ds \<Longrightarrow> offset_of ds (Suc c) = offset_of ds c + length (ds ! c)"
  by (simp add: offset_of_def take_Suc_conv_app_nth)

lemma offset_end: "offset_of ds (length ds) = length (concat ds)"
  by (simp add: offset_of_def)

lemma offset_le: "offset_of ds c \<le> length (concat ds)"
proof -
  have "length (concat ds) = length (concat (take c ds)) + length (concat (drop c ds))" by (metis append_take_drop_id concat_append length_append)
  then show ?thesis by (simp add: offset_of_def)
qed

lemma offset_item:
  assumes "c < length ds" "l < length (ds ! c)"
  shows "offset_of ds c + l < length (concat ds)" "concat ds ! (offset_of ds c + l) = ds ! c ! l"
proof -
  have split: "concat ds = concat (take c ds) @ ds ! c @ concat (drop (Suc c) ds)"
    using assms(1) by (metis append_take_drop_id concat.simps(2) concat_append Cons_nth_drop_Suc)
  show "offset_of ds c + l < length (concat ds)" "concat ds ! (offset_of ds c + l) = ds ! c ! l"
    using assms(2) by (simp_all add: offset_of_def split nth_append)
qed

text \<open>Going to the following list keeps the place, up to the number of all items, if the list is empty.\<close>

lemma offset_circle:
  assumes "c < length ds"
  shows "offset_of ds (Suc c mod length ds) mod length (concat ds) = (offset_of ds c + length (ds ! c)) mod length (concat ds)"
proof (cases "Suc c = length ds")
  case True
  then have "offset_of ds c + length (ds ! c) = length (concat ds)" using offset_Suc [OF assms] offset_end [of ds] by simp
  then show ?thesis using True by (simp add: offset_of_def)
next
  case False
  then show ?thesis using offset_Suc [OF assms] assms by simp
qed

lemma skip_empty_ok:
  assumes "length ds < 2 ^ 31" "concat ds \<noteq> []" "c < length ds"
  shows "\<exists>c'. skip_empty ds (int c) = Some (Inr (int c')) \<and> c' < length ds \<and> ds ! c' \<noteq> []
     \<and> offset_of ds c' mod length (concat ds) = offset_of ds c mod length (concat ds)"
proof -
  obtain d where d: "d < length ds" "ds ! d \<noteq> []" using assms(2) by (metis concat_eq_Nil_conv in_set_conv_nth)
  define dist where "dist = (\<lambda>c. if c \<le> d then d - c else d + length ds - c)"
  show ?thesis using assms(3)
  proof (induction "dist c" arbitrary: c rule: less_induct)
    case less
    note unfold = skip_empty.simps [of ds "int c"]
    show ?case
    proof (cases "ds ! c = []")
      case True
      let ?c = "Suc c mod length ds"
      have ne: "c \<noteq> d" using True d(2) by blast
      have len: "?c < length ds" using less.prems by (intro mod_less_divisor) (rule order_le_less_trans [OF le0])
      have "dist ?c < dist c" using ne less.prems d(1) by (cases "Suc c = length ds") (auto simp: dist_def)
      from less.hyps [OF this len] obtain c' where c': "skip_empty ds (int ?c) = Some (Inr (int c'))" "c' < length ds" "ds ! c' \<noteq> []"
        "offset_of ds c' mod length (concat ds) = offset_of ds ?c mod length (concat ds)" by blast
      have "add_int (int c) 1 = Inr (int (Suc c))" using less.prems assms(1) by (intro add_int_one) simp
      then have "skip_empty ds (int c) = skip_empty ds (int (Suc c) mod int (length ds))" using True less.prems by (simp add: unfold)
      then show ?thesis using c' offset_circle [OF less.prems] True by (auto simp: zmod_int)
    next
      case False
      then show ?thesis using less.prems by (intro exI [of _ c]) (simp add: unfold)
    qed
  qed
qed

text \<open>The sampler is at place \<open>q\<close>: the next item is number \<open>q\<close>, counted round and round.\<close>

definition sp_at :: "'a DataStore \<Rightarrow> nat \<Rightarrow> DataSampler \<Rightarrow> bool" where
  "sp_at ds q p \<longleftrightarrow> \<not> sp_is_empty p \<and> (\<exists>c l. c < length ds \<and> l \<le> length (ds ! c) \<and> chunk_id p = int c \<and> local_id p = int l - 1
     \<and> (offset_of ds c + l) mod length (concat ds) = q mod length (concat ds))"

lemma sp_next_ok:
  assumes fits: "ds_fits 1 ds" "concat ds \<noteq> []" and p: "sp_at ds q p"
  shows "\<exists>p'. sp_next ds p = Some (Inr (concat ds ! (q mod length (concat ds)), p')) \<and> sp_at ds (Suc q) p'"
proof -
  let ?T = "length (concat ds)"
  obtain c l where q: "\<not> sp_is_empty p" "c < length ds" "l \<le> length (ds ! c)" "chunk_id p = int c" "local_id p = int l - 1" "(offset_of ds c + l) mod ?T = q mod ?T"
    using p by (auto simp: sp_at_def)
  have len: "length ds < 2 ^ 31" using fits(1) by (simp add: ds_fits_def)
  have l: "add_int (local_id p) 1 = Inr (int l)" using fits_nth [OF fits(1) q(2)] q(3,5) by (simp add: add_int_def)
  have found: "concat ds ! (q mod ?T) = ds ! c' ! l' \<and> sp_at ds (Suc q) (p\<lparr>chunk_id := int c', local_id := int l'\<rparr>)"
    if i: "c' < length ds" "l' < length (ds ! c')" "(offset_of ds c' + l') mod ?T = q mod ?T" for c' l'
  proof -
    have "(offset_of ds c' + Suc l') mod ?T = Suc q mod ?T" using i(3) by (metis add_Suc_right mod_Suc_eq)
    then have "sp_at ds (Suc q) (p\<lparr>chunk_id := int c', local_id := int l'\<rparr>)" using i(1,2) q(1) unfolding sp_at_def by (intro conjI exI [of _ c'] exI [of _ "Suc l'"]) simp_all
    then show ?thesis using offset_item [OF i(1,2)] i(3) by simp
  qed
  show ?thesis
  proof (cases "l < length (ds ! c)")
    case True
    have same: "p\<lparr>local_id := int l\<rparr> = p\<lparr>chunk_id := int c, local_id := int l\<rparr>" using q(4) by (cases p) simp
    have "sp_next ds p = Some (Inr (ds ! c ! l, p\<lparr>local_id := int l\<rparr>))" using True q l by (simp add: sp_next_def below_size_def)
    then show ?thesis using found [OF q(2) True q(6)] unfolding same by simp
  next
    case False
    have "Suc c mod length ds < length ds" using q(2) by (intro mod_less_divisor) (rule order_le_less_trans [OF le0])
    from skip_empty_ok [OF len fits(2) this] obtain c' where c': "skip_empty ds (int (Suc c mod length ds)) = Some (Inr (int c'))" "c' < length ds" "ds ! c' \<noteq> []"
      "offset_of ds c' mod ?T = offset_of ds (Suc c mod length ds) mod ?T" by blast
    have "(offset_of ds c' + 0) mod ?T = q mod ?T" using c'(4) offset_circle [OF q(2)] q(3,6) False by (metis add.right_neutral le_neq_implies_less)
    with found [of c' 0] c' have f: "concat ds ! (q mod ?T) = ds ! c' ! 0" "sp_at ds (Suc q) (p\<lparr>chunk_id := int c', local_id := 0\<rparr>)" by auto
    have "add_int (int c) 1 = Inr (int (Suc c))" using q(2) len by (intro add_int_one) simp
    then have "sp_next ds p = Some (Inr (ds ! c' ! 0, p\<lparr>chunk_id := int c', local_id := 0\<rparr>))"
      using c' q l False by (simp add: sp_next_def below_size_def zmod_int at_int_nth [of 0 "ds ! c'", simplified])
    then show ?thesis using f by simp
  qed
qed

text \<open>Number \<open>q, q + 1, ...\<close> of the items, counted round and round.\<close>

definition circle :: "'a list \<Rightarrow> nat \<Rightarrow> nat \<Rightarrow> 'a list" where
  "circle xs q n = map (\<lambda>i. xs ! ((q + i) mod length xs)) [0..<n]"

lemma length_circle [simp]: "length (circle xs q n) = n"
  by (simp add: circle_def)

lemma circle_Suc: "circle xs q (Suc n) = xs ! (q mod length xs) # circle xs (Suc q) n"
  by (simp add: circle_def upt_conv_Cons del: upt_Suc) (simp add: map_Suc_upt [symmetric] del: upt_Suc)

lemma circle_add: "circle xs q (m + n) = circle xs q m @ circle xs (q + m) n"
  by (induction m arbitrary: q) (simp_all add: circle_Suc, simp add: circle_def)

lemma circle_once:
  assumes "xs \<noteq> []"
  shows "mset (circle xs q (length xs)) = mset xs"
proof -
  have "circle xs q (length xs) = rotate q xs" by (rule nth_equalityI) (use assms in \<open>simp_all add: circle_def nth_rotate\<close>)
  then show ?thesis by (simp add: rotate_drop_take) (metis append_take_drop_id mset_append union_commute)
qed

lemma sp_run_ok:
  assumes "ds_fits 1 ds" "concat ds \<noteq> []" "sp_at ds q p"
  shows "\<exists>p'. sp_run n ds p = Some (Inr (circle (concat ds) q n, p')) \<and> sp_at ds (q + n) p'"
  using assms(3)
proof (induction n arbitrary: p q)
  case 0
  then show ?case by (simp add: circle_def)
next
  case (Suc n)
  from sp_next_ok [OF assms(1,2) Suc.prems] obtain p1 where p1: "sp_next ds p = Some (Inr (concat ds ! (q mod length (concat ds)), p1))" "sp_at ds (Suc q) p1" by blast
  from Suc.IH [OF p1(2)] show ?case using p1(1) by (auto simp: circle_Suc)
qed

lemma mk_DataSampler_at:
  assumes "ds_fits 1 ds" "concat ds \<noteq> []"
  shows "sp_at ds 0 (mk_DataSampler ds)"
  using assms data_size(2) [OF assms(1)] by (auto simp: sp_at_def mk_DataSampler_def offset_of_def intro!: exI [of _ 0])

lemma random_start_at:
  assumes "ds_fits 1 ds" "concat ds \<noteq> []" "\<not> sp_is_empty p"
  shows "\<exists>p' q. sp_random_start_point r1 r2 ds p = Some (Inr p') \<and> sp_at ds q p' \<and> q < length (concat ds)"
proof -
  have ds: "ds \<noteq> []" "length ds < 2 ^ 31" using assms(1,2) by (auto simp: ds_fits_def)
  then have "r1 mod length ds < length ds" by simp
  from skip_empty_ok [OF ds(2) assms(2) this] obtain c where c: "skip_empty ds (int (r1 mod length ds)) = Some (Inr (int c))" "c < length ds" "ds ! c \<noteq> []" by blast
  let ?l = "r2 mod length (ds ! c)" and ?p = "p\<lparr>chunk_id := int c, local_id := int (r2 mod length (ds ! c)) - 1\<rparr>"
  have l: "?l < length (ds ! c)" using c(3) by simp
  have "sp_random_start_point r1 r2 ds p = Some (Inr ?p)" using assms(3) ds(1) c by (simp add: sp_random_start_point_def)
  moreover have "sp_at ds (offset_of ds c + ?l) ?p" using assms(3) c(2) l unfolding sp_at_def by (intro conjI exI [of _ c] exI [of _ ?l]) simp_all
  ultimately show ?thesis using offset_item(1) [OF c(2) l] by blast
qed

text \<open>\<^verbatim>\<open>DataLooper\<close> goes through the same places as the sampler.\<close>

lemma dl_scan_forward:
  assumes "length ds < 2 ^ 31" "Suc c < length ds"
  shows "dl_scan ds (int c) (int (length (ds ! c))) = dl_scan ds (int (Suc c)) (int 0)"
proof -
  have "int c \<noteq> int (length ds) - 1" using assms(2) by linarith
  then show ?thesis using assms add_int_one [of c] by (simp add: dl_scan.simps [of ds "int c"] below_size_def)
qed

lemma dl_scan_inside:
  assumes "length ds < 2 ^ 31" "c < length ds" "l \<le> length (ds ! c)" "offset_of ds c + l < length (concat ds)"
  shows "\<exists>c' l'. dl_scan ds (int c) (int l) = Some (Inr \<lparr>chunk_id = int c', local_id = int l'\<rparr>) \<and> c' < length ds \<and> l' < length (ds ! c')
     \<and> offset_of ds c' + l' = offset_of ds c + l"
  using assms(2-4)
proof (induction "length ds - c" arbitrary: c l)
  case (Suc k)
  show ?case
  proof (cases "l < length (ds ! c)")
    case True
    then have "dl_scan ds (int c) (int l) = Some (Inr \<lparr>chunk_id = int c, local_id = int l\<rparr>)"
      using Suc.prems last_list [OF Suc.prems(1)] by (auto simp: dl_scan.simps [of ds "int c" "int l"] below_size_def)
    then show ?thesis using True Suc.prems by blast
  next
    case False
    then have l: "l = length (ds ! c)" using Suc.prems(2) by simp
    then have c: "Suc c < length ds" using Suc.prems(1,3) offset_Suc [OF Suc.prems(1)] offset_end [of ds] by (metis Suc_lessI less_irrefl)
    have off: "offset_of ds (Suc c) = offset_of ds c + l" using offset_Suc [OF Suc.prems(1)] l by simp
    then have "offset_of ds (Suc c) + 0 < length (concat ds)" using Suc.prems(3) by simp
    from Suc.hyps(1) [OF _ c le0 this] Suc.hyps(2) show ?thesis unfolding l dl_scan_forward [OF assms(1) c] using off l by auto
  qed
qed simp

lemma dl_scan_wrap:
  assumes "length ds < 2 ^ 31" "concat ds \<noteq> []" "c < length ds" "l \<le> length (ds ! c)" "offset_of ds c + l = length (concat ds)"
  shows "dl_scan ds (int c) (int l) = dl_scan ds (int 0) (int 0)"
  using assms(3-5)
proof (induction "length ds - c" arbitrary: c l)
  case (Suc k)
  have l: "l = length (ds ! c)" using Suc.prems offset_item(1) [OF Suc.prems(1), of l] by linarith
  show ?case
  proof (cases "Suc c = length ds")
    case True
    have ne: "int (length ds) = int c + 1" "ds \<noteq> []" "last ds = ds ! c" using True last_list(2) [OF Suc.prems(1)] by auto
    have "\<not> (c = 0 \<and> l = 0)"
    proof
      assume "c = 0 \<and> l = 0"
      then have "length (concat ds) = 0" using Suc.prems(3) by (simp add: offset_of_def)
      then show False using assms(2) by blast
    qed
    then have "\<not> (0 = int (length ds) - 1 \<and> 0 = int (length (last ds)))" using ne l by auto
    then show ?thesis unfolding dl_scan.simps [of ds "int c" "int l"] dl_scan.simps [of ds "int 0" "int 0"] using l ne by simp
  next
    case False
    then have c: "Suc c < length ds" using Suc.prems(1) by simp
    have "offset_of ds (Suc c) + 0 = length (concat ds)" using offset_Suc [OF Suc.prems(1)] l Suc.prems(3) by simp
    from Suc.hyps(1) [OF _ c le0 this] Suc.hyps(2) show ?thesis unfolding l dl_scan_forward [OF assms(1) c] by simp
  qed
qed simp

text \<open>The looper is at place \<open>q\<close>.\<close>

definition dl_at :: "'a DataStore \<Rightarrow> nat \<Rightarrow> Position \<Rightarrow> bool" where
  "dl_at ds q p \<longleftrightarrow> (\<exists>c l. c < length ds \<and> l \<le> length (ds ! c) \<and> p = \<lparr>chunk_id = int c, local_id = int l - 1\<rparr>
     \<and> (offset_of ds c + l) mod length (concat ds) = q mod length (concat ds))"

lemma looper_step:
  assumes fits: "ds_fits 1 ds" "concat ds \<noteq> []" and p: "dl_at ds q p"
  shows "\<exists>p'. dl_has_next ds p = Some (Inr (True, p')) \<and> next_item ds p' = Inr (concat ds ! (q mod length (concat ds))) \<and> dl_at ds (Suc q) p'"
proof -
  let ?T = "length (concat ds)"
  obtain c l where q: "c < length ds" "l \<le> length (ds ! c)" "p = \<lparr>chunk_id = int c, local_id = int l - 1\<rparr>" "(offset_of ds c + l) mod ?T = q mod ?T" using p by (auto simp: dl_at_def)
  have len: "length ds < 2 ^ 31" using fits(1) by (simp add: ds_fits_def)
  have bound: "offset_of ds c + l \<le> ?T" using offset_le [of ds "Suc c"] offset_Suc [OF q(1)] q(2) by simp
  have zero: "offset_of ds 0 + 0 < ?T" "0 < length ds" using fits(2) q(1) by (auto simp: offset_of_def)
  obtain c' l' where r: "dl_scan ds (int c) (int l) = Some (Inr \<lparr>chunk_id = int c', local_id = int l'\<rparr>)" "c' < length ds" "l' < length (ds ! c')"
    "(offset_of ds c' + l') mod ?T = (offset_of ds c + l) mod ?T"
  proof (cases "offset_of ds c + l < ?T")
    case True
    from dl_scan_inside [OF len q(1,2) this] show ?thesis using that by metis
  next
    case False
    then have w: "offset_of ds c + l = ?T" using bound by simp
    from dl_scan_inside [OF len zero(2) le0 zero(1)] dl_scan_wrap [OF len fits(2) q(1,2) w] obtain c' l'
      where "dl_scan ds (int c) (int l) = Some (Inr \<lparr>chunk_id = int c', local_id = int l'\<rparr>)" "c' < length ds" "l' < length (ds ! c')" "offset_of ds c' + l' = offset_of ds 0 + 0" by auto
    moreover have "(offset_of ds 0 + 0) mod ?T = (offset_of ds c + l) mod ?T" unfolding w by (simp add: offset_of_def)
    ultimately show ?thesis using that by metis
  qed
  have "add_int (int l - 1) 1 = Inr (int l)" using fits_nth [OF fits(1) q(1)] q(2) by (simp add: add_int_def)
  then have run: "dl_has_next ds p = Some (Inr (True, \<lparr>chunk_id = int c', local_id = int l'\<rparr>))" using r(1) q(3) data_size(3) [OF fits(1)] fits(2) by (simp add: dl_has_next_def)
  have "(offset_of ds c' + Suc l') mod ?T = Suc q mod ?T" using r(4) q(4) by (metis add_Suc_right mod_Suc_eq)
  then have "dl_at ds (Suc q) \<lparr>chunk_id = int c', local_id = int l'\<rparr>" unfolding dl_at_def using r(2,3) by (intro exI [of _ c'] exI [of _ "Suc l'"]) simp
  then show ?thesis using run offset_item [OF r(2,3)] r q(4) by (simp add: next_item_def)
qed

section \<open>Properties\<close>

lemma rest_from_start: "(\<forall>i < c. ds ! i = []) \<Longrightarrow> c < length ds \<Longrightarrow> rest_from n p ds c p = concat (map (stripe n p) ds)"
proof (induction c)
  case 0
  then show ?case by (cases ds) (simp_all add: rest_from_def)
next
  case (Suc c)
  then have "rest_from n p ds (Suc c) p = rest_from n p ds c p" using rest_from_next [of c ds p n p] by simp
  then show ?case using Suc by simp
qed

lemma skip_empty_first:
  assumes "length ds < 2 ^ 31" "c < length ds" "ds ! c \<noteq> []" "\<forall>i < c. ds ! i = []" "k \<le> c"
  shows "skip_empty ds (int k) = Some (Inr (int c))"
  using assms(5)
proof (induction "c - k" arbitrary: k)
  case 0
  then show ?case using assms(2,3) by (simp add: skip_empty.simps [of ds "int k"])
next
  case (Suc d)
  then have k: "k < c" "Suc k < length ds" using assms(2) by simp_all
  then have "skip_empty ds (int k) = skip_empty ds (int (Suc k) mod int (length ds))"
    using assms(1,4) add_int_one [of k] by (simp add: skip_empty.simps [of ds "int k"])
  also have "\<dots> = skip_empty ds (int (Suc k))" using k(2) by (metis mod_less zmod_int)
  finally show ?case using Suc.hyps(1) [of "Suc k"] Suc.hyps(2) k(1) by simp
qed

lemma lb_new:
  assumes "ds_fits n ds" "p < n" "n < 2 ^ 31"
  shows "\<exists>b. mk_DataLoadBalance ds (int n) (int p) = Some (Inr b) \<and> lb_rest ds n p (concat (map (stripe n p) ds)) b \<and> lb_is_empty b = (concat ds = [])"
proof -
  have l: "add_int (int p) (- int n) = Inr (int p - int n)" using assms(2,3) by (simp add: add_int_def)
  show ?thesis
  proof (cases "concat ds = []")
    case True
    then have "concat (map (stripe n p) ds) = []" by (auto simp: stripe_end)
    then show ?thesis using True l data_size(2) [OF assms(1)] by (simp add: mk_DataLoadBalance_def lb_rest_def del: concat_eq_Nil_conv)
  next
    case False
    then obtain i where "i < length ds \<and> ds ! i \<noteq> []" by (metis concat_eq_Nil_conv in_set_conv_nth)
    then obtain c where c: "c < length ds" "ds ! c \<noteq> []" "\<forall>i < c. ds ! i = []" using exists_least_iff [of "\<lambda>i. i < length ds \<and> ds ! i \<noteq> []"] by (metis order.strict_trans)
    have "skip_empty ds 0 = Some (Inr (int c))" using skip_empty_first [OF _ c le0] assms(1) by (simp add: ds_fits_def)
    then have "mk_DataLoadBalance ds (int n) (int p) = Some (Inr \<lparr>chunk_id = int c, local_id = int p - int n, lb_is_empty = False\<rparr>)"
      using False l data_size(2) [OF assms(1)] by (simp add: mk_DataLoadBalance_def del: concat_eq_Nil_conv)
    moreover have "lb_rest ds n p (concat (map (stripe n p) ds)) \<lparr>chunk_id = int c, local_id = int p - int n, lb_is_empty = False\<rparr>"
      using rest_from_start [OF c(3,1), of n p] c(1) assms(2) unfolding lb_rest_def by auto
    ultimately show ?thesis using False by simp
  qed
qed

lemma lb_again:
  assumes "ds_fits n ds" "p < n" "n < 2 ^ 31" "lb_is_empty b = (concat ds = [])"
  shows "\<exists>b'. lb_reset (int n) (int p) b = Inr b' \<and> lb_rest ds n p (concat (map (stripe n p) ds)) b'"
proof -
  have r: "lb_reset (int n) (int p) b = Inr (b\<lparr>local_id := int p - int n, chunk_id := 0\<rparr>)" using assms(2,3) by (simp add: lb_reset_def add_int_def)
  moreover have "lb_rest ds n p (concat (map (stripe n p) ds)) (b\<lparr>local_id := int p - int n, chunk_id := 0\<rparr>)"
  proof (cases "concat ds = []")
    case True
    then show ?thesis using assms(4) by (auto simp: lb_rest_def stripe_end)
  next
    case False
    then have ds: "0 < length ds" by auto
    have "rest_from n p ds 0 p = concat (map (stripe n p) ds)" using ds by (intro rest_from_start) simp_all
    then show ?thesis using False assms(2,4) ds unfolding lb_rest_def by (auto intro!: exI [of _ 0] exI [of _ p])
  qed
  ultimately show ?thesis by blast
qed

text \<open>
  C34. The threads of a task share the training data without a gap and without an overlap: thread \<open>p\<close> of \<open>n\<close> visits, with \<^verbatim>\<open>DataLoadBalance\<close>, exactly the items at the places \<open>p, p + n, p + 2 * n, ...\<close> of every list of the
  store, its loop ends, the same holds after a \<^verbatim>\<open>reset\<close> at any time, and all threads together visit every item exactly once. The lists may be empty, also all of them.
  Scope: a store whose lists, and the number of lists, stay below 2^31 with the step added.
\<close>

theorem load_balance_partitions:
  fixes ds :: "'a DataStore"
  assumes "ds_fits n ds" "0 < n" "n < 2 ^ 31"
  shows "(\<forall>p < n. \<exists>b. mk_DataLoadBalance ds (int n) (int p) = Some (Inr b) \<and> iterate (lb_has_next ds (int n) (int p)) (lb_next ds) b = Some (Inr (concat (map (stripe n p) ds)))
        \<and> (\<forall>b'. lb_is_empty b' = lb_is_empty b \<longrightarrow> (\<exists>b''. lb_reset (int n) (int p) b' = Inr b''
             \<and> iterate (lb_has_next ds (int n) (int p)) (lb_next ds) b'' = Some (Inr (concat (map (stripe n p) ds))))))
     \<and> (\<Sum>p<n. mset (concat (map (stripe n p) ds))) = mset (concat ds)"
proof
  show "\<forall>p < n. \<exists>b. mk_DataLoadBalance ds (int n) (int p) = Some (Inr b) \<and> iterate (lb_has_next ds (int n) (int p)) (lb_next ds) b = Some (Inr (concat (map (stripe n p) ds)))
        \<and> (\<forall>b'. lb_is_empty b' = lb_is_empty b \<longrightarrow> (\<exists>b''. lb_reset (int n) (int p) b' = Inr b''
             \<and> iterate (lb_has_next ds (int n) (int p)) (lb_next ds) b'' = Some (Inr (concat (map (stripe n p) ds)))))"
  proof (intro allI impI)
    fix p assume p: "p < n"
    have walk: "iterate (lb_has_next ds (int n) (int p)) (lb_next ds) b = Some (Inr xs)" if "lb_rest ds n p xs b" for xs b by (rule lb.iterate_all) (use that assms in simp)
    obtain b where b: "mk_DataLoadBalance ds (int n) (int p) = Some (Inr b)" "lb_rest ds n p (concat (map (stripe n p) ds)) b" "lb_is_empty b = (concat ds = [])"
      using lb_new [OF assms(1) p assms(3)] by blast
    have "\<exists>b''. lb_reset (int n) (int p) b' = Inr b'' \<and> iterate (lb_has_next ds (int n) (int p)) (lb_next ds) b'' = Some (Inr (concat (map (stripe n p) ds)))"
      if "lb_is_empty b' = lb_is_empty b" for b'
      using lb_again [OF assms(1) p assms(3), of b'] that b(3) walk by metis
    then show "\<exists>b. mk_DataLoadBalance ds (int n) (int p) = Some (Inr b) \<and> iterate (lb_has_next ds (int n) (int p)) (lb_next ds) b = Some (Inr (concat (map (stripe n p) ds)))
        \<and> (\<forall>b'. lb_is_empty b' = lb_is_empty b \<longrightarrow> (\<exists>b''. lb_reset (int n) (int p) b' = Inr b''
             \<and> iterate (lb_has_next ds (int n) (int p)) (lb_next ds) b'' = Some (Inr (concat (map (stripe n p) ds)))))"
      using b(1) walk [OF b(2)] by blast
  qed
  have "mset (concat (map (stripe n p) ds)) = (\<Sum>xs\<leftarrow>ds. mset (stripe n p xs))" for p by (induction ds) simp_all
  then have "(\<Sum>p<n. mset (concat (map (stripe n p) ds))) = (\<Sum>xs\<leftarrow>ds. \<Sum>p<n. mset (stripe n p xs))" by (simp add: sum_list_sum_nth sum.swap [of _ "{..<n}"])
  also have "\<dots> = (\<Sum>xs\<leftarrow>ds. mset xs)" by (simp only: stripes_cover [OF assms(2)])
  also have "\<dots> = mset (concat ds)" by (induction ds) simp_all
  finally show "(\<Sum>p<n. mset (concat (map (stripe n p) ds))) = mset (concat ds)" .
qed

theorem load_balance_partitions_witness:
  "\<exists>b b'. mk_DataLoadBalance [[], [1, 2, 3], [], [4 :: int]] (int 2) (int 1) = Some (Inr b)
     \<and> iterate (lb_has_next [[], [1, 2, 3], [], [4 :: int]] (int 2) (int 1)) (lb_next [[], [1, 2, 3], [], [4 :: int]]) b = Some (Inr [2])
     \<and> mk_DataLoadBalance [[], [1, 2, 3], [], [4 :: int]] (int 2) (int 0) = Some (Inr b')
     \<and> iterate (lb_has_next [[], [1, 2, 3], [], [4 :: int]] (int 2) (int 0)) (lb_next [[], [1, 2, 3], [], [4 :: int]]) b' = Some (Inr [1, 3, 4])"
proof -
  let ?ds = "[[], [1, 2, 3], [], [4 :: int]]"
  have "ds_fits 2 ?ds" by (simp add: ds_fits_def)
  from load_balance_partitions [OF this, THEN conjunct1]
  have parts: "\<exists>b. mk_DataLoadBalance ?ds (int 2) (int p) = Some (Inr b) \<and> iterate (lb_has_next ?ds (int 2) (int p)) (lb_next ?ds) b = Some (Inr (concat (map (stripe 2 p) ?ds)))"
    if "p < 2" for p using that by auto
  have "concat (map (stripe 2 1) ?ds) = [2]" "concat (map (stripe 2 0) ?ds) = [1, 3, 4]" by (simp_all add: stripe_def upt_rec)
  then show ?thesis using parts [of 0] parts [of 1] by (simp only:) auto
qed

text \<open>A \<^verbatim>\<open>DataIterator\<close> visits every item once, in order; asking again after the end reads past the end.\<close>

lemma iterator_visits_all:
  assumes "ds_fits 1 ds" "ds \<noteq> []"
  shows "iterate (di_has_next ds) (next_item ds) mk_DataIterator = Some (Inr (concat ds))"
proof -
  have "rest_from 1 0 ds 0 0 = concat (map (stripe 1 0) ds)" using assms(2) by (intro rest_from_start) simp_all
  moreover have "map (stripe 1 0) ds = ds" using stripe_all [of 0] by (intro map_idI) simp
  ultimately have "di_rest ds (concat ds) mk_DataIterator" using assms(2) unfolding di_rest_def mk_DataIterator_def by (intro exI [of _ 0]) simp
  then show ?thesis using assms(1) by (intro di.iterate_all) simp
qed

lemma iterator_asked_again:
  assumes "ds_fits 2 ds" "ds \<noteq> []" "p = \<lparr>chunk_id = int (length ds) - 1, local_id = int (length (last ds))\<rparr>"
  shows "di_has_next ds p = Inl OutOfRange"
proof -
  obtain xs ys where ds: "ds = xs @ [ys]" using assms(2) by (metis append_butlast_last_id)
  have "length ys + 2 < 2 ^ 31" "length xs + 1 < 2 ^ 31" using assms(1) by (simp_all add: ds ds_fits_def)
  then have "di_has_next ds p = di_scan ds (int (length xs)) (int (length ys) + 1)" using assms(3) by (simp add: di_has_next_def add_int_def ds)
  also have "\<dots> = di_scan ds (int (length xs) + 1) 0" using \<open>length xs + 1 < 2 ^ 31\<close> at_int_nth [of "length xs" ds]
    by (simp add: di_scan.simps [of "xs @ [ys]" "int (length xs)" "int (length ys) + 1"] below_size_def add_int_def ds)
  also have "\<dots> = Inl OutOfRange" by (simp add: di_scan.simps [of "xs @ [ys]" "int (length xs) + 1"] at_int_def vec_get_def ds nat_add_distrib)
  finally show ?thesis .
qed

lemma bs_batch_ok:
  assumes "ds_fits 1 ds" "concat ds \<noteq> []" "sp_at ds q (bs_data_sampler b)"
  shows "\<exists>keys b'. bs_prepare_next_batch fea_of ds b = Some (Inr (keys, b')) \<and> sp_at ds (q + bs_batch_size b) (bs_data_sampler b') \<and> bs_batch_size b' = bs_batch_size b
     \<and> bs_get_data_ptrs b' = circle (concat ds) q (bs_batch_size b) \<and> sorted_wrt (<) keys \<and> set keys = (\<Union>x \<in> set (bs_get_data_ptrs b'). set (fea_of x))"
proof -
  obtain p where p: "sp_run (bs_batch_size b) ds (bs_data_sampler b) = Some (Inr (circle (concat ds) q (bs_batch_size b), p))" "sp_at ds (q + bs_batch_size b) p"
    using sp_run_ok [OF assms] by blast
  have ne: "\<not> sp_is_empty (bs_data_sampler b)" "\<not> sp_is_empty p" using assms(3) p(2) by (simp_all add: sp_at_def)
  show ?thesis using p ne by (auto simp: bs_prepare_next_batch_def bs_prepare_next_batch_data_def bs_get_data_ptrs_def)
qed

lemma bs_batches_ok:
  assumes "ds_fits 1 ds" "concat ds \<noteq> []" "sp_at ds q (bs_data_sampler b)"
  shows "\<exists>out b'. bs_batches fea_of k ds b = Some (Inr (out, b')) \<and> length out = k \<and> concat (map snd out) = circle (concat ds) q (k * bs_batch_size b)
     \<and> (\<forall>(keys, xs) \<in> set out. length xs = bs_batch_size b \<and> sorted_wrt (<) keys \<and> set keys = (\<Union>x \<in> set xs. set (fea_of x)))"
  using assms(3)
proof (induction k arbitrary: b q)
  case 0
  then show ?case by (simp add: circle_def)
next
  case (Suc k)
  from bs_batch_ok [OF assms(1,2) Suc.prems, of fea_of] obtain keys b1 where b1: "bs_prepare_next_batch fea_of ds b = Some (Inr (keys, b1))"
    "sp_at ds (q + bs_batch_size b) (bs_data_sampler b1)" "bs_batch_size b1 = bs_batch_size b" "bs_get_data_ptrs b1 = circle (concat ds) q (bs_batch_size b)"
    "sorted_wrt (<) keys" "set keys = (\<Union>x \<in> set (bs_get_data_ptrs b1). set (fea_of x))" by blast
  from Suc.IH [OF b1(2)] obtain out b' where "bs_batches fea_of k ds b1 = Some (Inr (out, b'))" "length out = k"
    "concat (map snd out) = circle (concat ds) (q + bs_batch_size b) (k * bs_batch_size b)"
    "\<forall>(keys, xs) \<in> set out. length xs = bs_batch_size b \<and> sorted_wrt (<) keys \<and> set keys = (\<Union>x \<in> set xs. set (fea_of x))" unfolding b1(3) by blast
  then show ?case using b1 by (simp add: circle_add)
qed

text \<open>
  C35. Batches go through the training data in a circle: from a random start, whatever the two random numbers are, \<open>k\<close> calls of \<^verbatim>\<open>prepare_next_batch\<close> end and give batches of the batch size, which put together are the next
  \<open>k * batch_size\<close> items of the circle through all lists of the store, empty lists included; any window of as many items as there are holds every item exactly once. The keys of a batch come sorted and without duplicates, and are
  exactly those of its items.
  Scope: a store with at least one item whose lists, and the number of lists, are below 2^31.
\<close>

theorem batches_cycle:
  fixes ds :: "'a DataStore"
  assumes "ds_fits 1 ds" "concat ds \<noteq> []"
  shows "\<exists>b q. bs_random_start_point r1 r2 ds (mk_BatchDataSampler ds batch_size) = Some (Inr b) \<and> q < length (concat ds)
     \<and> (\<forall>k. \<exists>out b'. bs_batches fea_of k ds b = Some (Inr (out, b')) \<and> length out = k \<and> concat (map snd out) = circle (concat ds) q (k * batch_size)
          \<and> (\<forall>(keys, xs) \<in> set out. length xs = batch_size \<and> sorted_wrt (<) keys \<and> set keys = (\<Union>x \<in> set xs. set (fea_of x))))
     \<and> (\<forall>m n. m + length (concat ds) \<le> n \<longrightarrow> mset (take (length (concat ds)) (drop m (circle (concat ds) q n))) = mset (concat ds))"
proof -
  let ?T = "length (concat ds)"
  have "\<not> sp_is_empty (mk_DataSampler ds)" using mk_DataSampler_at [OF assms] by (simp add: sp_at_def)
  from random_start_at [OF assms this, of r1 r2] obtain p q where p: "sp_random_start_point r1 r2 ds (mk_DataSampler ds) = Some (Inr p)" "sp_at ds q p" "q < ?T" by blast
  define b where "b = (mk_BatchDataSampler ds batch_size)\<lparr>bs_data_sampler := p\<rparr>"
  have b: "bs_random_start_point r1 r2 ds (mk_BatchDataSampler ds batch_size) = Some (Inr b)" "sp_at ds q (bs_data_sampler b)" "bs_batch_size b = batch_size"
    using p by (simp_all add: bs_random_start_point_def b_def mk_BatchDataSampler_def)
  have "mset (take ?T (drop m (circle (concat ds) q n))) = mset (concat ds)" if mn: "m + ?T \<le> n" for m n
  proof -
    have "n = m + (?T + (n - m - ?T))" using mn by simp
    then have "circle (concat ds) q n = circle (concat ds) q m @ circle (concat ds) (q + m) ?T @ circle (concat ds) (q + m + ?T) (n - m - ?T)" by (metis circle_add)
    then show ?thesis using circle_once [OF assms(2)] by simp
  qed
  then show ?thesis using b(1) p(3) bs_batches_ok [OF assms b(2), unfolded b(3), of fea_of] by blast
qed

theorem batches_cycle_witness:
  "\<exists>b out b'. bs_random_start_point 5 7 [[], [[1, 2], [2 :: Key]], [[3]]] (mk_BatchDataSampler [[], [[1, 2], [2 :: Key]], [[3]]] 2) = Some (Inr b)
     \<and> bs_batches id 3 [[], [[1, 2], [2]], [[3]]] b = Some (Inr (out, b')) \<and> length out = 3 \<and> mset (take 3 (concat (map snd out))) = {#[1, 2], [2], [3]#}"
proof -
  let ?ds = "[[], [[1, 2], [2 :: Key]], [[3]]]"
  have "ds_fits 1 ?ds" "concat ?ds \<noteq> []" by (simp_all add: ds_fits_def)
  from batches_cycle [OF this, of 5 7 2 id] obtain b q where b: "bs_random_start_point 5 7 ?ds (mk_BatchDataSampler ?ds 2) = Some (Inr b)"
    and out: "\<forall>k. \<exists>out b'. bs_batches id k ?ds b = Some (Inr (out, b')) \<and> length out = k \<and> concat (map snd out) = circle (concat ?ds) q (k * 2)
      \<and> (\<forall>(keys, xs) \<in> set out. length xs = 2 \<and> sorted_wrt (<) keys \<and> set keys = (\<Union>x \<in> set xs. set (id x)))"
    and window: "\<forall>m n. m + length (concat ?ds) \<le> n \<longrightarrow> mset (take (length (concat ?ds)) (drop m (circle (concat ?ds) q n))) = mset (concat ?ds)" by (elim exE conjE)
  from out [rule_format, of 3] obtain out b' where o: "bs_batches id 3 ?ds b = Some (Inr (out, b'))" "length out = 3" "concat (map snd out) = circle (concat ?ds) q (3 * 2)" by (elim exE conjE)
  have "mset (take 3 (concat (map snd out))) = {#[1, 2], [2], [3]#}" using window [rule_format, of 0 6] o(3) by (simp add: eval_nat_numeral)
  then show ?thesis using b o(1,2) by blast
qed

end
