(* ===== verification/Spec2Isabelle.thy ===== *)
theory Spec2Isabelle
  imports KV_Store Worker_Runtime Consistency_Control Fetch_Manager Shared_State Data_Store
begin

text \<open>
  FlexPS: the parameter server, the placement of tasks, and what the threads of a process share. Paths are relative to \<^verbatim>\<open>src/\<close>.

  FlexPS runs machine-learning tasks on a cluster. Process 0 holds the cluster manager, which gives free threads to tasks. Every process runs the user function of a task on the threads that it was given,
  and the threads read and write the parameters of a model, which are spread over servers.

  \<^bold>\<open>1. The parameter server\<close> (\<^verbatim>\<open>kvstore/\<close>).
  A server process keeps the parameters of a table in a store; workers push and pull single keys or chunks of keys. The keys are cut into one range per server, a request is sliced along the ranges, each slice is a message, and
  the answers are put together by the callback of the request. The handler of a server decides when a request is applied and answered: at once, round by round (BSP) or with bounded staleness (SSP).
  \<^item> \<open>Prelude\<close>: machine types, errors, vectors and the sequencing of fallible operations.
  \<^item> \<open>Range_Manager\<close> (\<^verbatim>\<open>range_manager.*\<close>): the ranges of keys and chunks and the lookups, on 64-bit words. The ranges tile the key space, every key has one owner, and \<^verbatim>\<open>GetLocation\<close> is a bijection.
  \<^item> \<open>Message\<close> (\<^verbatim>\<open>kvpairs.hpp\<close>, \<^verbatim>\<open>ps_lite/sarray.h\<close>): a stream is the list of its fields.
  \<^item> \<open>KV_Storage\<close> (\<^verbatim>\<open>handles/basic.hpp\<close>): \<^verbatim>\<open>update\<close> and \<^verbatim>\<open>retrieve\<close>. Locale \<open>additive_store\<close> is what the servers need of an additive store. The main theorem gives the answer of a pull after any pushes.
  \<^item> \<open>Server_Base\<close>, \<open>BSP_Server\<close>, \<open>SSP_Server\<close> (\<^verbatim>\<open>handles/\<close>): the handlers, one record for the state and one function for a message. The answers to any interleaving of requests are those of a specification that is a function of the
    history.
  \<^item> \<open>KV_Worker\<close> (\<^verbatim>\<open>kvworker.hpp\<close>, \<^verbatim>\<open>workercustomer.*\<close>): slicing, sending, the tracker and the callbacks.
  \<^item> \<open>KV_Store\<close> (\<^verbatim>\<open>kvstore.*\<close>, \<^verbatim>\<open>kvmanager.hpp\<close>, \<^verbatim>\<open>servercustomer.cpp\<close>): factory, start-up, dispatch and the composition of all of these; a pull through the cluster returns what was pushed, for every order
    of delivery.

  \<^bold>\<open>2. Tasks and their placement\<close> (\<^verbatim>\<open>core/\<close>, \<^verbatim>\<open>cluster_manager/\<close>, \<^verbatim>\<open>worker/\<close>).
  \<^item> \<open>Task_Core\<close>: tasks, instances and their messages, task store and task factory; registered tasks arrive at the manager.
  \<^item> \<open>Available_Workers\<close>, \<open>Thread_Selection\<close>: the pool of free threads, the placement history and the selection of threads. Locale \<open>thread_taking\<close> is the contract of every
    operation that takes threads from the pool, and has one interpretation for each.
  \<^item> \<open>Schedulers\<close>: the base class and locale \<open>scheduler\<close>, interpreted by \<open>Greedy_Scheduler\<close>, \<open>Sequential_Scheduler\<close>, \<open>Priority_Scheduler\<close> and \<open>Auto_Parallelism\<close>. Along every run
    no thread is lost or used twice; each scheduler adds progress, order and the exact conditions of its exceptions.
  \<^item> \<open>Cluster_Manager\<close>: the manager with its message loop and its trigger. \<open>Worker_Runtime\<close>: the event loop of a process, the runner of instances, the infos that it gives to user functions and the transfer
    of models.

  \<^bold>\<open>3. What the threads of a process share\<close> (\<^verbatim>\<open>ml/\<close>, \<^verbatim>\<open>datastore/\<close>).
  \<^item> \<open>Consistency_Control\<close> (\<^verbatim>\<open>ml/consistency/\<close>, with the calls of \<^verbatim>\<open>ml/mlworker/spmt.hpp\<close>): the controllers of a model that threads share, as a step relation on threads that sleep and wake up; locale \<open>protocol\<close> gives invariants of all
    interleavings.
  \<^item> \<open>Fetch_Manager\<close> (\<^verbatim>\<open>PullChunksWithMinClock\<close> and \<^verbatim>\<open>fetch_mgr_fetch_chunk\<close> of \<^verbatim>\<open>ml/model/chunk_based_ps_model.hpp\<close>): the threads that fetch chunks into one cache and wait for each other's fetches; every call returns, with chunks that are new enough.
  \<^item> \<open>Shared_State\<close> (\<^verbatim>\<open>ml/shared/shared_state.hpp\<close>): the exchange of the shared pointer and the barriers, as a step relation on sends and receives.
  \<^item> \<open>Data_Store\<close> (\<^verbatim>\<open>datastore/\<close>): the training data of a process and its iterators and samplers with the widths of their counters; locale \<open>iterator\<close> is what a loop over \<^verbatim>\<open>has_next\<close> and \<^verbatim>\<open>next\<close> needs.

  \<^bold>\<open>Conventions.\<close> An \<^verbatim>\<open>assert\<close>, an exception, an access out of range and a read of something that was not set are values of \<open>error\<close>. Keys, chunk ids and sizes are 64-bit words; indices of tables are naturals and counters of calls
  and rounds are unbounded. Values are any type with zero and plus. Laws of addition are class constraints of the theorems that need them, which therefore speak of exact arithmetic: those about the BSP and SSP servers. The theorems about the storage and about
  single pushes need none. What the code does not determine is an argument: the order of an
  unordered container and the values of \<^verbatim>\<open>rand()\<close> (\<open>env\<close>, \<open>ord\<close>), readings of the clock, the parts of Husky that the code asks (\<open>WorkerInfo\<close>, \<open>ClusterInfo\<close>). Loops that may not end are partial functions whose value
  \<open>None\<close> is divergence, in thread selection (\<open>grab_loop\<close>) and in the data stores (\<open>iterate\<close>, \<open>skip_empty\<close>, \<open>dl_scan\<close>), and their termination is proved; a step that waits for a message or a wake-up has the value \<open>None\<close> too, and the theorems show that some
  thread can go on; no definition uses fuel.

  \<^bold>\<open>Not modelled.\<close> Sockets, mailboxes and byte layouts belong to Husky and ZeroMQ, which are not in the repository; so \<^verbatim>\<open>worker/engine.*\<close>, \<^verbatim>\<open>context\<close> and the connectors are left out,
  and where their messages matter they are queues. The other models (\<^verbatim>\<open>ml/model/\<close>) and the workers of a task
  (\<^verbatim>\<open>ml/mlworker/\<close>) use the components above and are not in the development. Input from HDFS (\<^verbatim>\<open>io/\<close>) and the numerical library (\<^verbatim>\<open>lib/\<close>) call external code on floating-point data. \<^verbatim>\<open>examples/\<close>, \<^verbatim>\<open>exp/\<close>, \<^verbatim>\<open>bench/\<close>, \<^verbatim>\<open>test/\<close> and \<^verbatim>\<open>scripts/\<close> are programs that use the system.
\<close>

end
